(* ===== verification/Prelude.thy ===== *)
theory Prelude
  imports Main "HOL-Library.Word"
begin

text \<open>
  Shared vocabulary of the development: the machine integers of the C++ sources as words, the
  faults a run can end in (a failed \<open>assert\<close>, an access outside an object, \<open>back()\<close> of an empty
  vector, a read of a variable nothing was stored in), the result type that carries them, bounded
  reads of memory objects, and the little-endian byte image of a word with its inverse.

  Lengths and offsets (\<open>size_t\<close>, \<open>ssize_t\<close>, pointer differences) are \<open>nat\<close>: they are sizes of
  objects in memory. Every integer that is data, and every conversion of a size to \<open>uint32_t\<close> or
  \<open>int\<close>, keeps its width.
\<close>

unbundle bit_operations_syntax

section \<open>Types\<close>

type_synonym byte = "8 word"
type_synonym u16 = "16 word"
type_synonym u32 = "32 word"
type_synonym u64 = "64 word"

text \<open>
  How a run can leave the defined behaviour of the program. Assertions are modelled as enabled
  (the \<open>Debug\<close> build that \<open>CMakeLists.txt\<close> selects in a git checkout).
\<close>

datatype fault =
    AssertFailed     \<comment> \<open>an \<open>assert\<close> whose condition is false\<close>
  | OutOfBounds      \<comment> \<open>a read or write outside the object a pointer refers to\<close>
  | EmptyContainer   \<comment> \<open>\<open>back()\<close>, \<open>top()\<close> or \<open>pop\<close> on an empty container\<close>
  | Uninitialised    \<comment> \<open>a value that was never stored is used\<close>
  | UseAfterFree     \<comment> \<open>an access through a pointer to memory that has been released\<close>
  | OverlappingCopy  \<comment> \<open>\<open>memcpy\<close> between overlapping ranges\<close>
  | DivisionByZero   \<comment> \<open>an integer division or remainder by zero\<close>
  | IntOverflow      \<comment> \<open>a signed integer leaves the range of its type\<close>
  | BadShift         \<comment> \<open>a shift by the width of its operand or more\<close>
  | NullPointer      \<comment> \<open>a null pointer is dereferenced\<close>
  | NoReturn         \<comment> \<open>control leaves a non-void function without \<open>return\<close>\<close>

type_synonym 'a res = "fault + 'a"

named_theorems codec_simps \<open>what the encoders append and the decoders return\<close>
named_theorems slice_simps \<open>the operations of Slice on valid slices\<close>

section \<open>Results\<close>

definition res_bind :: "'a res \<Rightarrow> ('a \<Rightarrow> 'b res) \<Rightarrow> 'b res" where
  "res_bind m f = (case m of Inl e \<Rightarrow> Inl e | Inr x \<Rightarrow> f x)"

definition require :: "bool \<Rightarrow> 'a res \<Rightarrow> 'a res" where
  "require b r = (if b then r else Inl AssertFailed)"

definition is_ok :: "'a res \<Rightarrow> bool" where
  "is_ok r = (case r of Inl _ \<Rightarrow> False | Inr _ \<Rightarrow> True)"

lemma res_bind_Inr [simp]: "res_bind (Inr x) f = f x"
  by (simp add: res_bind_def)

lemma res_bind_Inl [simp]: "res_bind (Inl e) f = Inl e"
  by (simp add: res_bind_def)

lemma res_bind_eq_Inr: "res_bind m f = Inr y \<longleftrightarrow> (\<exists>x. m = Inr x \<and> f x = Inr y)"
  by (cases m) simp_all

lemma res_bind_cong [fundef_cong]:
  "m = m' \<Longrightarrow> (\<And>x. m' = Inr x \<Longrightarrow> f x = f' x) \<Longrightarrow> res_bind m f = res_bind m' f'"
  by (cases m') simp_all

lemma require_True [simp]: "require True r = r"
  by (simp add: require_def)

lemma require_False [simp]: "require False r = Inl AssertFailed"
  by (simp add: require_def)

lemma require_eq_Inr: "require b r = Inr x \<longleftrightarrow> b \<and> r = Inr x"
  by (simp add: require_def)

lemma is_ok_simps [simp]: "is_ok (Inr x)" "\<not> is_ok (Inl e)"
  by (simp_all add: is_ok_def)

section \<open>Memory objects\<close>

text \<open>
  A pointer into an object is an offset into the object's contents: bytes, or cells where the
  contents may be indeterminate.
\<close>

definition read_bytes :: "'a list \<Rightarrow> nat \<Rightarrow> nat \<Rightarrow> 'a list res" where
  "read_bytes m p n = (if p + n \<le> length m then Inr (take n (drop p m)) else Inl OutOfBounds)"

definition write_bytes :: "'a list \<Rightarrow> nat \<Rightarrow> 'a list \<Rightarrow> 'a list res" where
  "write_bytes m p bs =
     (if p + length bs \<le> length m
      then Inr (take p m @ bs @ drop (p + length bs) m) else Inl OutOfBounds)"

lemma read_bytes_ok [simp]: "p + n \<le> length m \<Longrightarrow> read_bytes m p n = Inr (take n (drop p m))"
  by (simp add: read_bytes_def)

lemma read_bytes_Inr_iff:
  "read_bytes m p n = Inr bs \<longleftrightarrow> p + n \<le> length m \<and> bs = take n (drop p m)"
  by (auto simp: read_bytes_def)

lemma length_write_bytes: "write_bytes m p bs = Inr m' \<Longrightarrow> length m' = length m"
  by (auto simp: write_bytes_def split: if_splits)

lemma write_bytes_ok:
  "p + length bs \<le> length m \<Longrightarrow>
   write_bytes m p bs = Inr (take p m @ bs @ drop (p + length bs) m)"
  by (simp add: write_bytes_def)

section \<open>Bits of the constants the sources use\<close>

lemma bit_consts [simp]:
  "bit (127 :: int) n \<longleftrightarrow> n < 7"
  "bit (255 :: int) n \<longleftrightarrow> n < 8"
  "bit (15 :: int) n \<longleftrightarrow> n < 4"
  "bit (128 :: int) n \<longleftrightarrow> n = 7"
proof -
  have "(127 :: int) = mask 7" "(255 :: int) = mask 8" "(15 :: int) = mask 4" "(128 :: int) = 2 ^ 7"
    by (simp_all add: mask_eq_exp_minus_1)
  then show "bit (127 :: int) n \<longleftrightarrow> n < 7" "bit (255 :: int) n \<longleftrightarrow> n < 8"
    "bit (15 :: int) n \<longleftrightarrow> n < 4" "bit (128 :: int) n \<longleftrightarrow> n = 7"
    by (auto simp only: bit_mask_iff bit_exp_iff possible_bit_int)
qed

lemma and_128_eq_0_iff: "b AND 128 = (0 :: 'a::len word) \<longleftrightarrow> \<not> bit b 7"
proof
  assume "b AND 128 = 0"
  then have "\<not> bit (b AND 128) 7" by simp
  then show "\<not> bit b 7" by (auto simp: bit_simps dest: bit_imp_le_length)
next
  assume "\<not> bit b 7"
  then show "b AND 128 = 0" by (intro bit_word_eqI) (auto simp: bit_and_iff)
qed

lemma bit_small_word:
  assumes "unat (v :: 'a::len word) < 2 ^ n" and "bit v i"
  shows "i < n"
proof -
  have "bit (unat v) i"
    using assms(2) by (simp add: bit_unsigned_iff bit_imp_le_length possible_bit_def)
  moreover have "take_bit n (unat v) = unat v" using assms(1) by (simp add: take_bit_nat_eq_self_iff)
  ultimately show ?thesis by (metis bit_take_bit_iff)
qed

lemma unat_drop_bit_div: "unat (drop_bit n (v :: 'a::len word)) = unat v div 2 ^ n"
  by (simp add: unat_drop_bit_eq) (simp add: drop_bit_eq_div)

lemma drop_eq_Cons:
  assumes "drop p m = x # xs"
  shows "p < length m" and "m ! p = x" and "drop (Suc p) m = xs"
proof -
  show p: "p < length m" using assms by (metis drop_all list.distinct(1) not_le_imp_less)
  with assms show "m ! p = x" "drop (Suc p) m = xs"
    by (simp_all add: Cons_nth_drop_Suc [symmetric])
qed

section \<open>Little-endian bytes of a word\<close>

definition le_bytes :: "nat \<Rightarrow> 'a::len word \<Rightarrow> byte list" where
  "le_bytes n w = map (\<lambda>i. ucast (drop_bit (8 * i) w)) [0..<n]"

primrec of_le_bytes :: "byte list \<Rightarrow> 'a::len word" where
  "of_le_bytes [] = 0"
| "of_le_bytes (b # bs) = ucast b OR push_bit 8 (of_le_bytes bs)"

lemma length_le_bytes [simp]: "length (le_bytes n w) = n"
  by (simp add: le_bytes_def)

lemma le_bytes_0 [simp]: "le_bytes 0 w = []"
  by (simp add: le_bytes_def)

lemma le_bytes_Suc: "le_bytes (Suc n) w = ucast w # le_bytes n (drop_bit 8 w)"
  by (simp add: le_bytes_def upt_conv_Cons map_Suc_upt [symmetric] del: upt_Suc)
    (simp add: add.commute)

lemma of_le_bytes_le_bytes: "of_le_bytes (le_bytes n w) = take_bit (8 * n) w"
proof (induction n arbitrary: w)
  case 0
  then show ?case by simp
next
  case (Suc n)
  have "ucast (ucast w :: byte) OR push_bit 8 (take_bit (8 * n) (drop_bit 8 w))
      = take_bit (8 * Suc n) w"
    by (rule bit_word_eqI) (auto simp: bit_simps)
  then show ?case by (simp add: le_bytes_Suc Suc.IH)
qed

lemma bit_of_le_bytes:
  "bit (of_le_bytes bs :: 'a::len word) i \<longleftrightarrow>
   i < LENGTH('a) \<and> i div 8 < length bs \<and> bit (bs ! (i div 8)) (i mod 8)"
proof (induction bs arbitrary: i)
  case Nil
  then show ?case by simp
next
  case (Cons b bs)
  show ?case
  proof (cases "i < 8")
    case True
    then show ?thesis by (auto simp: bit_simps)
  next
    case False
    then have "i div 8 = Suc ((i - 8) div 8)" "i mod 8 = (i - 8) mod 8"
      by (simp_all add: le_div_geq le_mod_geq)
    with False show ?thesis
      using Cons.IH [of "i - 8"]
      by (auto simp: bit_simps dest: bit_imp_le_length)
  qed
qed

lemma nth_le_bytes: "i < n \<Longrightarrow> le_bytes n w ! i = ucast (drop_bit (8 * i) w)"
  by (simp add: le_bytes_def)

lemma le_bytes_of_le_bytes:
  assumes "8 * length bs \<le> LENGTH('a::len)"
  shows "le_bytes (length bs) (of_le_bytes bs :: 'a word) = bs"
proof (rule nth_equalityI)
  fix i assume "i < length (le_bytes (length bs) (of_le_bytes bs :: 'a word))"
  then have i: "i < length bs" by simp
  have "ucast (drop_bit (8 * i) (of_le_bytes bs :: 'a word)) = bs ! i"
  proof (rule bit_word_eqI)
    fix n assume "n < LENGTH(8)"
    then have n: "n < 8" by simp
    moreover from n i assms have "8 * i + n < LENGTH('a)" by linarith
    ultimately show "bit (ucast (drop_bit (8 * i) (of_le_bytes bs :: 'a word)) :: byte) n
        = bit (bs ! i) n"
      using i by (simp add: bit_simps bit_of_le_bytes)
  qed
  with i show "le_bytes (length bs) (of_le_bytes bs :: 'a word) ! i = bs ! i"
    by (simp add: nth_le_bytes)
qed simp

section \<open>Literal text as bytes\<close>

definition bytes_of_string :: "string \<Rightarrow> byte list" where
  "bytes_of_string s = map of_char s"

lemma length_bytes_of_string [simp]: "length (bytes_of_string s) = length s"
  by (simp add: bytes_of_string_def)

section \<open>Decimal text\<close>

text \<open>What \<open>std::to_string\<close> and the \<open>%" PRIu64 "\<close> conversion of \<open>snprintf\<close> print.\<close>

fun show_nat :: "nat \<Rightarrow> byte list" where
  "show_nat n = (if n < 10 then [48 + of_nat n] else show_nat (n div 10) @ [48 + of_nat (n mod 10)])"

declare show_nat.simps [simp del]

definition show_int :: "int \<Rightarrow> byte list" where
  "show_int i = (if i < 0 then 45 # show_nat (nat (- i)) else show_nat (nat i))"

text \<open>The value of a run of decimal digits.\<close>

definition dec_value :: "byte list \<Rightarrow> nat" where
  "dec_value ds = foldl (\<lambda>v d. 10 * v + (unat d - 48)) 0 ds"

definition is_dec_digit :: "byte \<Rightarrow> bool" where
  "is_dec_digit c \<longleftrightarrow> 48 \<le> unat c \<and> unat c \<le> 57"

lemma unat_digit: "d < 10 \<Longrightarrow> unat (48 + of_nat d :: byte) = 48 + d"
  by (simp add: unat_word_ariths unat_of_nat)

lemma dec_value_snoc [simp]: "dec_value (ds @ [d]) = 10 * dec_value ds + (unat d - 48)"
  by (simp add: dec_value_def)

lemma dec_value_Nil [simp]: "dec_value [] = 0"
  by (simp add: dec_value_def)

lemma dec_value_show_nat: "dec_value (show_nat n) = n"
proof (induction n rule: show_nat.induct)
  case (1 n)
  show ?case
  proof (cases "n < 10")
    case True
    have "dec_value ([] @ [48 + of_nat n]) = n"
      unfolding dec_value_snoc using True by (simp add: unat_digit)
    with True show ?thesis by (simp add: show_nat.simps [of n])
  next
    case False
    with 1 show ?thesis by (simp add: show_nat.simps [of n] unat_digit)
  qed
qed

lemma show_nat_nonempty [simp]: "show_nat n \<noteq> []"
  by (subst show_nat.simps) simp

lemma show_nat_digits: "c \<in> set (show_nat n) \<Longrightarrow> is_dec_digit c"
proof (induction n rule: show_nat.induct)
  case (1 n)
  then show ?case
    by (auto simp: show_nat.simps [of n] is_dec_digit_def unat_digit split: if_splits)
qed

lemma show_nat_inj: "show_nat m = show_nat n \<longleftrightarrow> m = n"
  by (metis dec_value_show_nat)

end
