(* ===== verification/Slices.thy ===== *)
theory Slices
  imports Prelude "HOL-Library.Sublist"
begin

text \<open>
  \<open>include/slice.h\<close> and the first part of \<open>utils/slice.cc\<close>: the \<open>Slice\<close> class at the level of its
  pointer and the hexadecimal conversions.

  A slice holds a pointer and a size and owns nothing. The record keeps the bytes of the object
  the pointer refers to (\<open>sl_base\<close>), the pointer as an offset into it (\<open>sl_data\<close>), the size, and whether
  the pointer refers to a live object, is null, or refers to an object that was released (\<open>sl_kind\<close>).
  Nothing stops the code from building a slice that reaches past its object; \<open>slice_wf\<close> says that
  it does not, and every operation that reads through the pointer faults when it would leave it.
  \<open>slice_bytes\<close> is the byte string a valid slice denotes: the lemmas of \<open>slice_simps\<close> refine each
  pointer-level operation to one on byte strings.
\<close>

section \<open>Data\<close>

datatype ptr_kind = Live | Null | Released

record Slice =
  sl_base :: "byte list"
  sl_data :: nat
  sl_size :: nat
  sl_kind :: ptr_kind

definition slice_wf :: "Slice \<Rightarrow> bool" where
  "slice_wf s \<longleftrightarrow> sl_kind s = Live \<and> sl_data s + sl_size s \<le> length (sl_base s)"

definition slice_bytes :: "Slice \<Rightarrow> byte list" where
  "slice_bytes s = take (sl_size s) (drop (sl_data s) (sl_base s))"

section \<open>Constructors\<close>

text \<open>\<open>Slice()\<close> points at the empty string literal, one terminating byte.\<close>

definition Slice_default :: Slice where
  "Slice_default = \<lparr>sl_base = [0], sl_data = 0, sl_size = 0, sl_kind = Live\<rparr>"

definition Slice_ptr :: "byte list \<Rightarrow> nat \<Rightarrow> nat \<Rightarrow> Slice" where
  "Slice_ptr m d n = \<lparr>sl_base = m, sl_data = d, sl_size = n, sl_kind = Live\<rparr>"

text \<open>\<open>std::string::data()\<close> is followed by a terminating byte.\<close>

definition Slice_string :: "byte list \<Rightarrow> Slice" where
  "Slice_string s = \<lparr>sl_base = s @ [0], sl_data = 0, sl_size = length s, sl_kind = Live\<rparr>"

fun strlen_from :: "byte list \<Rightarrow> nat res" where
  "strlen_from [] = Inl OutOfBounds"
| "strlen_from (c # cs) = (if c = 0 then Inr 0 else res_bind (strlen_from cs) (\<lambda>n. Inr (Suc n)))"

text \<open>The null pointer with a size, as \<open>Slice(const char *, size_t)\<close> takes it.\<close>

definition Slice_null :: "nat \<Rightarrow> Slice" where
  "Slice_null n = \<lparr>sl_base = [], sl_data = 0, sl_size = n, sl_kind = Null\<rparr>"

text \<open>\<open>Slice(const char *s)\<close>: \<open>None\<close> is a null pointer, \<open>Some (m, p)\<close> a pointer into the object \<open>m\<close>.\<close>

definition Slice_cstr :: "(byte list \<times> nat) option \<Rightarrow> Slice res" where
  "Slice_cstr s =
     (case s of
        None \<Rightarrow> Inr (Slice_null 0)
      | Some (m, p) \<Rightarrow> res_bind (strlen_from (drop p m)) (\<lambda>n. Inr (Slice_ptr m p n)))"

text \<open>\<open>SliceParts\<close> is an array of slices with its length: a list of slices.\<close>

type_synonym SliceParts = "Slice list"

text \<open>An access through the pointer: to a released object it is a use after release, whatever the memory holds now.\<close>

definition through :: "Slice \<Rightarrow> 'a res \<Rightarrow> 'a res" where
  "through s r = (if sl_kind s = Released then Inl UseAfterFree else r)"

definition slice_read :: "Slice \<Rightarrow> byte list res" where
  "slice_read s = through s (read_bytes (sl_base s) (sl_data s) (sl_size s))"

fun append_parts :: "byte list \<Rightarrow> SliceParts \<Rightarrow> byte list res" where
  "append_parts buf [] = Inr buf"
| "append_parts buf (s # ss) = res_bind (slice_read s) (\<lambda>bs. append_parts (buf @ bs) ss)"

definition Slice_of_parts :: "SliceParts \<Rightarrow> byte list \<Rightarrow> (Slice \<times> byte list) res" where
  "Slice_of_parts parts buf = res_bind (append_parts buf parts) (\<lambda>buf'. Inr (Slice_string buf', buf'))"

section \<open>Accessors and mutators\<close>

definition slice_empty :: "Slice \<Rightarrow> bool" where
  "slice_empty s \<longleftrightarrow> sl_size s = 0"

definition slice_index :: "Slice \<Rightarrow> nat \<Rightarrow> byte res" where
  "slice_index s n =
     require (n < sl_size s)
       (through s (if sl_data s + n < length (sl_base s) then Inr (sl_base s ! (sl_data s + n))
        else Inl OutOfBounds))"

definition slice_clear :: "Slice \<Rightarrow> Slice" where
  "slice_clear s = \<lparr>sl_base = [0], sl_data = 0, sl_size = 0, sl_kind = Live\<rparr>"

definition remove_prefix :: "Slice \<Rightarrow> nat \<Rightarrow> Slice res" where
  "remove_prefix s n =
     require (n \<le> sl_size s) (Inr (s\<lparr>sl_data := sl_data s + n, sl_size := sl_size s - n\<rparr>))"

definition remove_suffix :: "Slice \<Rightarrow> nat \<Rightarrow> Slice res" where
  "remove_suffix s n = require (n \<le> sl_size s) (Inr (s\<lparr>sl_size := sl_size s - n\<rparr>))"

section \<open>Comparison\<close>

text \<open>
  \<open>memcmp\<close> compares as unsigned bytes; only the sign of its result is specified, and only the sign
  is used.
\<close>

fun memcmp_bytes :: "byte list \<Rightarrow> byte list \<Rightarrow> int" where
  "memcmp_bytes (x # xs) (y # ys) =
     (if x < y then -1 else if y < x then 1 else memcmp_bytes xs ys)"
| "memcmp_bytes _ _ = 0"

text \<open>From offsets \<open>i\<close> and \<open>j\<close> of two slices on, \<open>n\<close> bytes.\<close>

definition memcmp :: "Slice \<Rightarrow> nat \<Rightarrow> Slice \<Rightarrow> nat \<Rightarrow> nat \<Rightarrow> int res" where
  "memcmp s i t j n =
     res_bind (through s (read_bytes (sl_base s) (sl_data s + i) n)) (\<lambda>a.
     res_bind (through t (read_bytes (sl_base t) (sl_data t + j) n)) (\<lambda>b. Inr (memcmp_bytes a b)))"

definition slice_compare :: "Slice \<Rightarrow> Slice \<Rightarrow> int res" where
  "slice_compare a b =
     require (sl_kind a \<noteq> Null \<and> sl_kind b \<noteq> Null)
       (let min_len = (if sl_size a < sl_size b then sl_size a else sl_size b) in
        res_bind (memcmp a 0 b 0 min_len)
          (\<lambda>r. Inr (if r = 0 then (if sl_size a < sl_size b then -1
                                    else if sl_size a > sl_size b then 1 else r)
                    else r)))"

definition slice_eq :: "Slice \<Rightarrow> Slice \<Rightarrow> bool res" where
  "slice_eq x y =
     (if sl_size x = sl_size y
      then res_bind (memcmp x 0 y 0 (sl_size x))
             (\<lambda>r. Inr (r = 0))
      else Inr False)"

definition slice_ne :: "Slice \<Rightarrow> Slice \<Rightarrow> bool res" where
  "slice_ne x y = res_bind (slice_eq x y) (\<lambda>b. Inr (\<not> b))"

definition starts_with :: "Slice \<Rightarrow> Slice \<Rightarrow> bool res" where
  "starts_with s x =
     (if sl_size s \<ge> sl_size x
      then res_bind (memcmp s 0 x 0 (sl_size x))
             (\<lambda>r. Inr (r = 0))
      else Inr False)"

definition ends_with :: "Slice \<Rightarrow> Slice \<Rightarrow> bool res" where
  "ends_with s x =
     (if sl_size s \<ge> sl_size x
      then res_bind (memcmp s (sl_size s - sl_size x) x 0 (sl_size x))
             (\<lambda>r. Inr (r = 0))
      else Inr False)"

function diff_loop :: "byte list \<Rightarrow> nat \<Rightarrow> byte list \<Rightarrow> nat \<Rightarrow> nat \<Rightarrow> nat \<Rightarrow> nat res" where
  "diff_loop m p m' p' len off =
     (if off < len then
        if p + off < length m \<and> p' + off < length m' then
          if m ! (p + off) \<noteq> m' ! (p' + off) then Inr off
          else diff_loop m p m' p' len (Suc off)
        else Inl OutOfBounds
      else Inr off)"
  by pat_completeness auto
termination
  by (relation "measure (\<lambda>(m, p, m', p', len, off). len - off)") auto

declare diff_loop.simps [simp del]

definition difference_offset :: "Slice \<Rightarrow> Slice \<Rightarrow> nat res" where
  "difference_offset a b =
     (let len = (if sl_size a < sl_size b then sl_size a else sl_size b) in
      if len = 0 then Inr 0
      else through a (through b (diff_loop (sl_base a) (sl_data a) (sl_base b) (sl_data b) len 0)))"

section \<open>Hexadecimal text\<close>

definition toHex :: "byte \<Rightarrow> byte" where
  "toHex v = (if v \<le> 9 then 48 + v else 65 + v - 10)"

text \<open>The comparisons of \<open>fromHex\<close> are on \<open>char\<close>, a signed type on the supported targets.\<close>

definition fromHex :: "byte \<Rightarrow> int" where
  "fromHex c0 =
     (let c = (if sint c0 \<ge> 97 \<and> sint c0 \<le> 102 then c0 - 32 else c0) in
      if sint c < 48 \<or> (sint c > 57 \<and> (sint c < 65 \<or> sint c > 70)) then -1
      else if sint c \<le> 57 then sint c - 48
      else sint c - 65 + 10)"

fun hex_encode :: "byte list \<Rightarrow> byte list" where
  "hex_encode [] = []"
| "hex_encode (c # cs) = toHex (drop_bit 4 c) # toHex (c AND 15) # hex_encode cs"

definition slice_ToString :: "Slice \<Rightarrow> bool \<Rightarrow> byte list res" where
  "slice_ToString s hex = res_bind (slice_read s) (\<lambda>bs. Inr (if hex then hex_encode bs else bs))"

text \<open>
  The loop of \<open>DecodeHex\<close> over the remaining bytes, pushing to the result; the flag is the return
  value. The caller has checked that the length is even.
\<close>

fun hex_decode :: "byte list \<Rightarrow> byte list \<Rightarrow> bool \<times> byte list" where
  "hex_decode [] result = (True, result)"
| "hex_decode [c] result = (False, result)"
| "hex_decode (c1 # c2 # cs) result =
     (let h1 = fromHex c1 in
      if h1 < 0 then (False, result)
      else let h2 = fromHex c2 in
           if h2 < 0 then (False, result)
           else hex_decode cs (result @ [word_of_int ((h1 * 16) OR h2)]))"

text \<open>The argument \<open>None\<close> is a null \<open>result\<close> pointer.\<close>

definition DecodeHex :: "Slice \<Rightarrow> byte list option \<Rightarrow> (bool \<times> byte list option) res" where
  "DecodeHex s result =
     (if sl_size s mod 2 \<noteq> 0 then Inr (False, result)
      else case result of
        None \<Rightarrow> Inr (False, None)
      | Some _ \<Rightarrow> res_bind (slice_read s)
          (\<lambda>bs. case hex_decode bs [] of (ok, r) \<Rightarrow> Inr (ok, Some r)))"

section \<open>What valid slices denote\<close>

lemma through_wf [simp]: "slice_wf s \<Longrightarrow> through s r = r"
  by (simp add: through_def slice_wf_def)

lemma length_slice_bytes [simp]: "slice_wf s \<Longrightarrow> length (slice_bytes s) = sl_size s"
  by (auto simp: slice_wf_def slice_bytes_def)

lemma slice_read_wf [slice_simps]: "slice_wf s \<Longrightarrow> slice_read s = Inr (slice_bytes s)"
  by (simp add: slice_read_def slice_wf_def slice_bytes_def)

lemma slice_wf_constructors [simp]:
  "slice_wf Slice_default" "slice_wf (Slice_string bs)" "slice_wf (slice_clear s)"
  "slice_wf (Slice_ptr m d n) \<longleftrightarrow> d + n \<le> length m"
  by (simp_all add: slice_wf_def Slice_default_def Slice_string_def slice_clear_def Slice_ptr_def)

lemma slice_bytes_constructors [simp]:
  "slice_bytes Slice_default = []" "slice_bytes (Slice_string bs) = bs"
  "slice_bytes (slice_clear s) = []"
  "slice_bytes (Slice_ptr m d n) = take n (drop d m)"
  by (simp_all add: slice_bytes_def Slice_default_def Slice_string_def slice_clear_def Slice_ptr_def)

lemma slice_empty_bytes [slice_simps]: "slice_wf s \<Longrightarrow> slice_empty s \<longleftrightarrow> slice_bytes s = []"
  by (metis length_0_conv length_slice_bytes slice_empty_def)

lemma slice_index_bytes [slice_simps]:
  "slice_wf s \<Longrightarrow> n < sl_size s \<Longrightarrow> slice_index s n = Inr (slice_bytes s ! n)"
  by (simp add: slice_index_def slice_wf_def slice_bytes_def)

lemma remove_prefix_Inr:
  assumes "slice_wf s" and "remove_prefix s n = Inr s'"
  shows "slice_wf s'" and "slice_bytes s' = drop n (slice_bytes s)"
    and "sl_base s' = sl_base s" and "n \<le> length (slice_bytes s)"
  using assms
  by (auto simp: remove_prefix_def require_eq_Inr slice_wf_def slice_bytes_def drop_take add.commute)

lemma remove_prefix_ok:
  "n \<le> sl_size s \<Longrightarrow>
   remove_prefix s n = Inr (s\<lparr>sl_data := sl_data s + n, sl_size := sl_size s - n\<rparr>)"
  by (simp add: remove_prefix_def)

lemma remove_suffix_Inr:
  assumes "slice_wf s" and "remove_suffix s n = Inr s'"
  shows "slice_wf s'" and "slice_bytes s' = take (length (slice_bytes s) - n) (slice_bytes s)"
    and "n \<le> length (slice_bytes s)"
  using assms
  by (auto simp: remove_suffix_def require_eq_Inr slice_wf_def slice_bytes_def)

lemma append_parts_wf:
  "\<forall>s \<in> set ss. slice_wf s \<Longrightarrow>
   append_parts buf ss = Inr (buf @ concat (map slice_bytes ss))"
  by (induction ss arbitrary: buf) (auto simp: slice_simps)

subsection \<open>Comparison of byte strings\<close>

text \<open>The three-way comparison that \<open>Slice::compare\<close> computes, on contents.\<close>

definition bytes_compare :: "byte list \<Rightarrow> byte list \<Rightarrow> int" where
  "bytes_compare xs ys =
     (let n = (if length xs < length ys then length xs else length ys);
          r = memcmp_bytes (take n xs) (take n ys) in
      if r = 0 then (if length xs < length ys then -1 else if length xs > length ys then 1 else r)
      else r)"

lemma slice_compare_bytes [slice_simps]:
  assumes "slice_wf a" and "slice_wf b"
  shows "slice_compare a b = Inr (bytes_compare (slice_bytes a) (slice_bytes b))"
  using assms
  by (simp add: slice_compare_def bytes_compare_def Let_def memcmp_def)
    (auto simp: slice_wf_def slice_bytes_def min_def)

lemma bytes_compare_simps [simp]:
  "bytes_compare [] [] = 0"
  "bytes_compare [] (y # ys) = -1"
  "bytes_compare (x # xs) [] = 1"
  "bytes_compare (x # xs) (y # ys) =
     (if x < y then -1 else if y < x then 1 else bytes_compare xs ys)"
  by (simp_all add: bytes_compare_def Let_def)

lemma bytes_compare_range: "bytes_compare xs ys \<in> {-1, 0, 1}"
proof (induction xs arbitrary: ys)
  case Nil
  then show ?case by (cases ys) simp_all
next
  case (Cons x xs)
  then show ?case by (cases ys) auto
qed

lemma bytes_compare_refl [simp]: "bytes_compare xs xs = 0"
  by (induction xs) simp_all

lemma bytes_compare_eq_0_iff [simp]: "bytes_compare xs ys = 0 \<longleftrightarrow> xs = ys"
proof (induction xs arbitrary: ys)
  case Nil
  then show ?case by (cases ys) simp_all
next
  case (Cons x xs)
  then show ?case by (cases ys) auto
qed

lemma bytes_compare_flip: "bytes_compare ys xs = - bytes_compare xs ys"
proof (induction xs arbitrary: ys)
  case Nil
  then show ?case by (cases ys) simp_all
next
  case (Cons x xs)
  then show ?case by (cases ys) auto
qed

text \<open>The order is the lexicographic order of unsigned bytes, in which a proper prefix is less.\<close>

lemma bytes_compare_less_iff: "bytes_compare xs ys < 0 \<longleftrightarrow> (xs, ys) \<in> lexord {(x, y). x < y}"
proof (induction xs arbitrary: ys)
  case Nil
  then show ?case by (cases ys) simp_all
next
  case (Cons x xs)
  then show ?case by (cases ys) auto
qed

lemma bytes_compare_trans:
  "bytes_compare xs ys \<le> 0 \<Longrightarrow> bytes_compare ys zs \<le> 0 \<Longrightarrow> bytes_compare xs zs \<le> 0"
proof (induction xs arbitrary: ys zs)
  case Nil
  then show ?case by (cases zs) simp_all
next
  case (Cons x xs)
  then obtain y ys' where ys: "ys = y # ys'" by (cases ys) auto
  with Cons.prems obtain z zs' where zs: "zs = z # zs'" by (cases zs) auto
  show ?case
    using Cons.prems Cons.IH [of ys' zs'] unfolding ys zs
    by (auto split: if_splits)
qed

lemma bytes_compare_append_same [simp]:
  "bytes_compare (xs @ ys) (xs @ zs) = bytes_compare ys zs"
  by (induction xs) simp_all

lemma memcmp_bytes_eq_0:
  "length xs = length ys \<Longrightarrow> memcmp_bytes xs ys = 0 \<longleftrightarrow> xs = ys"
  by (induction xs ys rule: list_induct2) auto

lemma slice_eq_bytes [slice_simps]:
  assumes "slice_wf a" and "slice_wf b"
  shows "slice_eq a b = Inr (slice_bytes a = slice_bytes b)"
proof (cases "sl_size a = sl_size b")
  case True
  then have len: "length (slice_bytes a) = length (slice_bytes b)" using assms by simp
  have "slice_eq a b = Inr (memcmp_bytes (slice_bytes a) (slice_bytes b) = 0)"
    using True assms by (simp add: slice_eq_def memcmp_def slice_wf_def slice_bytes_def)
  with len show ?thesis by (simp add: memcmp_bytes_eq_0)
next
  case False
  with assms show ?thesis by (metis length_slice_bytes slice_eq_def)
qed

lemma slice_ne_bytes [slice_simps]:
  "slice_wf a \<Longrightarrow> slice_wf b \<Longrightarrow> slice_ne a b = Inr (slice_bytes a \<noteq> slice_bytes b)"
  by (simp add: slice_ne_def slice_simps)

lemma take_eq_iff_prefix: "length xs \<le> length ys \<Longrightarrow> take (length xs) ys = xs \<longleftrightarrow> prefix xs ys"
  by (metis append_eq_conv_conj prefix_def)

lemma prefix_length_gt: "length ys < length xs \<Longrightarrow> \<not> prefix xs ys"
  by (meson leD prefix_length_le)

lemma starts_with_bytes [slice_simps]:
  assumes "slice_wf s" and "slice_wf x"
  shows "starts_with s x = Inr (prefix (slice_bytes x) (slice_bytes s))"
proof (cases "sl_size x \<le> sl_size s")
  case True
  have "starts_with s x
      = Inr (memcmp_bytes (take (sl_size x) (slice_bytes s)) (slice_bytes x) = 0)"
    using True assms
    by (simp add: starts_with_def memcmp_def slice_wf_def slice_bytes_def min_absorb2)
  also have "\<dots> = Inr (take (length (slice_bytes x)) (slice_bytes s) = slice_bytes x)"
    using True assms by (subst memcmp_bytes_eq_0) simp_all
  finally show ?thesis
    using True assms take_eq_iff_prefix [of "slice_bytes x" "slice_bytes s"] by simp
next
  case False
  then show ?thesis
    using assms prefix_length_gt [of "slice_bytes s" "slice_bytes x"]
    by (simp add: starts_with_def)
qed

lemma drop_eq_iff_suffix:
  "length xs \<le> length ys \<Longrightarrow> drop (length ys - length xs) ys = xs \<longleftrightarrow> suffix xs ys"
  using suffix_drop [of "length ys - length xs" ys] by (auto simp: suffix_def)

lemma ends_with_bytes [slice_simps]:
  assumes "slice_wf s" and "slice_wf x"
  shows "ends_with s x = Inr (suffix (slice_bytes x) (slice_bytes s))"
proof (cases "sl_size x \<le> sl_size s")
  case True
  have "take (sl_size x) (drop (sl_data s + (sl_size s - sl_size x)) (sl_base s))
      = drop (length (slice_bytes s) - length (slice_bytes x)) (slice_bytes s)"
    using True unfolding length_slice_bytes [OF assms(1)] length_slice_bytes [OF assms(2)]
    by (simp add: slice_bytes_def drop_take add.commute)
  then have "ends_with s x
      = Inr (memcmp_bytes (drop (length (slice_bytes s) - length (slice_bytes x)) (slice_bytes s))
               (slice_bytes x) = 0)"
    using True assms by (simp add: ends_with_def memcmp_def slice_wf_def slice_bytes_def)
  also have "\<dots> = Inr (drop (length (slice_bytes s) - length (slice_bytes x)) (slice_bytes s)
                        = slice_bytes x)"
    using True assms by (subst memcmp_bytes_eq_0) simp_all
  finally show ?thesis
    using True assms drop_eq_iff_suffix [of "slice_bytes x" "slice_bytes s"] by simp
next
  case False
  then show ?thesis
    using assms suffix_length_le [of "slice_bytes x" "slice_bytes s"]
    by (auto simp: ends_with_def)
qed

subsection \<open>First difference\<close>

lemma diff_loop_le:
  assumes "p + len \<le> length m" and "p' + len \<le> length m'" and "off \<le> len"
  shows "\<exists>k. diff_loop m p m' p' len off = Inr k \<and> off \<le> k \<and> k \<le> len \<and>
    (\<forall>i. off \<le> i \<and> i < k \<longrightarrow> m ! (p + i) = m' ! (p' + i)) \<and>
    (k < len \<longrightarrow> m ! (p + k) \<noteq> m' ! (p' + k))"
  using assms
proof (induction m p m' p' len off rule: diff_loop.induct)
  case (1 m p m' p' len off)
  show ?case
  proof (cases "off < len \<and> m ! (p + off) = m' ! (p' + off)")
    case True
    then obtain k where k: "diff_loop m p m' p' len (Suc off) = Inr k"
      "Suc off \<le> k" "k \<le> len" "\<forall>i. Suc off \<le> i \<and> i < k \<longrightarrow> m ! (p + i) = m' ! (p' + i)"
      "k < len \<longrightarrow> m ! (p + k) \<noteq> m' ! (p' + k)"
      using 1 by auto
    from True 1(2,3) have "diff_loop m p m' p' len off = Inr k"
      using k(1) by (simp add: diff_loop.simps [of _ _ _ _ _ off])
    with k True show ?thesis by (metis Suc_leD not_less_eq_eq le_antisym)
  next
    case False
    with 1(2-4) show ?thesis by (subst diff_loop.simps) auto
  qed
qed

lemma difference_offset_bytes:
  assumes "slice_wf a" and "slice_wf b"
  obtains k where "difference_offset a b = Inr k"
    and "k \<le> length (slice_bytes a)" and "k \<le> length (slice_bytes b)"
    and "take k (slice_bytes a) = take k (slice_bytes b)"
    and "k < length (slice_bytes a) \<Longrightarrow> k < length (slice_bytes b) \<Longrightarrow>
      slice_bytes a ! k \<noteq> slice_bytes b ! k"
proof -
  define len where "len = (if sl_size a < sl_size b then sl_size a else sl_size b)"
  have le: "len \<le> sl_size a" "len \<le> sl_size b" by (simp_all add: len_def)
  then have "sl_data a + len \<le> length (sl_base a)" "sl_data b + len \<le> length (sl_base b)"
    using assms by (simp_all add: slice_wf_def)
  from diff_loop_le [OF this, of 0] obtain k where
    k0: "diff_loop (sl_base a) (sl_data a) (sl_base b) (sl_data b) len 0 = Inr k" and k: "k \<le> len"
      "\<forall>i<k. sl_base a ! (sl_data a + i) = sl_base b ! (sl_data b + i)"
      "k < len \<longrightarrow> sl_base a ! (sl_data a + k) \<noteq> sl_base b ! (sl_data b + k)"
    by auto
  have off: "difference_offset a b = Inr k"
    using assms k0 k(1) unfolding difference_offset_def len_def [symmetric] Let_def by simp
  show thesis
  proof (rule that [of k])
    show "take k (slice_bytes a) = take k (slice_bytes b)"
    proof (rule nth_take_lemma)
      fix i show "i < k \<longrightarrow> slice_bytes a ! i = slice_bytes b ! i"
        using k(1,2) le assms by (simp add: slice_bytes_def slice_wf_def)
    qed (use k(1) le assms in simp_all)
    show "slice_bytes a ! k \<noteq> slice_bytes b ! k"
      if "k < length (slice_bytes a)" "k < length (slice_bytes b)"
      using that k(3) assms by (auto simp: slice_bytes_def slice_wf_def len_def split: if_splits)
  qed (use off k(1) le assms in simp_all)
qed

subsection \<open>Hexadecimal round trip\<close>

lemma nibble_cases:
  assumes "unat (v :: byte) < 16"
  shows "v \<in> {0, 1, 2, 3, 4, 5, 6, 7, 8, 9, 10, 11, 12, 13, 14, 15}"
proof -
  define k where "k = unat v"
  then have k: "v = of_nat k" "k < 16" using assms by simp_all
  then have "k \<in> {0, 1, 2, 3, 4, 5, 6, 7, 8, 9, 10, 11, 12, 13, 14, 15}"
    by (auto simp: numeral_eq_Suc less_Suc_eq)
  with k(1) show ?thesis by auto
qed

lemma fromHex_toHex:
  assumes "unat v < 16"
  shows "fromHex (toHex v) = uint v"
proof -
  have "\<forall>v \<in> {0, 1, 2, 3, 4, 5, 6, 7, 8, 9, 10, 11, 12, 13, 14, 15}. fromHex (toHex v) = uint v"
    by code_simp
  with nibble_cases [OF assms] show ?thesis by blast
qed

lemma unat_low_nibble: "unat (c AND 15 :: byte) < 16"
  using word_and_le1 [of c 15] by (simp add: word_le_nat_alt)

lemma unat_high_nibble: "unat (drop_bit 4 c :: byte) < 16"
  using unsigned_less [of c, where ?'a = nat] by (simp add: unat_drop_bit_eq) (simp add: drop_bit_eq_div)

lemma join_nibbles:
  "word_of_int ((uint (drop_bit 4 c) * 16) OR uint (c AND 15)) = (c :: byte)"
proof -
  have "uint (drop_bit 4 c) * 16 = push_bit 4 (uint (drop_bit 4 c))"
    by (simp add: push_bit_eq_mult)
  then have "word_of_int ((uint (drop_bit 4 c) * 16) OR uint (c AND 15))
      = (push_bit 4 (drop_bit 4 c) OR (c AND 15) :: byte)"
    by (metis (no_types, lifting) of_int_or_eq of_int_push_bit word_of_int_uint)
  also have "\<dots> = c"
  proof (rule bit_word_eqI)
    fix n assume "n < LENGTH(8)"
    then have "bit (15 :: byte) n \<longleftrightarrow> n < 4"
      by (auto simp: numeral_eq_Suc less_Suc_eq bit_Suc bit_0)
    then show "bit (push_bit 4 (drop_bit 4 c) OR (c AND 15)) n = bit c n"
      by (auto simp: bit_simps dest: bit_imp_le_length)
  qed
  finally show ?thesis .
qed

lemma hex_decode_encode: "hex_decode (hex_encode bs) r = (True, r @ bs)"
proof (induction bs arbitrary: r)
  case Nil
  then show ?case by simp
next
  case (Cons c bs)
  have "\<not> uint (drop_bit 4 c) < 0" "\<not> uint (c AND 15) < 0" by (simp_all add: not_less)
  with Cons show ?case
    by (simp add: Let_def fromHex_toHex unat_low_nibble unat_high_nibble join_nibbles
        del: uint_and)
qed

lemma length_hex_encode: "length (hex_encode bs) = 2 * length bs"
  by (induction bs) simp_all

section \<open>Properties\<close>

text \<open>
  C35: on valid slices the operations of \<open>Slice\<close> never leave their objects and compute what their
  comments say of the byte strings: equality and its negation, prefix and suffix tests, the position of the first
  difference, which is at most either length, and a comparison that is negative, zero or positive exactly when
  the first string is lexicographically less than, equal to or greater than the second, as unsigned bytes.
  \<open>compare\<close> fails its assertion when one of the pointers is null.
\<close>

theorem slice_operations_on_bytes:
  assumes "slice_wf a" "slice_wf b"
  shows "slice_eq a b = Inr (slice_bytes a = slice_bytes b) \<and> slice_ne a b = Inr (slice_bytes a \<noteq> slice_bytes b) \<and>
    starts_with a b = Inr (prefix (slice_bytes b) (slice_bytes a)) \<and>
    ends_with a b = Inr (suffix (slice_bytes b) (slice_bytes a)) \<and>
    (\<exists>k. difference_offset a b = Inr k \<and> k \<le> length (slice_bytes a) \<and> k \<le> length (slice_bytes b) \<and>
      take k (slice_bytes a) = take k (slice_bytes b) \<and>
      (k < length (slice_bytes a) \<and> k < length (slice_bytes b) \<longrightarrow> slice_bytes a ! k \<noteq> slice_bytes b ! k)) \<and>
    (\<exists>r. slice_compare a b = Inr r \<and> slice_compare b a = Inr (- r) \<and>
      (r < 0 \<longleftrightarrow> (slice_bytes a, slice_bytes b) \<in> lexord {(x, y). x < y}) \<and>
      (r = 0 \<longleftrightarrow> slice_bytes a = slice_bytes b) \<and>
      (r > 0 \<longleftrightarrow> (slice_bytes b, slice_bytes a) \<in> lexord {(x, y). x < y})) \<and>
    slice_compare a (Slice_null n) = Inl AssertFailed \<and> slice_compare (Slice_null n) b = Inl AssertFailed"
proof -
  have "\<exists>k. difference_offset a b = Inr k \<and> k \<le> length (slice_bytes a) \<and> k \<le> length (slice_bytes b) \<and>
      take k (slice_bytes a) = take k (slice_bytes b) \<and>
      (k < length (slice_bytes a) \<and> k < length (slice_bytes b) \<longrightarrow> slice_bytes a ! k \<noteq> slice_bytes b ! k)"
    using difference_offset_bytes [OF assms] by metis
  moreover have "slice_compare b a = Inr (- bytes_compare (slice_bytes a) (slice_bytes b))"
    using assms bytes_compare_flip [of "slice_bytes b" "slice_bytes a"] by (simp add: slice_simps)
  moreover have "0 < bytes_compare (slice_bytes a) (slice_bytes b) \<longleftrightarrow> (slice_bytes b, slice_bytes a) \<in> lexord {(x, y). x < y}"
    using bytes_compare_less_iff [of "slice_bytes b" "slice_bytes a"] bytes_compare_flip [of "slice_bytes b" "slice_bytes a"] by simp
  moreover have "slice_compare a (Slice_null n) = Inl AssertFailed" "slice_compare (Slice_null n) b = Inl AssertFailed"
    by (simp_all add: slice_compare_def Slice_null_def)
  ultimately show ?thesis using assms by (simp add: slice_simps bytes_compare_less_iff)
qed

theorem slice_operations_on_bytes_witness:
  "starts_with (Slice_string [1, 2, 3]) (Slice_string [1, 2]) = Inr True \<and>
   (\<exists>r > 0. slice_compare (Slice_string [1, 200]) (Slice_string [1, 100, 3]) = Inr r)"
  using slice_operations_on_bytes [of "Slice_string [1, 2, 3]" "Slice_string [1, 2]"]
    slice_operations_on_bytes [of "Slice_string [1, 200]" "Slice_string [1, 100, 3]"]
  by auto

text \<open>
  \<open>DecodeHex\<close> inverts \<open>ToString(true)\<close>: it accepts the hexadecimal text of any byte string and
  returns that string. Text of odd length is rejected.
\<close>

theorem hex_roundtrip:
  assumes "slice_wf s" "slice_ToString s True = Inr text"
  shows "DecodeHex (Slice_string text) (Some old) = Inr (True, Some (slice_bytes s)) \<and>
    length text = 2 * length (slice_bytes s) \<and>
    DecodeHex (Slice_string (text @ [c])) (Some old) = Inr (False, Some old)"
proof -
  have t: "text = hex_encode (slice_bytes s)"
    using assms by (simp add: slice_ToString_def slice_simps)
  have sz: "sl_size (Slice_string x) = length x" for x by (simp add: Slice_string_def)
  show ?thesis
    by (simp add: DecodeHex_def t sz length_hex_encode slice_simps hex_decode_encode)
qed

theorem hex_roundtrip_witness:
  "DecodeHex (Slice_string [50, 65, 70, 70]) (Some []) = Inr (True, Some [42, 255])"
proof -
  have "slice_ToString (Slice_string [42, 255]) True = Inr [50, 65, 70, 70]" by code_simp
  with hex_roundtrip [of "Slice_string [42, 255]" "[50, 65, 70, 70]" "[]"] show ?thesis by simp
qed

end
