(* ===== verification/Coding.thy ===== *)
theory Coding
  imports Slices
begin

text \<open>
  \<open>utils/coding.h\<close> and \<open>utils/coding.cc\<close>: fixed-width and varint encodings, their decoders over
  slices, length-prefixed slices and the zigzag map.

  The argument \<open>le\<close> of the fixed-width routines is \<open>port::kLittleEndian\<close>. \<open>memcpy\<close> of an integer
  copies its object representation, \<open>obj_bytes\<close>. \<open>Encode...\<close> returns the bytes it writes; the
  \<open>Put...\<close> routines go through a local buffer of the size the source declares and fault when the
  encoding would overrun it, so that "no overrun" is a theorem. A decoder's \<open>None\<close> is the return
  value false (or a null pointer), with nothing stored and nothing consumed.
\<close>

section \<open>Object representation\<close>

definition obj_bytes :: "bool \<Rightarrow> nat \<Rightarrow> 'a::len word \<Rightarrow> byte list" where
  "obj_bytes le n v = (if le then le_bytes n v else rev (le_bytes n v))"

definition of_obj_bytes :: "bool \<Rightarrow> byte list \<Rightarrow> 'a::len word" where
  "of_obj_bytes le bs = of_le_bytes (if le then bs else rev bs)"

section \<open>Fixed-width integers\<close>

definition EncodeFixed16 :: "bool \<Rightarrow> u16 \<Rightarrow> byte list" where
  "EncodeFixed16 le v =
     (if le then obj_bytes le 2 v
      else [ucast (v AND 255), ucast (drop_bit 8 v AND 255)])"

definition EncodeFixed32 :: "bool \<Rightarrow> u32 \<Rightarrow> byte list" where
  "EncodeFixed32 le v =
     (if le then obj_bytes le 4 v
      else [ucast (v AND 255), ucast (drop_bit 8 v AND 255),
            ucast (drop_bit 16 v AND 255), ucast (drop_bit 24 v AND 255)])"

definition EncodeFixed64 :: "bool \<Rightarrow> u64 \<Rightarrow> byte list" where
  "EncodeFixed64 le v =
     (if le then obj_bytes le 8 v
      else [ucast (v AND 255), ucast (drop_bit 8 v AND 255),
            ucast (drop_bit 16 v AND 255), ucast (drop_bit 24 v AND 255),
            ucast (drop_bit 32 v AND 255), ucast (drop_bit 40 v AND 255),
            ucast (drop_bit 48 v AND 255), ucast (drop_bit 56 v AND 255)])"

definition DecodeFixed16 :: "bool \<Rightarrow> byte list \<Rightarrow> nat \<Rightarrow> u16 res" where
  "DecodeFixed16 le m p =
     res_bind (read_bytes m p 2) (\<lambda>b. Inr (
       if le then of_obj_bytes le b
       else ucast (b ! 0) OR push_bit 8 (ucast (b ! 1))))"

definition DecodeFixed32 :: "bool \<Rightarrow> byte list \<Rightarrow> nat \<Rightarrow> u32 res" where
  "DecodeFixed32 le m p =
     res_bind (read_bytes m p 4) (\<lambda>b. Inr (
       if le then of_obj_bytes le b
       else ucast (b ! 0) OR push_bit 8 (ucast (b ! 1)) OR push_bit 16 (ucast (b ! 2))
            OR push_bit 24 (ucast (b ! 3))))"

definition DecodeFixed64 :: "bool \<Rightarrow> byte list \<Rightarrow> nat \<Rightarrow> u64 res" where
  "DecodeFixed64 le m p =
     (if le then res_bind (read_bytes m p 8) (\<lambda>b. Inr (of_obj_bytes le b))
      else res_bind (DecodeFixed32 le m p) (\<lambda>lo.
           res_bind (DecodeFixed32 le m (p + 4)) (\<lambda>hi.
           Inr (push_bit 32 (ucast hi) OR ucast lo))))"

definition PutFixed16 :: "bool \<Rightarrow> byte list \<Rightarrow> u16 \<Rightarrow> byte list" where
  "PutFixed16 le dst v = dst @ (if le then obj_bytes le 2 v else EncodeFixed16 le v)"

definition PutFixed32 :: "bool \<Rightarrow> byte list \<Rightarrow> u32 \<Rightarrow> byte list" where
  "PutFixed32 le dst v = dst @ (if le then obj_bytes le 4 v else EncodeFixed32 le v)"

definition PutFixed64 :: "bool \<Rightarrow> byte list \<Rightarrow> u64 \<Rightarrow> byte list" where
  "PutFixed64 le dst v = dst @ (if le then obj_bytes le 8 v else EncodeFixed64 le v)"

definition GetFixed64 :: "bool \<Rightarrow> Slice \<Rightarrow> (Slice \<times> u64) option res" where
  "GetFixed64 le input =
     (if sl_size input < 8 then Inr None
      else res_bind (DecodeFixed64 le (sl_base input) (sl_data input)) (\<lambda>v.
           res_bind (remove_prefix input 8) (\<lambda>input'. Inr (Some (input', v)))))"

definition GetFixed32 :: "bool \<Rightarrow> Slice \<Rightarrow> (Slice \<times> u32) option res" where
  "GetFixed32 le input =
     (if sl_size input < 4 then Inr None
      else res_bind (DecodeFixed32 le (sl_base input) (sl_data input)) (\<lambda>v.
           res_bind (remove_prefix input 4) (\<lambda>input'. Inr (Some (input', v)))))"

definition GetFixed16 :: "bool \<Rightarrow> Slice \<Rightarrow> (Slice \<times> u16) option res" where
  "GetFixed16 le input =
     (if sl_size input < 2 then Inr None
      else res_bind (DecodeFixed16 le (sl_base input) (sl_data input)) (\<lambda>v.
           res_bind (remove_prefix input 2) (\<lambda>input'. Inr (Some (input', v)))))"

section \<open>Varints\<close>

definition EncodeVarint32 :: "u32 \<Rightarrow> byte list" where
  "EncodeVarint32 v =
     (let B = 128 in
      if v < 2 ^ 7 then [ucast v]
      else if v < 2 ^ 14 then [ucast (v OR B), ucast (drop_bit 7 v)]
      else if v < 2 ^ 21 then
        [ucast (v OR B), ucast (drop_bit 7 v OR B), ucast (drop_bit 14 v)]
      else if v < 2 ^ 28 then
        [ucast (v OR B), ucast (drop_bit 7 v OR B), ucast (drop_bit 14 v OR B),
         ucast (drop_bit 21 v)]
      else
        [ucast (v OR B), ucast (drop_bit 7 v OR B), ucast (drop_bit 14 v OR B),
         ucast (drop_bit 21 v OR B), ucast (drop_bit 28 v)])"

lemma ge_128_iff: "(128 :: u64) \<le> v \<longleftrightarrow> 128 \<le> unat v"
  by (simp add: word_le_nat_alt)

function EncodeVarint64 :: "u64 \<Rightarrow> byte list" where
  "EncodeVarint64 v =
     (if v \<ge> 128 then ucast ((v AND (128 - 1)) OR 128) # EncodeVarint64 (drop_bit 7 v)
      else [ucast v])"
  by pat_completeness auto
termination
  by (relation "measure unat") (auto simp: unat_drop_bit_div ge_128_iff)

declare EncodeVarint64.simps [simp del]

text \<open>
  The loop shared by \<open>GetVarint32PtrFallback\<close> and \<open>GetVarint64Ptr\<close>: they differ in the width of
  the result and in the last shift. The result \<open>Some (q, v)\<close> is the pointer past the varint and
  the value stored, \<open>None\<close> the null pointer.
\<close>

function varint_loop ::
  "nat \<Rightarrow> byte list \<Rightarrow> nat \<Rightarrow> nat \<Rightarrow> nat \<Rightarrow> 'a::len word \<Rightarrow> (nat \<times> 'a word) option res" where
  "varint_loop max_shift m p limit shift result =
     (if shift \<le> max_shift \<and> p < limit then
        if p < length m then
          let byte = ucast (m ! p) :: 'a word in
          if byte AND 128 \<noteq> 0
          then varint_loop max_shift m (p + 1) limit (shift + 7)
                 (result OR push_bit shift (byte AND 127))
          else Inr (Some (p + 1, result OR push_bit shift byte))
        else Inl OutOfBounds
      else Inr None)"
  by pat_completeness auto
termination
  by (relation "measure (\<lambda>(max_shift, m, p, limit, shift, result). limit - p)") auto

declare varint_loop.simps [simp del]

definition GetVarint32PtrFallback :: "byte list \<Rightarrow> nat \<Rightarrow> nat \<Rightarrow> (nat \<times> u32) option res" where
  "GetVarint32PtrFallback m p limit = varint_loop 28 m p limit 0 0"

definition GetVarint64Ptr :: "byte list \<Rightarrow> nat \<Rightarrow> nat \<Rightarrow> (nat \<times> u64) option res" where
  "GetVarint64Ptr m p limit = varint_loop 63 m p limit 0 0"

definition GetVarint32Ptr :: "byte list \<Rightarrow> nat \<Rightarrow> nat \<Rightarrow> (nat \<times> u32) option res" where
  "GetVarint32Ptr m p limit =
     (if p < limit then
        if p < length m then
          let result = ucast (m ! p) :: u32 in
          if result AND 128 = 0 then Inr (Some (p + 1, result))
          else GetVarint32PtrFallback m p limit
        else Inl OutOfBounds
      else GetVarint32PtrFallback m p limit)"

definition GetVarint32 :: "Slice \<Rightarrow> (Slice \<times> u32) option res" where
  "GetVarint32 input =
     (let p = sl_data input; limit = p + sl_size input in
      res_bind (GetVarint32Ptr (sl_base input) p limit) (\<lambda>q.
        Inr (map_option (\<lambda>(q, v). (Slice_ptr (sl_base input) q (limit - q), v)) q)))"

definition GetVarint64 :: "Slice \<Rightarrow> (Slice \<times> u64) option res" where
  "GetVarint64 input =
     (let p = sl_data input; limit = p + sl_size input in
      res_bind (GetVarint64Ptr (sl_base input) p limit) (\<lambda>q.
        Inr (map_option (\<lambda>(q, v). (Slice_ptr (sl_base input) q (limit - q), v)) q)))"

function VarintLength_loop :: "u64 \<Rightarrow> nat \<Rightarrow> nat" where
  "VarintLength_loop v len =
     (if v \<ge> 128 then VarintLength_loop (drop_bit 7 v) (len + 1) else len)"
  by pat_completeness auto
termination
  by (relation "measure (\<lambda>(v, len). unat v)") (auto simp: unat_drop_bit_div ge_128_iff)

declare VarintLength_loop.simps [simp del]

definition VarintLength :: "u64 \<Rightarrow> nat" where
  "VarintLength v = VarintLength_loop v 1"

section \<open>Zigzag\<close>

text \<open>An \<open>int64_t\<close> is a 64-bit word read with \<open>sint\<close>.\<close>

definition i64ToZigzag :: "u64 \<Rightarrow> u64" where
  "i64ToZigzag l = push_bit 1 l XOR signed_drop_bit 63 l"

definition zigzagToI64 :: "u64 \<Rightarrow> u64" where
  "zigzagToI64 n = drop_bit 1 n XOR (- (n AND 1))"

text \<open>The value is stored even when the pointer returned is null: the zigzag image of 0.\<close>

definition GetVarsignedint64Ptr :: "byte list \<Rightarrow> nat \<Rightarrow> nat \<Rightarrow> (nat option \<times> u64) res" where
  "GetVarsignedint64Ptr m p limit =
     res_bind (GetVarint64Ptr m p limit) (\<lambda>r.
       Inr (case r of None \<Rightarrow> (None, zigzagToI64 0) | Some (q, u) \<Rightarrow> (Some q, zigzagToI64 u)))"

definition GetVarsignedint64 :: "Slice \<Rightarrow> (bool \<times> Slice \<times> u64) res" where
  "GetVarsignedint64 input =
     (let p = sl_data input; limit = p + sl_size input in
      res_bind (GetVarsignedint64Ptr (sl_base input) p limit) (\<lambda>(q, v).
        Inr (case q of None \<Rightarrow> (False, input, v)
             | Some q \<Rightarrow> (True, Slice_ptr (sl_base input) q (limit - q), v))))"

section \<open>Writing varints through a local buffer\<close>

definition append_buf :: "nat \<Rightarrow> byte list \<Rightarrow> byte list \<Rightarrow> byte list res" where
  "append_buf cap dst bs = (if length bs \<le> cap then Inr (dst @ bs) else Inl OutOfBounds)"

definition kMaxVarint64Length :: nat where
  "kMaxVarint64Length = 10"

definition PutVarint32 :: "byte list \<Rightarrow> u32 \<Rightarrow> byte list res" where
  "PutVarint32 dst v = append_buf 5 dst (EncodeVarint32 v)"

definition PutVarint32Varint32 :: "byte list \<Rightarrow> u32 \<Rightarrow> u32 \<Rightarrow> byte list res" where
  "PutVarint32Varint32 dst v1 v2 = append_buf 10 dst (EncodeVarint32 v1 @ EncodeVarint32 v2)"

definition PutVarint32Varint32Varint32 :: "byte list \<Rightarrow> u32 \<Rightarrow> u32 \<Rightarrow> u32 \<Rightarrow> byte list res" where
  "PutVarint32Varint32Varint32 dst v1 v2 v3 =
     append_buf 15 dst (EncodeVarint32 v1 @ EncodeVarint32 v2 @ EncodeVarint32 v3)"

definition PutVarint64 :: "byte list \<Rightarrow> u64 \<Rightarrow> byte list res" where
  "PutVarint64 dst v = append_buf kMaxVarint64Length dst (EncodeVarint64 v)"

definition PutVarsignedint64 :: "byte list \<Rightarrow> u64 \<Rightarrow> byte list res" where
  "PutVarsignedint64 dst v = append_buf kMaxVarint64Length dst (EncodeVarint64 (i64ToZigzag v))"

definition PutVarint64Varint64 :: "byte list \<Rightarrow> u64 \<Rightarrow> u64 \<Rightarrow> byte list res" where
  "PutVarint64Varint64 dst v1 v2 = append_buf 20 dst (EncodeVarint64 v1 @ EncodeVarint64 v2)"

definition PutVarint32Varint64 :: "byte list \<Rightarrow> u32 \<Rightarrow> u64 \<Rightarrow> byte list res" where
  "PutVarint32Varint64 dst v1 v2 = append_buf 15 dst (EncodeVarint32 v1 @ EncodeVarint64 v2)"

definition PutVarint32Varint32Varint64 :: "byte list \<Rightarrow> u32 \<Rightarrow> u32 \<Rightarrow> u64 \<Rightarrow> byte list res" where
  "PutVarint32Varint32Varint64 dst v1 v2 v3 =
     append_buf 20 dst (EncodeVarint32 v1 @ EncodeVarint32 v2 @ EncodeVarint64 v3)"

section \<open>Length-prefixed slices\<close>

definition PutLengthPrefixedSlice :: "byte list \<Rightarrow> Slice \<Rightarrow> byte list res" where
  "PutLengthPrefixedSlice dst value =
     res_bind (PutVarint32 dst (of_nat (sl_size value))) (\<lambda>dst'.
     res_bind (slice_read value) (\<lambda>bs. Inr (dst' @ bs)))"

definition PutLengthPrefixedSliceParts_total :: "byte list \<Rightarrow> nat \<Rightarrow> SliceParts \<Rightarrow> byte list res" where
  "PutLengthPrefixedSliceParts_total dst total_bytes parts =
     res_bind (PutVarint32 dst (of_nat (total_bytes + sum_list (map sl_size parts)))) (\<lambda>dst'.
     append_parts dst' parts)"

definition PutLengthPrefixedSliceParts :: "byte list \<Rightarrow> SliceParts \<Rightarrow> byte list res" where
  "PutLengthPrefixedSliceParts dst parts = PutLengthPrefixedSliceParts_total dst 0 parts"

definition PutLengthPrefixedSlicePartsWithPadding ::
  "byte list \<Rightarrow> SliceParts \<Rightarrow> nat \<Rightarrow> byte list res" where
  "PutLengthPrefixedSlicePartsWithPadding dst parts pad_sz =
     res_bind (PutLengthPrefixedSliceParts_total dst pad_sz parts) (\<lambda>dst'.
     Inr (dst' @ replicate pad_sz 0))"

text \<open>The flag, the advanced input, and the slice stored when the flag is true.\<close>

definition GetLengthPrefixedSlice :: "Slice \<Rightarrow> (bool \<times> Slice \<times> Slice option) res" where
  "GetLengthPrefixedSlice input =
     res_bind (GetVarint32 input) (\<lambda>r.
       case r of
         None \<Rightarrow> Inr (False, input, None)
       | Some (input', len) \<Rightarrow>
           if sl_size input' \<ge> unat len
           then res_bind (remove_prefix input' (unat len)) (\<lambda>input''.
             Inr (True, input'', Some (Slice_ptr (sl_base input') (sl_data input') (unat len))))
           else Inr (False, input', None))"

text \<open>
  The unchecked variant over a raw pointer: five bytes are readable by assumption. A null pointer
  in the slice it returns is \<open>None\<close> (with size 0).
\<close>

definition GetLengthPrefixedSlice_ptr :: "byte list \<Rightarrow> nat \<Rightarrow> Slice option res" where
  "GetLengthPrefixedSlice_ptr m data =
     res_bind (GetVarint32Ptr m data (data + 5)) (\<lambda>r.
       Inr (map_option (\<lambda>(p, len). Slice_ptr m p (unat len)) r))"

text \<open>
  \<open>GetSliceUntil\<close>: the part before the delimiter and the slice advanced past it. The counter is a
  \<open>uint32_t\<close> and wraps around; \<open>None\<close> means that the loop does not end.
\<close>

partial_function (option) until_loop :: "Slice \<Rightarrow> byte \<Rightarrow> u32 \<Rightarrow> u32 res option" where
  "until_loop s delimiter len =
     (if unat len < sl_size s then
        if sl_data s + unat len < length (sl_base s) then
          if sl_base s ! (sl_data s + unat len) \<noteq> delimiter then until_loop s delimiter (len + 1) else Some (Inr len)
        else Some (Inl OutOfBounds)
      else Some (Inr len))"

definition GetSliceUntil :: "Slice \<Rightarrow> byte \<Rightarrow> (Slice \<times> Slice) res option" where
  "GetSliceUntil s delimiter =
     map_option (\<lambda>r. res_bind r (\<lambda>len.
       res_bind (remove_prefix s (unat (len + (if unat len < sl_size s then 1 else 0)))) (\<lambda>s'.
         Inr (Slice_ptr (sl_base s) (sl_data s) (unat len), s')))) (until_loop s delimiter 0)"

section \<open>Unaligned accesses\<close>

text \<open>
  \<open>PutUnaligned\<close> and \<open>GetUnaligned\<close> for a type \<open>T\<close> of \<open>n\<close> bytes, at offset \<open>p\<close> of the object \<open>m\<close>. The configurations
  that forbid unaligned accesses copy the object representation, and the others store or load it.
\<close>

definition PutUnaligned :: "bool \<Rightarrow> nat \<Rightarrow> byte list \<Rightarrow> nat \<Rightarrow> 'a::len word \<Rightarrow> byte list res" where
  "PutUnaligned le n m p v = write_bytes m p (obj_bytes le n v)"

definition GetUnaligned :: "bool \<Rightarrow> nat \<Rightarrow> byte list \<Rightarrow> nat \<Rightarrow> 'a::len word res" where
  "GetUnaligned le n m p = res_bind (read_bytes m p n) (\<lambda>b. Inr (of_obj_bytes le b))"

section \<open>Byte swap\<close>

text \<open>
  \<open>__builtin_bswap16/32/64\<close> reverse the bytes of their operand; the loop after them is the
  portable fallback for any width of \<open>n\<close> bytes.
\<close>

definition bswap :: "nat \<Rightarrow> 'a::len word \<Rightarrow> 'a word" where
  "bswap n v = of_le_bytes (rev (le_bytes n v))"

primrec EndianSwap_loop :: "nat \<Rightarrow> nat \<Rightarrow> 'a::len word \<Rightarrow> 'a word" where
  "EndianSwap_loop n 0 v = 0"
| "EndianSwap_loop n (Suc i) v =
     EndianSwap_loop n i v OR push_bit (8 * (n - 1 - i)) (drop_bit (8 * i) v AND 255)"

definition EndianSwapValue :: "nat \<Rightarrow> 'a::len word \<Rightarrow> 'a word" where
  "EndianSwapValue n v = (if n = 2 \<or> n = 4 \<or> n = 8 then bswap n v else EndianSwap_loop n n v)"

section \<open>Fixed-width integers are little-endian on every platform\<close>

lemma ucast_and_255: "(ucast (v AND 255 :: 'a::len word) :: byte) = ucast v"
  by (intro bit_word_eqI) (auto simp: bit_simps dest: bit_imp_le_length)

lemma EncodeFixed_le_bytes [codec_simps]:
  "EncodeFixed16 le v2 = le_bytes 2 v2"
  "EncodeFixed32 le v4 = le_bytes 4 v4"
  "EncodeFixed64 le v8 = le_bytes 8 v8"
  by (simp_all add: EncodeFixed16_def EncodeFixed32_def EncodeFixed64_def obj_bytes_def
      ucast_and_255 le_bytes_def numeral_eq_Suc)

lemma PutFixed_append [codec_simps]:
  "PutFixed16 le dst v2 = dst @ le_bytes 2 v2"
  "PutFixed32 le dst v4 = dst @ le_bytes 4 v4"
  "PutFixed64 le dst v8 = dst @ le_bytes 8 v8"
  by (simp_all add: PutFixed16_def PutFixed32_def PutFixed64_def codec_simps obj_bytes_def)

lemma list_length_2E:
  assumes "length xs = 2" obtains a b where "xs = [a, b]"
  using assms by (auto simp: numeral_eq_Suc length_Suc_conv)

lemma DecodeFixed16_of_le_bytes [codec_simps]:
  assumes "p + 2 \<le> length m"
  shows "DecodeFixed16 le m p = Inr (of_le_bytes (take 2 (drop p m)))"
proof -
  have "length (take 2 (drop p m)) = 2" using assms by simp
  then obtain a b where "take 2 (drop p m) = [a, b]" by (rule list_length_2E)
  with assms show ?thesis by (simp add: DecodeFixed16_def of_obj_bytes_def)
qed

lemma list_length_4E:
  assumes "length xs = 4" obtains a b c d where "xs = [a, b, c, d]"
  using assms by (auto simp: numeral_eq_Suc length_Suc_conv)

lemma DecodeFixed32_of_le_bytes [codec_simps]:
  assumes "p + 4 \<le> length m"
  shows "DecodeFixed32 le m p = Inr (of_le_bytes (take 4 (drop p m)))"
proof -
  have "length (take 4 (drop p m)) = 4" using assms by simp
  then obtain a b c d where "take 4 (drop p m) = [a, b, c, d]" by (rule list_length_4E)
  with assms show ?thesis
    by (simp add: DecodeFixed32_def of_obj_bytes_def push_bit_or or.assoc)
qed

lemma of_le_bytes_append:
  "(of_le_bytes (xs @ ys) :: 'a::len word)
    = of_le_bytes xs OR push_bit (8 * length xs) (of_le_bytes ys)"
  by (induction xs) (simp_all add: push_bit_or or.assoc)

lemma ucast_of_le_bytes:
  assumes "8 * length bs \<le> LENGTH('b::len)"
  shows "ucast (of_le_bytes bs :: 'b word) = (of_le_bytes bs :: 'a::len word)"
proof (rule bit_word_eqI)
  fix n assume n: "n < LENGTH('a)"
  have "n < LENGTH('b)" if "n div 8 < length bs" using that assms by linarith
  with n show "bit (ucast (of_le_bytes bs :: 'b word) :: 'a word) n
      = bit (of_le_bytes bs :: 'a word) n"
    by (auto simp: bit_simps bit_of_le_bytes)
qed

lemma DecodeFixed64_of_le_bytes [codec_simps]:
  assumes "p + 8 \<le> length m"
  shows "DecodeFixed64 le m p = Inr (of_le_bytes (take 8 (drop p m)))"
proof -
  have "take 8 (drop p m) = take 4 (drop p m) @ take 4 (drop (p + 4) m)"
    using take_add [of 4 4 "drop p m"] by (simp add: add.commute)
  then have "(of_le_bytes (take 8 (drop p m)) :: u64)
      = push_bit 32 (ucast (of_le_bytes (take 4 (drop (p + 4) m)) :: u32))
        OR ucast (of_le_bytes (take 4 (drop p m)) :: u32)"
    using assms by (simp add: of_le_bytes_append ucast_of_le_bytes or.commute min_absorb2)
  with assms show ?thesis
    by (simp add: DecodeFixed64_def codec_simps of_obj_bytes_def)
qed

lemma of_le_bytes_full [simp]:
  "of_le_bytes (le_bytes 2 v2) = (v2 :: u16)"
  "of_le_bytes (le_bytes 4 v4) = (v4 :: u32)"
  "of_le_bytes (le_bytes 8 v8) = (v8 :: u64)"
  by (simp_all add: of_le_bytes_le_bytes take_bit_word_beyond_length_eq)

text \<open>Decoding at an offset where the encoding stands in the object.\<close>

lemma DecodeFixed_at:
  "drop p m = le_bytes 2 v2 @ r2 \<Longrightarrow> DecodeFixed16 le m p = Inr v2"
  "drop p m = le_bytes 4 v4 @ r4 \<Longrightarrow> DecodeFixed32 le m p = Inr v4"
  "drop p m = le_bytes 8 v8 @ r8 \<Longrightarrow> DecodeFixed64 le m p = Inr v8"
proof -
  have len: "p + n \<le> length m" if "drop p m = le_bytes n w @ r" "0 < n" for n r and w :: "'c::len word"
    using arg_cong [OF that(1), of length] that(2) by simp
  show "drop p m = le_bytes 2 v2 @ r2 \<Longrightarrow> DecodeFixed16 le m p = Inr v2"
    using len [of 2 v2 r2] by (simp add: codec_simps)
  show "drop p m = le_bytes 4 v4 @ r4 \<Longrightarrow> DecodeFixed32 le m p = Inr v4"
    using len [of 4 v4 r4] by (simp add: codec_simps)
  show "drop p m = le_bytes 8 v8 @ r8 \<Longrightarrow> DecodeFixed64 le m p = Inr v8"
    using len [of 8 v8 r8] by (simp add: codec_simps)
qed

text \<open>
  What each \<open>GetFixed\<close> does on a valid slice: false when the slice is too short, else the value of
  its first bytes, which it drops.
\<close>

lemma take_drop_slice: "n \<le> sl_size s \<Longrightarrow> take n (drop (sl_data s) (sl_base s)) = take n (slice_bytes s)"
  by (simp add: slice_bytes_def min_absorb1)

lemma GetFixed64_bytes:
  assumes "slice_wf s"
  shows "GetFixed64 le s = Inr (if length (slice_bytes s) < 8 then None
    else Some (s\<lparr>sl_data := sl_data s + 8, sl_size := sl_size s - 8\<rparr>, of_le_bytes (take 8 (slice_bytes s))))"
  using assms take_drop_slice [of 8 s]
  by (auto simp: GetFixed64_def codec_simps remove_prefix_ok slice_wf_def)

lemma GetFixed32_bytes:
  assumes "slice_wf s"
  shows "GetFixed32 le s = Inr (if length (slice_bytes s) < 4 then None
    else Some (s\<lparr>sl_data := sl_data s + 4, sl_size := sl_size s - 4\<rparr>, of_le_bytes (take 4 (slice_bytes s))))"
  using assms take_drop_slice [of 4 s]
  by (auto simp: GetFixed32_def codec_simps remove_prefix_ok slice_wf_def)

lemma GetFixed16_bytes:
  assumes "slice_wf s"
  shows "GetFixed16 le s = Inr (if length (slice_bytes s) < 2 then None
    else Some (s\<lparr>sl_data := sl_data s + 2, sl_size := sl_size s - 2\<rparr>, of_le_bytes (take 2 (slice_bytes s))))"
  using assms take_drop_slice [of 2 s]
  by (auto simp: GetFixed16_def codec_simps remove_prefix_ok slice_wf_def)

lemma slice_advance:
  assumes "slice_wf s" and "n \<le> sl_size s"
  shows "slice_wf (s\<lparr>sl_data := sl_data s + n, sl_size := sl_size s - n\<rparr>)"
    and "slice_bytes (s\<lparr>sl_data := sl_data s + n, sl_size := sl_size s - n\<rparr>) = drop n (slice_bytes s)"
  using assms by (simp_all add: slice_wf_def slice_bytes_def drop_take add.commute)

section \<open>Varints\<close>

lemma length_EncodeVarint64_pos [simp]: "EncodeVarint64 v \<noteq> []"
  by (subst EncodeVarint64.simps) simp

lemma length_EncodeVarint64_le:
  "unat v < 2 ^ (7 * k) \<Longrightarrow> 0 < k \<Longrightarrow> length (EncodeVarint64 v) \<le> k"
proof (induction v arbitrary: k rule: EncodeVarint64.induct)
  case (1 v)
  show ?case
  proof (cases "v \<ge> 128")
    case True
    with 1(2,3) obtain j where k: "k = Suc j" "0 < j"
      by (cases k; cases "k - 1") (auto simp: ge_128_iff)
    have "2 ^ (7 * k) = 2 ^ (7 * j) * (2 ^ 7 :: nat)"
      unfolding k(1) by (simp add: power_add)
    with 1(2) have "unat (drop_bit 7 v) < 2 ^ (7 * j)"
      by (simp add: unat_drop_bit_div less_mult_imp_div_less)
    with 1(1) [OF True, of j] k have "length (EncodeVarint64 (drop_bit 7 v)) \<le> j" by simp
    with True k(1) show ?thesis by (simp add: EncodeVarint64.simps [of v])
  next
    case False
    with 1(3) show ?thesis by (simp add: EncodeVarint64.simps [of v])
  qed
qed

lemma length_EncodeVarint64_le_10: "length (EncodeVarint64 v) \<le> 10"
proof (rule length_EncodeVarint64_le)
  have "unat v < 2 ^ 64" using unsigned_less [of v, where ?'a = nat] by simp
  also have "(2 ^ 64 :: nat) \<le> 2 ^ (7 * 10)" by simp
  finally show "unat v < 2 ^ (7 * 10)" .
qed simp

lemma VarintLength_loop_eq: "VarintLength_loop v n = n + length (EncodeVarint64 v) - 1"
proof (induction v n rule: VarintLength_loop.induct)
  case (1 v n)
  then show ?case
    by (subst VarintLength_loop.simps, subst EncodeVarint64.simps)
      (cases "EncodeVarint64 (drop_bit 7 v)", auto)
qed

text \<open>The low seven bits and the rest make the value again, at any shift.\<close>

lemma push_bit_7_join:
  "push_bit s (ucast v AND 127) OR push_bit (s + 7) (ucast (drop_bit 7 v))
    = push_bit s (ucast (v :: u64) :: 'a::len word)"
proof (rule bit_word_eqI)
  fix n assume n: "n < LENGTH('a)"
  show "bit (push_bit s (ucast v AND 127) OR push_bit (s + 7) (ucast (drop_bit 7 v)) :: 'a word) n
      = bit (push_bit s (ucast v :: 'a word)) n"
  proof (cases "n < s + 7")
    case True
    then show ?thesis by (auto simp: bit_simps)
  next
    case False
    then have "7 + (n - (s + 7)) = n - s" by simp
    with False n show ?thesis by (auto simp: bit_simps)
  qed
qed

lemma varint_loop_encoded:
  assumes "drop p m = EncodeVarint64 v @ rest" and "p + length (EncodeVarint64 v) \<le> limit"
    and "shift + 7 * (length (EncodeVarint64 v) - 1) \<le> max_shift" and "8 \<le> LENGTH('a::len)"
  shows "varint_loop max_shift m p limit shift (result :: 'a word)
    = Inr (Some (p + length (EncodeVarint64 v), result OR push_bit shift (ucast v)))"
  using assms(1-3)
proof (induction v arbitrary: p shift result rule: EncodeVarint64.induct)
  case (1 v)
  show ?case
  proof (cases "v \<ge> 128")
    case True
    let ?t = "EncodeVarint64 (drop_bit 7 v)" and ?b = "ucast ((v AND 127) OR 128) :: byte"
    let ?r = "result OR push_bit shift (ucast v AND 127)"
    have enc: "EncodeVarint64 v = ?b # ?t" using True by (simp add: EncodeVarint64.simps [of v])
    have p: "p < length m" "m ! p = ?b" "drop (p + 1) m = ?t @ rest"
      using drop_eq_Cons [of p m ?b "?t @ rest"] "1.prems"(1) by (simp_all add: enc)
    have b: "(ucast ?b AND 128 :: 'a word) \<noteq> 0"
      using assms(4) by (simp add: and_128_eq_0_iff bit_simps)
    have lo: "(ucast ?b AND 127 :: 'a word) = ucast v AND 127"
      using assms(4) by (intro bit_word_eqI) (auto simp: bit_simps)
    have join: "?r OR push_bit (shift + 7) (ucast (drop_bit 7 v)) = result OR push_bit shift (ucast v)"
      by (simp only: or.assoc push_bit_7_join)
    have "varint_loop max_shift m (p + 1) limit (shift + 7) ?r
        = Inr (Some (p + 1 + length ?t, ?r OR push_bit (shift + 7) (ucast (drop_bit 7 v))))"
      using "1.IH" [OF True, of "p + 1" "shift + 7" ?r] "1.prems"(2,3) p(3)
      by (cases ?t) (simp_all add: enc)
    then have "varint_loop max_shift m (p + 1) limit (shift + 7) ?r
        = Inr (Some (p + 1 + length ?t, result OR push_bit shift (ucast v)))"
      unfolding join .
    moreover have "varint_loop max_shift m p limit shift result
        = varint_loop max_shift m (p + 1) limit (shift + 7) ?r"
      using "1.prems"(2,3) p(1,2) b lo by (subst varint_loop.simps) (simp add: enc Let_def)
    ultimately show ?thesis by (simp add: enc)
  next
    case False
    then have enc: "EncodeVarint64 v = [ucast v]" by (simp add: EncodeVarint64.simps [of v])
    have p: "p < length m" "m ! p = ucast v"
      using drop_eq_Cons [of p m "ucast v" rest] "1.prems"(1) by (simp_all add: enc)
    have bits: "i < 7" if "bit v i" for i
      using False bit_small_word [of v 7 i] that by (auto simp: ge_128_iff)
    have b: "(ucast (ucast v :: byte) AND 128 :: 'a word) = 0"
      by (auto simp: and_128_eq_0_iff bit_simps dest: bits)
    have v: "(ucast (ucast v :: byte) :: 'a word) = ucast v"
      by (intro bit_word_eqI) (fastforce simp: bit_simps dest: bits)
    show ?thesis using "1.prems"(2,3) p b v
      by (subst varint_loop.simps) (simp add: enc Let_def)
  qed
qed

text \<open>The unrolled 32-bit encoder computes the same bytes as the 64-bit loop.\<close>

lemma ucast_byte_OR_128:
  "(ucast ((ucast (v :: u32) AND 127 :: u64) OR 128) :: byte) = ucast (v OR 128)"
  "(ucast ((drop_bit n (ucast v) AND 127 :: u64) OR 128) :: byte) = ucast (drop_bit n v OR 128)"
  by (intro bit_word_eqI; auto simp: bit_simps dest: bit_imp_le_length)+

lemma unat_ucast_u32_u64: "unat (ucast (v :: u32) :: u64) = unat v"
  using unsigned_less [of v, where ?'a = nat]
  by (simp add: unsigned_ucast_eq take_bit_nat_eq_self_iff)

lemma EncodeVarint32_eq_EncodeVarint64: "EncodeVarint32 v = EncodeVarint64 (ucast v)"
proof -
  have ge: "(128 :: u64) \<le> drop_bit n (ucast v) \<longleftrightarrow> 2 ^ 7 * 2 ^ n \<le> unat v" for n
    by (simp add: ge_128_iff unat_drop_bit_div unat_ucast_u32_u64 less_eq_div_iff_mult_less_eq
        unat_drop_bit_eq)
  have bound: "unat v < 2 ^ 32" using unsigned_less [of v, where ?'a = nat] by simp
  have fin: "(ucast (ucast v :: u64) :: byte) = ucast v"
    "(ucast (drop_bit n (ucast v :: u64)) :: byte) = ucast (drop_bit n v)" for n
    by (intro bit_word_eqI; auto simp: bit_simps dest: bit_imp_le_length)+
  show ?thesis
    using ge [of 0] ge [of 7] ge [of 14] ge [of 21] ge [of 28] bound
    by (simp add: EncodeVarint32_def Let_def word_less_nat_alt EncodeVarint64.simps [of "ucast v"]
        EncodeVarint64.simps [of "drop_bit _ _"] drop_bit_drop_bit ucast_byte_OR_128 fin)
qed

lemma length_EncodeVarint32_le_5: "length (EncodeVarint32 v) \<le> 5"
  by (simp add: EncodeVarint32_def Let_def)

section \<open>Varints in slices\<close>

lemma drop_slice_prefix:
  assumes "slice_wf s" and "slice_bytes s = xs @ rest"
  shows "\<exists>tail. drop (sl_data s) (sl_base s) = xs @ tail" and "sl_size s = length xs + length rest"
proof -
  show "sl_size s = length xs + length rest" using assms by (metis length_append length_slice_bytes)
  have "drop (sl_data s) (sl_base s) = slice_bytes s @ drop (sl_size s) (drop (sl_data s) (sl_base s))"
    unfolding slice_bytes_def by (rule append_take_drop_id [symmetric])
  then show "\<exists>tail. drop (sl_data s) (sl_base s) = xs @ tail" using assms(2) by auto
qed

lemma slice_ptr_advance:
  assumes "slice_wf s" "sl_data s \<le> q" "q \<le> sl_data s + sl_size s"
  shows "slice_wf (Slice_ptr (sl_base s) q (sl_data s + sl_size s - q))"
    and "slice_bytes (Slice_ptr (sl_base s) q (sl_data s + sl_size s - q)) = drop (q - sl_data s) (slice_bytes s)"
  using assms by (simp_all add: slice_wf_def slice_bytes_def drop_take Slice_ptr_def add.commute)

lemma GetVarint64_encoded:
  assumes "slice_wf s" and "slice_bytes s = EncodeVarint64 v @ rest"
  shows "\<exists>s'. GetVarint64 s = Inr (Some (s', v)) \<and> slice_wf s' \<and> slice_bytes s' = rest \<and>
    sl_base s' = sl_base s"
proof -
  let ?n = "length (EncodeVarint64 v)"
  from drop_slice_prefix [OF assms] obtain tail where
    t: "drop (sl_data s) (sl_base s) = EncodeVarint64 v @ tail" and sz: "sl_size s = ?n + length rest" by blast
  have "GetVarint64Ptr (sl_base s) (sl_data s) (sl_data s + sl_size s) = Inr (Some (sl_data s + ?n, v))"
    using varint_loop_encoded [OF t, of "sl_data s + sl_size s" 0 63 "0::u64"] sz length_EncodeVarint64_le_10 [of v]
    by (simp add: GetVarint64Ptr_def)
  then show ?thesis
    using slice_ptr_advance [OF assms(1), of "sl_data s + ?n"] sz assms(2)
    by (simp add: GetVarint64_def Let_def Slice_ptr_def)
qed

lemma GetVarint32Ptr_fast:
  assumes "p < limit \<Longrightarrow> p < length m"
  shows "GetVarint32Ptr m p limit = GetVarint32PtrFallback m p limit"
proof (cases "p < limit \<and> (ucast (m ! p) AND 128 :: u32) = 0")
  case True
  with assms show ?thesis
    by (simp add: GetVarint32Ptr_def GetVarint32PtrFallback_def varint_loop.simps [of 28 m p] Let_def)
next
  case False
  with assms show ?thesis by (auto simp: GetVarint32Ptr_def Let_def)
qed

lemma ucast_u32_u64_u32 [simp]: "ucast (ucast (v :: u32) :: u64) = v"
  by (intro bit_word_eqI) (auto simp: bit_simps)

lemma GetVarint32_encoded:
  assumes "slice_wf s" and "slice_bytes s = EncodeVarint32 v @ rest"
  shows "\<exists>s'. GetVarint32 s = Inr (Some (s', v)) \<and> slice_wf s' \<and> slice_bytes s' = rest \<and>
    sl_base s' = sl_base s"
proof -
  let ?e = "EncodeVarint64 (ucast v)" and ?n = "length (EncodeVarint32 v)"
  from drop_slice_prefix [OF assms] obtain tail where
    t: "drop (sl_data s) (sl_base s) = ?e @ tail" and sz: "sl_size s = ?n + length rest" 
    unfolding EncodeVarint32_eq_EncodeVarint64 by blast
  have "GetVarint32Ptr (sl_base s) (sl_data s) (sl_data s + sl_size s) = Inr (Some (sl_data s + ?n, v))"
    using varint_loop_encoded [OF t, of "sl_data s + sl_size s" 0 28 "0::u32"] sz
      length_EncodeVarint32_le_5 [of v] assms(1)
    by (simp add: GetVarint32PtrFallback_def GetVarint32Ptr_fast slice_wf_def EncodeVarint32_eq_EncodeVarint64)
  then show ?thesis
    using slice_ptr_advance [OF assms(1), of "sl_data s + ?n"] sz assms(2)
    by (simp add: GetVarint32_def Let_def Slice_ptr_def)
qed


lemma varint_loop_in_bounds:
  assumes "limit \<le> length m"
  shows "\<exists>r. varint_loop ms m p limit shift result = Inr r \<and>
    (\<forall>q v. r = Some (q, v) \<longrightarrow> p < q \<and> q \<le> limit \<and> 7 * (q - p) + shift \<le> ms + 7)"
  using assms
proof (induction ms m p limit shift result rule: varint_loop.induct)
  case (1 ms m p limit shift result)
  consider (stop) "\<not> (shift \<le> ms \<and> p < limit)"
    | (last) "shift \<le> ms" "p < limit" "(ucast (m ! p) AND 128 :: 'a word) = 0"
    | (more) "shift \<le> ms" "p < limit" "(ucast (m ! p) AND 128 :: 'a word) \<noteq> 0" by blast
  then show ?case
  proof cases
    case stop
    then show ?thesis by (subst varint_loop.simps) auto
  next
    case last
    with 1(2) show ?thesis by (subst varint_loop.simps) (simp add: Let_def)
  next
    case more
    let ?r = "result OR push_bit shift (ucast (m ! p) AND 127)"
    obtain r where r: "varint_loop ms m (p + 1) limit (shift + 7) ?r = Inr r"
      "\<forall>q v. r = Some (q, v) \<longrightarrow> p + 1 < q \<and> q \<le> limit \<and> 7 * (q - (p + 1)) + (shift + 7) \<le> ms + 7"
      using 1(1) [OF _ _ refl] more 1(2) by force
    have "varint_loop ms m p limit shift result = Inr r"
      using more 1(2) r(1) by (subst varint_loop.simps) (simp add: Let_def)
    with r(2) show ?thesis by fastforce
  qed
qed

lemma bit_neg_and_1: "bit (- (n AND 1) :: u64) i \<longleftrightarrow> i < 64 \<and> odd n"
  by (cases "odd n") (simp_all add: and_one_eq odd_iff_mod_2_eq_one)

lemma bit_zigzagToI64: "i < 64 \<Longrightarrow> bit (zigzagToI64 n) i \<longleftrightarrow> bit n (Suc i) \<noteq> odd n"
  by (simp add: zigzagToI64_def bit_xor_iff bit_neg_and_1 bit_drop_bit_eq)

lemma bit_i64ToZigzag: "i < 64 \<Longrightarrow> bit (i64ToZigzag l) i \<longleftrightarrow> (0 < i \<and> bit l (i - 1)) \<noteq> bit l 63"
  by (simp only: i64ToZigzag_def bit_xor_iff bit_push_bit_iff bit_signed_drop_bit_iff)
    (auto simp: Suc_le_eq)

lemma odd_i64ToZigzag: "odd (i64ToZigzag l) \<longleftrightarrow> bit l 63"
  using bit_i64ToZigzag [of 0 l] by (simp add: bit_0)

lemma zigzagToI64_i64ToZigzag: "zigzagToI64 (i64ToZigzag l) = l"
proof (rule bit_word_eqI)
  fix i assume "i < LENGTH(64)"
  then have i: "i < 64" by simp
  show "bit (zigzagToI64 (i64ToZigzag l)) i = bit l i"
  proof (cases "Suc i < 64")
    case True
    then show ?thesis by (auto simp: bit_zigzagToI64 bit_i64ToZigzag odd_i64ToZigzag)
  next
    case False
    with i have "i = 63" by simp
    then show ?thesis by (auto simp: bit_zigzagToI64 odd_i64ToZigzag dest: bit_imp_le_length)
  qed
qed

lemma i64ToZigzag_zigzagToI64: "i64ToZigzag (zigzagToI64 n) = n"
proof (rule bit_word_eqI)
  fix i assume "i < LENGTH(64)"
  then have i: "i < 64" by simp
  have top: "bit (zigzagToI64 n) 63 = odd n"
    by (auto simp: bit_zigzagToI64 dest: bit_imp_le_length)
  show "bit (i64ToZigzag (zigzagToI64 n)) i = bit n i"
    using i by (cases i) (auto simp: bit_i64ToZigzag odd_i64ToZigzag top bit_zigzagToI64 bit_0)
qed

section \<open>Byte swap\<close>

lemma bit_EndianSwap_loop:
  assumes "i \<le> n"
  shows "bit (EndianSwap_loop n i v :: 'a::len word) k \<longleftrightarrow>
    k < LENGTH('a) \<and> k div 8 < n \<and> n - 1 - k div 8 < i \<and> bit v (8 * (n - 1 - k div 8) + k mod 8)"
  using assms
proof (induction i)
  case 0
  then show ?case by simp
next
  case (Suc i)
  let ?j = "n - 1 - k div 8" and ?d = "n - 1 - i"
  have byte: "bit (push_bit (8 * ?d) (drop_bit (8 * i) v AND 255) :: 'a word) k
      \<longleftrightarrow> k < LENGTH('a) \<and> k div 8 = ?d \<and> bit v (8 * i + k mod 8)"
  proof (cases "k div 8 = ?d")
    case True
    then have "k = 8 * ?d + k mod 8" using div_mult_mod_eq [of k 8] by (simp add: mult.commute)
    then have "8 * ?d \<le> k" "k - 8 * ?d = k mod 8" by linarith+
    with True show ?thesis by (auto simp: bit_simps dest: bit_imp_le_length)
  next
    case False
    have "k div 8 = ?d" if "8 * ?d \<le> k" "k - 8 * ?d < 8"
      using that by (intro div_nat_eqI) simp_all
    with False have "\<not> (8 * ?d \<le> k \<and> k - 8 * ?d < 8)" by blast
    with False show ?thesis by (auto simp: bit_simps)
  qed
  have eq: "k div 8 = ?d \<longleftrightarrow> k div 8 < n \<and> ?j = i" using Suc.prems by auto
  have "bit (EndianSwap_loop n (Suc i) v) k \<longleftrightarrow>
      bit (EndianSwap_loop n i v) k \<or> (k < LENGTH('a) \<and> k div 8 = ?d \<and> bit v (8 * i + k mod 8))"
    by (simp only: EndianSwap_loop.simps bit_or_iff byte)
  with eq Suc show ?case by (auto simp: less_Suc_eq)
qed

lemma bit_bswap:
  assumes "8 * n \<le> LENGTH('a::len)"
  shows "bit (bswap n v :: 'a word) k \<longleftrightarrow>
    k < LENGTH('a) \<and> k div 8 < n \<and> bit v (8 * (n - 1 - k div 8) + k mod 8)"
proof (cases "k div 8 < n")
  case True
  then have "rev (le_bytes n v) ! (k div 8) = ucast (drop_bit (8 * (n - 1 - k div 8)) v)"
    by (simp add: rev_nth nth_le_bytes)
  with True show ?thesis by (simp add: bswap_def bit_of_le_bytes bit_simps)
next
  case False
  then show ?thesis by (simp add: bswap_def bit_of_le_bytes)
qed

lemma EndianSwap_loop_eq_bswap:
  assumes "8 * n \<le> LENGTH('a::len)"
  shows "EndianSwap_loop n n v = (bswap n v :: 'a word)"
  by (rule bit_word_eqI) (auto simp: bit_EndianSwap_loop bit_bswap [OF assms])

lemma bswap_bswap:
  assumes "8 * n = LENGTH('a::len)"
  shows "bswap n (bswap n v) = (v :: 'a word)"
proof -
  have "le_bytes n (of_le_bytes (rev (le_bytes n v)) :: 'a word) = rev (le_bytes n v)"
    using le_bytes_of_le_bytes [of "rev (le_bytes n v)", where 'a = 'a] assms by simp
  then show ?thesis
    using assms by (simp add: bswap_def of_le_bytes_le_bytes take_bit_word_beyond_length_eq)
qed

section \<open>Length-prefixed slices\<close>

lemma append_buf_ok: "length bs \<le> cap \<Longrightarrow> append_buf cap dst bs = Inr (dst @ bs)"
  by (simp add: append_buf_def)

lemma PutVarint32_ok [codec_simps]: "PutVarint32 dst v = Inr (dst @ EncodeVarint32 v)"
  by (simp add: PutVarint32_def append_buf_ok length_EncodeVarint32_le_5)

lemma PutLengthPrefixedSlice_ok:
  assumes "slice_wf value"
  shows "PutLengthPrefixedSlice dst value
    = Inr (dst @ EncodeVarint32 (of_nat (sl_size value)) @ slice_bytes value)"
  using assms by (simp add: PutLengthPrefixedSlice_def codec_simps slice_simps)

lemma GetLengthPrefixedSlice_encoded:
  assumes wf: "slice_wf s" and bytes: "slice_bytes s = EncodeVarint32 (of_nat (length bs)) @ bs @ rest"
    and small: "length bs < 2 ^ 32"
  shows "\<exists>s' r. GetLengthPrefixedSlice s = Inr (True, s', Some r) \<and> slice_wf s' \<and> slice_wf r \<and>
    slice_bytes r = bs \<and> slice_bytes s' = rest"
proof -
  from GetVarint32_encoded [OF wf bytes] obtain s1 where
    s1: "GetVarint32 s = Inr (Some (s1, of_nat (length bs)))" "slice_wf s1"
      "slice_bytes s1 = bs @ rest" by blast
  have len: "unat (of_nat (length bs) :: u32) = length bs"
    using small by (simp add: unat_of_nat take_bit_nat_eq_self_iff)
  have sz: "length bs \<le> sl_size s1" using s1(2,3) by (metis length_append length_slice_bytes le_add1)
  let ?s2 = "s1\<lparr>sl_data := sl_data s1 + length bs, sl_size := sl_size s1 - length bs\<rparr>"
  let ?r = "Slice_ptr (sl_base s1) (sl_data s1) (length bs)"
  have "GetLengthPrefixedSlice s = Inr (True, ?s2, Some ?r)"
    using s1(1) len sz by (simp add: GetLengthPrefixedSlice_def remove_prefix_ok)
  moreover have "slice_bytes ?r = bs"
    using take_drop_slice [OF sz] s1(3) by simp
  ultimately show ?thesis
    using slice_advance [OF s1(2) sz] s1 sz by (auto simp: slice_wf_def Slice_ptr_def)
qed

section \<open>Splitting at a delimiter\<close>

lemma slice_nth: "slice_wf s \<Longrightarrow> n < sl_size s \<Longrightarrow> slice_bytes s ! n = sl_base s ! (sl_data s + n)"
  by (simp add: slice_wf_def slice_bytes_def)

lemma unat_u32_Suc: "k + 1 < 2 ^ 32 \<Longrightarrow> unat len = k \<Longrightarrow> unat (len + 1 :: u32) = Suc k"
  by (simp add: unat_word_ariths)

lemma until_loop_ok:
  assumes "slice_wf s" "n = length (takeWhile (\<lambda>c. c \<noteq> d) (slice_bytes s))" "n < 2 ^ 32" "unat len \<le> n"
  shows "until_loop s d len = Some (Inr (of_nat n))"
  using assms(4)
proof (induction "n - unat len" arbitrary: len)
  case 0
  then have len: "unat len = n" by simp
  then have "len = of_nat n" by (metis of_nat_unat ucast_id)
  moreover have "n < sl_size s \<Longrightarrow> sl_base s ! (sl_data s + n) = d"
    using assms(1,2) nth_length_takeWhile [of "\<lambda>c. c \<noteq> d" "slice_bytes s"] by (simp add: slice_nth)
  ultimately show ?case
    using len assms(1) by (subst until_loop.simps) (auto simp: slice_wf_def)
next
  case (Suc k)
  then have less: "unat len < n" by simp
  then have u: "unat (len + 1) = Suc (unat len)" using assms(3) by (intro unat_u32_Suc) simp_all
  have "n \<le> sl_size s" using assms(1,2) length_takeWhile_le [of "\<lambda>c. c \<noteq> d" "slice_bytes s"] by simp
  moreover from this less have "sl_base s ! (sl_data s + unat len) \<noteq> d"
    using assms(1,2) takeWhile_nth [of "unat len" "\<lambda>c. c \<noteq> d" "slice_bytes s"]
      nth_mem [of "unat len" "takeWhile (\<lambda>c. c \<noteq> d) (slice_bytes s)"] set_takeWhileD
    by (metis (mono_tags, lifting) order_less_le_trans slice_nth)
  moreover have "until_loop s d (len + 1) = Some (Inr (of_nat n))" using Suc u by (intro Suc(1)) simp_all
  ultimately show ?case using less assms(1) by (subst until_loop.simps) (auto simp: slice_wf_def)
qed

lemma until_loop_returns:
  assumes "until_loop s d len = Some r" "slice_wf s"
  shows "length (takeWhile (\<lambda>c. c \<noteq> d) (slice_bytes s)) < 2 ^ 32"
proof (rule ccontr)
  assume "\<not> ?thesis"
  then have n: "2 ^ 32 \<le> length (takeWhile (\<lambda>c. c \<noteq> d) (slice_bytes s))" by simp
  have all: "unat (i :: u32) < sl_size s \<and> sl_data s + unat i < length (sl_base s) \<and> sl_base s ! (sl_data s + unat i) \<noteq> d" for i
  proof -
    have i: "unat i < length (takeWhile (\<lambda>c. c \<noteq> d) (slice_bytes s))"
      using n unsigned_less [of i, where ?'a = nat] by simp
    moreover have "slice_bytes s ! unat i \<noteq> d" using i takeWhile_nth [OF i] nth_mem [OF i] set_takeWhileD by metis
    ultimately show ?thesis using assms(2) length_takeWhile_le [of "\<lambda>c. c \<noteq> d" "slice_bytes s"]
      by (auto simp: slice_nth slice_wf_def dest!: order_less_le_trans)
  qed
  from assms(1) have "s = s \<longrightarrow> d = d \<longrightarrow> False"
    by (rule until_loop.raw_induct [where P = "\<lambda>s' d' _ _. s' = s \<longrightarrow> d' = d \<longrightarrow> False", rotated])
      (use all in \<open>auto split: if_splits\<close>)
  then show False by simp
qed

section \<open>Unaligned accesses\<close>

text \<open>A word that was stored at any offset inside the object is loaded again, and the rest of the object is untouched.\<close>

lemma unaligned_roundtrip:
  fixes v :: "'a::len word"
  assumes "LENGTH('a) = 8 * n" "p + n \<le> length m"
  shows "\<exists>m'. PutUnaligned le n m p v = Inr m' \<and> GetUnaligned le n m' p = Inr v \<and> length m' = length m \<and>
    take p m' = take p m \<and> drop (p + n) m' = drop (p + n) m"
proof -
  have len: "length (obj_bytes le n v) = n" by (simp add: obj_bytes_def)
  let ?m = "take p m @ obj_bytes le n v @ drop (p + n) m"
  have "PutUnaligned le n m p v = Inr ?m" using assms(2) by (simp add: PutUnaligned_def write_bytes_ok len)
  moreover have "of_obj_bytes le (obj_bytes le n v) = v"
    by (simp add: of_obj_bytes_def obj_bytes_def of_le_bytes_le_bytes flip: assms(1))
  then have "GetUnaligned le n ?m p = Inr v" using assms(2) len by (simp add: GetUnaligned_def)
  moreover have "length ?m = length m" "take p ?m = take p m" "drop (p + n) ?m = drop (p + n) m" using assms(2) len by simp_all
  ultimately show ?thesis by blast
qed

section \<open>Properties\<close>

text \<open>
  \<open>GetSliceUntil\<close> on a valid slice returns the bytes before the first delimiter (all of them
  when there is none) and leaves the slice behind the delimiter, as long as those bytes can be counted in 32 bits;
  otherwise it does not return.
\<close>

theorem get_slice_until:
  fixes s d defines "n \<equiv> length (takeWhile (\<lambda>c. c \<noteq> d) (slice_bytes s))"
  assumes "slice_wf s"
  shows "n < 2 ^ 32 - 1 \<Longrightarrow> \<exists>r s'. GetSliceUntil s d = Some (Inr (r, s')) \<and> slice_wf r \<and> slice_wf s' \<and>
      slice_bytes r = takeWhile (\<lambda>c. c \<noteq> d) (slice_bytes s) \<and>
      slice_bytes s' = tl (dropWhile (\<lambda>c. c \<noteq> d) (slice_bytes s))"
    and "2 ^ 32 \<le> n \<Longrightarrow> GetSliceUntil s d = None"
proof -
  let ?k = "n + (if n < sl_size s then 1 else 0)"
  have n: "n \<le> sl_size s" using length_takeWhile_le [of "\<lambda>c. c \<noteq> d" "slice_bytes s"] assms(2) by (simp add: n_def)
  then have k: "?k \<le> sl_size s" by simp
  show "2 ^ 32 \<le> n \<Longrightarrow> GetSliceUntil s d = None"
    using until_loop_returns [of s d 0] assms(2) by (cases "until_loop s d 0") (auto simp: GetSliceUntil_def n_def)
  assume small: "n < 2 ^ 32 - 1"
  then have u: "until_loop s d 0 = Some (Inr (of_nat n))" using until_loop_ok [OF assms(2) n_def [THEN meta_eq_to_obj_eq], of 0] by simp
  have un: "unat (of_nat n :: u32) = n" "unat (of_nat n + (if n < sl_size s then 1 else 0) :: u32) = ?k"
    using small unat_u32_Suc [of n "of_nat n"] by (simp_all add: unat_of_nat take_bit_nat_eq_self_iff)
  have "drop ?k (slice_bytes s) = tl (dropWhile (\<lambda>c. c \<noteq> d) (slice_bytes s))"
    using assms(2) n unfolding n_def by (simp add: dropWhile_eq_drop tl_drop drop_Suc [symmetric] del: takeWhile_eq_all_conv)
  moreover have "slice_bytes (Slice_ptr (sl_base s) (sl_data s) n) = takeWhile (\<lambda>c. c \<noteq> d) (slice_bytes s)"
    using take_drop_slice [OF n] takeWhile_eq_take [of "\<lambda>c. c \<noteq> d" "slice_bytes s"] by (simp add: n_def)
  moreover have "slice_wf (Slice_ptr (sl_base s) (sl_data s) n)"
    using assms(2) n by (simp add: slice_wf_def Slice_ptr_def)
  ultimately show "\<exists>r s'. GetSliceUntil s d = Some (Inr (r, s')) \<and> slice_wf r \<and> slice_wf s' \<and>
      slice_bytes r = takeWhile (\<lambda>c. c \<noteq> d) (slice_bytes s) \<and>
      slice_bytes s' = tl (dropWhile (\<lambda>c. c \<noteq> d) (slice_bytes s))"
    using slice_advance [OF assms(2) k] u k by (simp add: GetSliceUntil_def remove_prefix_ok un)
qed

theorem get_slice_until_witness:
  "\<exists>r s'. GetSliceUntil (Slice_string [1, 2, 58, 3]) 58 = Some (Inr (r, s')) \<and> slice_bytes r = [1, 2] \<and>
    slice_bytes s' = [3]"
  using get_slice_until(1) [of "Slice_string [1, 2, 58, 3]" 58] by auto

text \<open>
  C33: the fixed-width encodings are independent of the byte order of the machine. What
  \<open>PutFixed16/32/64\<close> append on a machine of either byte order, \<open>GetFixed16/32/64\<close> on a machine of
  either byte order read back from the front of any valid slice, leaving the slice at the rest.
\<close>

theorem fixed_width_roundtrip:
  assumes "slice_wf s2" "slice_bytes s2 = PutFixed16 le [] v2 @ r2"
    and "slice_wf s4" "slice_bytes s4 = PutFixed32 le [] v4 @ r4"
    and "slice_wf s8" "slice_bytes s8 = PutFixed64 le [] v8 @ r8"
  shows "(\<exists>t. GetFixed16 le' s2 = Inr (Some (t, v2)) \<and> slice_wf t \<and> slice_bytes t = r2) \<and>
    (\<exists>t. GetFixed32 le' s4 = Inr (Some (t, v4)) \<and> slice_wf t \<and> slice_bytes t = r4) \<and>
    (\<exists>t. GetFixed64 le' s8 = Inr (Some (t, v8)) \<and> slice_wf t \<and> slice_bytes t = r8)"
proof -
  have sz: "2 \<le> sl_size s2" "4 \<le> sl_size s4" "8 \<le> sl_size s8"
    using assms by (metis length_append length_slice_bytes length_le_bytes codec_simps append_Nil
        le_add1)+
  have "\<exists>t. GetFixed16 le' s2 = Inr (Some (t, v2)) \<and> slice_wf t \<and> slice_bytes t = r2"
    using slice_advance [OF assms(1) sz(1)] assms(1,2)
    by (auto simp: GetFixed16_bytes codec_simps)
  moreover have "\<exists>t. GetFixed32 le' s4 = Inr (Some (t, v4)) \<and> slice_wf t \<and> slice_bytes t = r4"
    using slice_advance [OF assms(3) sz(2)] assms(3,4)
    by (auto simp: GetFixed32_bytes codec_simps)
  moreover have "\<exists>t. GetFixed64 le' s8 = Inr (Some (t, v8)) \<and> slice_wf t \<and> slice_bytes t = r8"
    using slice_advance [OF assms(5) sz(3)] assms(5,6)
    by (auto simp: GetFixed64_bytes codec_simps)
  ultimately show ?thesis by blast
qed

theorem fixed_width_roundtrip_witness:
  "\<exists>t. GetFixed32 False (Slice_string (PutFixed32 True [] 305419896 @ [7])) = Inr (Some (t, 305419896))
    \<and> slice_bytes t = [7]"
  using fixed_width_roundtrip [of "Slice_string (PutFixed16 True [] 1)" True 1 "[]"
      "Slice_string (PutFixed32 True [] 305419896 @ [7])" 305419896 "[7]"
      "Slice_string (PutFixed64 True [] 2)" 2 "[]" False]
  by simp blast

text \<open>
  C32: varints round-trip. From any valid slice that starts with the bytes of \<open>EncodeVarint32\<close>,
  \<open>EncodeVarint64\<close> or the zigzag encoding of a signed value, the matching decoder returns exactly
  that value and leaves the slice at the rest.
\<close>

theorem varint_roundtrip:
  assumes "slice_wf s4" "slice_bytes s4 = EncodeVarint32 v4 @ r4"
    and "slice_wf s8" "slice_bytes s8 = EncodeVarint64 v8 @ r8"
    and "slice_wf si" "slice_bytes si = EncodeVarint64 (i64ToZigzag i) @ ri"
  shows "(\<exists>t. GetVarint32 s4 = Inr (Some (t, v4)) \<and> slice_wf t \<and> slice_bytes t = r4) \<and>
    (\<exists>t. GetVarint64 s8 = Inr (Some (t, v8)) \<and> slice_wf t \<and> slice_bytes t = r8) \<and>
    (\<exists>t. GetVarsignedint64 si = Inr (True, t, i) \<and> slice_wf t \<and> slice_bytes t = ri)"
proof -
  from GetVarint64_encoded [OF assms(5,6)] obtain t where
    t: "GetVarint64 si = Inr (Some (t, i64ToZigzag i))" "slice_wf t" "slice_bytes t = ri" by blast
  then have "GetVarsignedint64 si = Inr (True, t, i)"
    by (auto simp: GetVarint64_def GetVarsignedint64_def GetVarsignedint64Ptr_def Let_def
        res_bind_eq_Inr zigzagToI64_i64ToZigzag)
  with t GetVarint32_encoded [OF assms(1,2)] GetVarint64_encoded [OF assms(3,4)] show ?thesis by blast
qed

theorem varint_roundtrip_witness:
  "\<exists>t. GetVarint32 (Slice_string (EncodeVarint32 300 @ [9])) = Inr (Some (t, 300)) \<and> slice_bytes t = [9]"
  using varint_roundtrip [of "Slice_string (EncodeVarint32 300 @ [9])" 300 "[9]"
      "Slice_string (EncodeVarint64 1)" 1 "[]" "Slice_string (EncodeVarint64 (i64ToZigzag 2))" 2 "[]"]
  by simp blast

text \<open>
  no \<open>Put\<close> routine overruns its local buffer. Each of the eight varint writers returns
  normally for all values and appends exactly the concatenated encodings.
\<close>

theorem put_varint_no_overrun:
  "PutVarint32 dst a = Inr (dst @ EncodeVarint32 a) \<and>
   PutVarint32Varint32 dst a b = Inr (dst @ EncodeVarint32 a @ EncodeVarint32 b) \<and>
   PutVarint32Varint32Varint32 dst a b c
     = Inr (dst @ EncodeVarint32 a @ EncodeVarint32 b @ EncodeVarint32 c) \<and>
   PutVarint64 dst x = Inr (dst @ EncodeVarint64 x) \<and>
   PutVarsignedint64 dst x = Inr (dst @ EncodeVarint64 (i64ToZigzag x)) \<and>
   PutVarint64Varint64 dst x y = Inr (dst @ EncodeVarint64 x @ EncodeVarint64 y) \<and>
   PutVarint32Varint64 dst a y = Inr (dst @ EncodeVarint32 a @ EncodeVarint64 y) \<and>
   PutVarint32Varint32Varint64 dst a b y
     = Inr (dst @ EncodeVarint32 a @ EncodeVarint32 b @ EncodeVarint64 y)"
  using length_EncodeVarint32_le_5 [of a] length_EncodeVarint32_le_5 [of b]
    length_EncodeVarint32_le_5 [of c] length_EncodeVarint64_le_10 [of x]
    length_EncodeVarint64_le_10 [of y] length_EncodeVarint64_le_10 [of "i64ToZigzag x"]
  by (simp add: PutVarint32_def PutVarint32Varint32_def PutVarint32Varint32Varint32_def
      PutVarint64_def PutVarsignedint64_def PutVarint64Varint64_def PutVarint32Varint64_def
      PutVarint32Varint32Varint64_def append_buf_ok kMaxVarint64Length_def)

text \<open>
  C34: the varint decoders never look outside their input. On any valid slice, whatever its bytes,
  they return without fault; when they succeed they have consumed at least one and at most five
  (ten) bytes and the new slice is the rest of the old one.
\<close>

theorem varint_decoders_in_bounds:
  assumes "slice_wf s"
  shows "(\<exists>r. GetVarint32 s = Inr r \<and> (\<forall>t v. r = Some (t, v) \<longrightarrow> slice_wf t \<and>
      (\<exists>k. 1 \<le> k \<and> k \<le> 5 \<and> k \<le> length (slice_bytes s) \<and> slice_bytes t = drop k (slice_bytes s)))) \<and>
    (\<exists>r. GetVarint64 s = Inr r \<and> (\<forall>t v. r = Some (t, v) \<longrightarrow> slice_wf t \<and>
      (\<exists>k. 1 \<le> k \<and> k \<le> 10 \<and> k \<le> length (slice_bytes s) \<and> slice_bytes t = drop k (slice_bytes s))))"
proof -
  let ?m = "sl_base s" and ?p = "sl_data s" and ?l = "sl_data s + sl_size s"
  have l: "?l \<le> length ?m" using assms by (simp add: slice_wf_def)
  have adv: "slice_wf (Slice_ptr ?m q (?l - q)) \<and> (\<exists>k. 1 \<le> k \<and> k \<le> n \<and> k \<le> length (slice_bytes s) \<and>
      slice_bytes (Slice_ptr ?m q (?l - q)) = drop k (slice_bytes s))"
    if "?p < q" "q \<le> ?l" "q - ?p \<le> n" for q n
    using slice_ptr_advance [OF assms, of q] that assms
    by (intro conjI exI [of _ "q - ?p"]) simp_all
  from varint_loop_in_bounds [OF l, of 28 ?p 0 "0 :: u32"] obtain r4 where
    r4: "GetVarint32Ptr ?m ?p ?l = Inr r4"
      "\<forall>q v. r4 = Some (q, v) \<longrightarrow> ?p < q \<and> q \<le> ?l \<and> q - ?p \<le> 5"
    using l by (auto simp: GetVarint32Ptr_fast GetVarint32PtrFallback_def)
  from varint_loop_in_bounds [OF l, of 63 ?p 0 "0 :: u64"] obtain r8 where
    r8: "GetVarint64Ptr ?m ?p ?l = Inr r8"
      "\<forall>q v. r8 = Some (q, v) \<longrightarrow> ?p < q \<and> q \<le> ?l \<and> q - ?p \<le> 10"
    by (auto simp: GetVarint64Ptr_def)
  have "GetVarint32 s = Inr (map_option (\<lambda>(q, v). (Slice_ptr ?m q (?l - q), v)) r4)"
    "GetVarint64 s = Inr (map_option (\<lambda>(q, v). (Slice_ptr ?m q (?l - q), v)) r8)"
    using r4(1) r8(1) by (simp_all add: GetVarint32_def GetVarint64_def Let_def)
  moreover have "\<forall>t v. map_option (\<lambda>(q, v). (Slice_ptr ?m q (?l - q), v)) r4 = Some (t, v) \<longrightarrow>
      slice_wf t \<and> (\<exists>k. 1 \<le> k \<and> k \<le> 5 \<and> k \<le> length (slice_bytes s) \<and> slice_bytes t = drop k (slice_bytes s))"
    using r4(2) adv by (cases r4) auto
  moreover have "\<forall>t v. map_option (\<lambda>(q, v). (Slice_ptr ?m q (?l - q), v)) r8 = Some (t, v) \<longrightarrow>
      slice_wf t \<and> (\<exists>k. 1 \<le> k \<and> k \<le> 10 \<and> k \<le> length (slice_bytes s) \<and> slice_bytes t = drop k (slice_bytes s))"
    using r8(2) adv by (cases r8) auto
  ultimately show ?thesis by blast
qed

theorem varint_decoders_in_bounds_witness:
  "\<exists>r. GetVarint32 (Slice_string [255, 255, 255]) = Inr r"
  using varint_decoders_in_bounds [of "Slice_string [255, 255, 255]"] by (simp; blast)

text \<open>
  the unrolled \<open>EncodeVarint32\<close> is the general encoder on the zero-extended value, and
  \<open>VarintLength\<close> is the number of bytes the encoder writes, between 1 and 10.
\<close>

theorem varint_encoders_agree:
  "EncodeVarint32 v = EncodeVarint64 (ucast v) \<and>
   VarintLength w = length (EncodeVarint64 w) \<and> 1 \<le> VarintLength w \<and> VarintLength w \<le> 10"
  using length_EncodeVarint64_le_10 [of w] length_EncodeVarint64_pos [of w]
  by (cases "EncodeVarint64 w")
    (simp_all add: EncodeVarint32_eq_EncodeVarint64 VarintLength_def VarintLength_loop_eq)

text \<open>
  a length-prefixed slice shorter than 4 GiB round-trips: reading what
  \<open>PutLengthPrefixedSlice\<close> appended gives a slice with the same bytes and leaves the input at
  what follows.
\<close>

theorem length_prefixed_roundtrip:
  assumes "slice_wf value" and "length (slice_bytes value) < 2 ^ 32"
    and "PutLengthPrefixedSlice [] value = Inr enc" and "slice_wf s" and "slice_bytes s = enc @ rest"
  shows "\<exists>s' r. GetLengthPrefixedSlice s = Inr (True, s', Some r) \<and> slice_wf s' \<and> slice_wf r \<and>
    slice_bytes r = slice_bytes value \<and> slice_bytes s' = rest"
proof -
  have "slice_bytes s = EncodeVarint32 (of_nat (length (slice_bytes value))) @ slice_bytes value @ rest"
    using assms(1,3,5) by (simp add: PutLengthPrefixedSlice_ok)
  from GetLengthPrefixedSlice_encoded [OF assms(4) this assms(2)] show ?thesis .
qed

theorem length_prefixed_roundtrip_witness:
  "\<exists>s' r. GetLengthPrefixedSlice (Slice_string ([2] @ [65, 66] @ [1])) = Inr (True, s', Some r) \<and>
     slice_bytes r = [65, 66] \<and> slice_bytes s' = [1]"
proof -
  have "PutLengthPrefixedSlice [] (Slice_string [65, 66]) = Inr [2, 65, 66]" by code_simp
  from length_prefixed_roundtrip [OF _ _ this, of "Slice_string [2, 65, 66, 1]" "[1]"]
  show ?thesis by simp blast
qed

text \<open>
  \<open>EndianSwapValue\<close> is an involution on 16-, 32- and 64-bit integers, and the portable loop
  computes the same value as the byte-swap intrinsics.
\<close>

theorem endian_swap_involution:
  "EndianSwapValue 2 (EndianSwapValue 2 a) = (a :: u16) \<and>
   EndianSwapValue 4 (EndianSwapValue 4 b) = (b :: u32) \<and>
   EndianSwapValue 8 (EndianSwapValue 8 c) = (c :: u64) \<and>
   EndianSwapValue 2 a = EndianSwap_loop 2 2 a \<and>
   EndianSwapValue 4 b = EndianSwap_loop 4 4 b \<and>
   EndianSwapValue 8 c = EndianSwap_loop 8 8 c"
  by (simp add: EndianSwapValue_def bswap_bswap EndianSwap_loop_eq_bswap
      del: EndianSwap_loop.simps)

end
