(* ===== verification/Comparators.thy ===== *)
theory Comparators
  imports Slices
begin

text \<open>
  \<open>include/comparator.h\<close>, \<open>user_comparator_wrapper.h\<close> and \<open>utils/kv_map.h\<close>: the \<open>Comparator\<close>
  interface, the wrapper that forwards to a user comparator, and the ordering that \<open>KVMap\<close> uses.

  A \<open>Comparator\<close> object is the record of its virtual methods and its own address. From here
  upwards a \<open>Slice\<close> argument that is only read is the byte string it denotes (theory \<open>Slices\<close>
  refines the pointer level to it). \<open>BytewiseComparator\<close> and \<open>ReverseBytewiseComparator\<close> are
  declared but not defined in the repository, so every user of a comparator takes it as an
  argument, with the laws the header documents as the locales \<open>three_way\<close> and \<open>user_comparator\<close>.
\<close>

section \<open>The interface\<close>

record Comparator =
  cmp_addr :: nat \<comment> \<open>\<open>this\<close>\<close>
  cmp_timestamp_size :: nat
  cmp_Compare :: "byte list \<Rightarrow> byte list \<Rightarrow> int"
  cmp_Equal :: "byte list \<Rightarrow> byte list \<Rightarrow> bool"
  cmp_Name :: "byte list"
  cmp_FindShortestSeparator :: "byte list \<Rightarrow> byte list \<Rightarrow> byte list" \<comment> \<open>new \<open>*start\<close>\<close>
  cmp_FindShortSuccessor :: "byte list \<Rightarrow> byte list" \<comment> \<open>new \<open>*key\<close>\<close>
  cmp_GetRootComparator :: nat
  cmp_IsSameLengthImmediateSuccessor :: "byte list \<Rightarrow> byte list \<Rightarrow> bool"
  cmp_CanKeysWithDifferentByteContentsBeEqual :: bool
  cmp_CompareTimestamp :: "byte list \<Rightarrow> byte list \<Rightarrow> int"
  cmp_CompareWithoutTimestamp :: "byte list \<Rightarrow> bool \<Rightarrow> byte list \<Rightarrow> bool \<Rightarrow> int"

text \<open>
  A class that overrides the pure virtual methods only: everything else is the default that
  \<open>Comparator\<close> defines.
\<close>

definition Comparator_defaults ::
  "nat \<Rightarrow> nat \<Rightarrow> byte list \<Rightarrow> (byte list \<Rightarrow> byte list \<Rightarrow> int) \<Rightarrow>
   (byte list \<Rightarrow> byte list \<Rightarrow> byte list) \<Rightarrow> (byte list \<Rightarrow> byte list) \<Rightarrow> Comparator" where
  "Comparator_defaults this ts_sz name compare separator successor =
     \<lparr>cmp_addr = this,
      cmp_timestamp_size = ts_sz,
      cmp_Compare = compare,
      cmp_Equal = (\<lambda>a b. compare a b = 0),
      cmp_Name = name,
      cmp_FindShortestSeparator = separator,
      cmp_FindShortSuccessor = successor,
      cmp_GetRootComparator = this,
      cmp_IsSameLengthImmediateSuccessor = (\<lambda>s t. False),
      cmp_CanKeysWithDifferentByteContentsBeEqual = True,
      cmp_CompareTimestamp = (\<lambda>ts1 ts2. 0),
      cmp_CompareWithoutTimestamp = (\<lambda>a a_has_ts b b_has_ts. compare a b)\<rparr>"

text \<open>The non-virtual overload with two arguments.\<close>

definition CompareWithoutTimestamp :: "Comparator \<Rightarrow> byte list \<Rightarrow> byte list \<Rightarrow> int" where
  "CompareWithoutTimestamp c a b = cmp_CompareWithoutTimestamp c a True b True"

definition UserComparatorWrapper :: "nat \<Rightarrow> Comparator \<Rightarrow> Comparator" where
  "UserComparatorWrapper this user_cmp =
     \<lparr>cmp_addr = this,
      cmp_timestamp_size = cmp_timestamp_size user_cmp,
      cmp_Compare = (\<lambda>a b. cmp_Compare user_cmp a b),
      cmp_Equal = (\<lambda>a b. cmp_Equal user_cmp a b),
      cmp_Name = cmp_Name user_cmp,
      cmp_FindShortestSeparator = (\<lambda>start limit. cmp_FindShortestSeparator user_cmp start limit),
      cmp_FindShortSuccessor = (\<lambda>key. cmp_FindShortSuccessor user_cmp key),
      cmp_GetRootComparator = cmp_GetRootComparator user_cmp,
      cmp_IsSameLengthImmediateSuccessor = (\<lambda>s t. cmp_IsSameLengthImmediateSuccessor user_cmp s t),
      cmp_CanKeysWithDifferentByteContentsBeEqual = cmp_CanKeysWithDifferentByteContentsBeEqual user_cmp,
      cmp_CompareTimestamp = (\<lambda>ts1 ts2. cmp_CompareTimestamp user_cmp ts1 ts2),
      cmp_CompareWithoutTimestamp =
        (\<lambda>a a_has_ts b b_has_ts. cmp_CompareWithoutTimestamp user_cmp a a_has_ts b b_has_ts)\<rparr>"

definition LessOfComparator :: "Comparator \<Rightarrow> byte list \<Rightarrow> byte list \<Rightarrow> bool" where
  "LessOfComparator c a b \<longleftrightarrow> cmp_Compare c a b < 0"

section \<open>The laws of a three-way comparison\<close>

text \<open>
  "Compare(a, b) < 0 iff a < b" for a total order: the sign is antisymmetric and at-most is
  transitive, on the keys a caller may pass. Keys that compare as 0 need not be identical.
\<close>

locale three_way =
  fixes keys :: "'a set" and compare :: "'a \<Rightarrow> 'a \<Rightarrow> int"
  assumes sign_flip: "a \<in> keys \<Longrightarrow> b \<in> keys \<Longrightarrow> sgn (compare b a) = - sgn (compare a b)"
    and le_trans: "a \<in> keys \<Longrightarrow> b \<in> keys \<Longrightarrow> c \<in> keys \<Longrightarrow>
      compare a b \<le> 0 \<Longrightarrow> compare b c \<le> 0 \<Longrightarrow> compare a c \<le> 0"
begin

lemma flip_le: "a \<in> keys \<Longrightarrow> b \<in> keys \<Longrightarrow> compare b a \<le> 0 \<longleftrightarrow> 0 \<le> compare a b"
  using sign_flip [of a b] by (auto simp: sgn_if split: if_splits)

lemma flip_less: "a \<in> keys \<Longrightarrow> b \<in> keys \<Longrightarrow> compare b a < 0 \<longleftrightarrow> 0 < compare a b"
  using sign_flip [of a b] by (auto simp: sgn_if split: if_splits)

lemma flip_eq: "a \<in> keys \<Longrightarrow> b \<in> keys \<Longrightarrow> compare b a = 0 \<longleftrightarrow> compare a b = 0"
  using sign_flip [of a b] by (auto simp: sgn_if split: if_splits)

lemma refl: "a \<in> keys \<Longrightarrow> compare a a = 0"
  using sign_flip [of a a] by (auto simp: sgn_if split: if_splits)

lemma le_less_trans:
  "a \<in> keys \<Longrightarrow> b \<in> keys \<Longrightarrow> c \<in> keys \<Longrightarrow> compare a b \<le> 0 \<Longrightarrow> compare b c < 0 \<Longrightarrow> compare a c < 0"
  using le_trans [of a b c] le_trans [of c a b] flip_le [of a c] flip_less [of c b] flip_less [of b c]
  by force

lemma less_le_trans:
  "a \<in> keys \<Longrightarrow> b \<in> keys \<Longrightarrow> c \<in> keys \<Longrightarrow> compare a b < 0 \<Longrightarrow> compare b c \<le> 0 \<Longrightarrow> compare a c < 0"
  using le_trans [of a b c] le_trans [of b c a] flip_le [of a c] flip_less [of a b] flip_less [of b a]
  by force

lemma eq_trans:
  "a \<in> keys \<Longrightarrow> b \<in> keys \<Longrightarrow> c \<in> keys \<Longrightarrow> compare a b = 0 \<Longrightarrow> compare b c = 0 \<Longrightarrow> compare a c = 0"
  using le_trans [of a b c] le_trans [of c b a] flip_eq [of b c] flip_eq [of a b] flip_le [of a c]
  by force

text \<open>The ordering \<open>compare < 0\<close> meets the requirements of the standard library's containers.\<close>

lemma strict_weak_order:
  assumes "a \<in> keys" "b \<in> keys" "c \<in> keys"
  shows "\<not> compare a a < 0"
    and "compare a b < 0 \<Longrightarrow> \<not> compare b a < 0"
    and "compare a b < 0 \<Longrightarrow> compare b c < 0 \<Longrightarrow> compare a c < 0"
    and "\<not> compare a b < 0 \<Longrightarrow> \<not> compare b c < 0 \<Longrightarrow> \<not> compare a c < 0"
  using assms refl [of a] flip_less [of a b] less_le_trans [of a b c]
    le_trans [of c b a] flip_le [of a b] flip_le [of b c] flip_le [of a c]
  by auto

end

text \<open>
  What the header asks of \<open>Equal\<close>, \<open>FindShortestSeparator\<close> and \<open>FindShortSuccessor\<close> on top of a
  total order of all byte strings.
\<close>

locale user_comparator = three_way UNIV "cmp_Compare c" for c :: Comparator +
  assumes equal: "cmp_Equal c a b \<longleftrightarrow> cmp_Compare c a b = 0"
    and separator: "cmp_Compare c start limit < 0 \<Longrightarrow>
      cmp_Compare c start (cmp_FindShortestSeparator c start limit) \<le> 0 \<and>
      cmp_Compare c (cmp_FindShortestSeparator c start limit) limit < 0"
    and successor: "cmp_Compare c key (cmp_FindShortSuccessor c key) \<le> 0"

section \<open>Instances\<close>

lemma three_way_bytes_compare: "three_way UNIV bytes_compare"
proof
  fix a b c
  show "sgn (bytes_compare b a) = - sgn (bytes_compare a b)"
    by (simp add: bytes_compare_flip [of b a])
  show "bytes_compare a b \<le> 0 \<Longrightarrow> bytes_compare b c \<le> 0 \<Longrightarrow> bytes_compare a c \<le> 0"
    by (rule bytes_compare_trans)
qed

interpretation lex: three_way UNIV bytes_compare
  by (rule three_way_bytes_compare)

text \<open>
  The comparator by \<open>Slice::compare\<close> that leaves separators unchanged, as the header allows.
\<close>

definition slice_order_comparator :: Comparator where
  "slice_order_comparator =
     Comparator_defaults 0 0 (bytes_of_string ''Slice::compare'') bytes_compare (\<lambda>start limit. start) (\<lambda>key. key)"

interpretation slice_order: user_comparator slice_order_comparator
  using three_way_bytes_compare
  by (simp add: user_comparator_def user_comparator_axioms_def slice_order_comparator_def
      Comparator_defaults_def)

text \<open>Wrapping keeps the contract.\<close>

lemma UserComparatorWrapper_sel [simp]:
  "cmp_Compare (UserComparatorWrapper this c) = cmp_Compare c"
  "cmp_Equal (UserComparatorWrapper this c) = cmp_Equal c"
  "cmp_Name (UserComparatorWrapper this c) = cmp_Name c"
  "cmp_FindShortestSeparator (UserComparatorWrapper this c) = cmp_FindShortestSeparator c"
  "cmp_FindShortSuccessor (UserComparatorWrapper this c) = cmp_FindShortSuccessor c"
  "cmp_GetRootComparator (UserComparatorWrapper this c) = cmp_GetRootComparator c"
  "cmp_timestamp_size (UserComparatorWrapper this c) = cmp_timestamp_size c"
  by (simp_all add: UserComparatorWrapper_def)

lemma user_comparator_wrapper:
  assumes "user_comparator c"
  shows "user_comparator (UserComparatorWrapper this c)"
  using assms by (simp add: user_comparator_def user_comparator_axioms_def)

interpretation wrapped_slice_order: user_comparator "UserComparatorWrapper this slice_order_comparator"
  for this
  by (rule user_comparator_wrapper) (rule slice_order.user_comparator_axioms)

section \<open>Properties\<close>

text \<open>
  \<open>LessOfComparator\<close> over a comparator that keeps the documented laws is a strict weak
  order, which is what the \<open>std::map\<close> of \<open>KVMap\<close> requires of it; wrapping the comparator in
  \<open>UserComparatorWrapper\<close> gives the same order and the same root comparator.
\<close>

theorem less_of_comparator_strict_weak:
  assumes "user_comparator c"
  shows "\<not> LessOfComparator c x x \<and>
    (LessOfComparator c x y \<longrightarrow> \<not> LessOfComparator c y x) \<and>
    (LessOfComparator c x y \<longrightarrow> LessOfComparator c y z \<longrightarrow> LessOfComparator c x z) \<and>
    (\<not> LessOfComparator c x y \<longrightarrow> \<not> LessOfComparator c y z \<longrightarrow> \<not> LessOfComparator c x z) \<and>
    LessOfComparator (UserComparatorWrapper this c) = LessOfComparator c \<and>
    cmp_GetRootComparator (UserComparatorWrapper this c) = cmp_GetRootComparator c"
proof -
  from assms have "three_way UNIV (cmp_Compare c)" by (simp add: user_comparator_def)
  from three_way.strict_weak_order [OF this, of x y z] show ?thesis
    unfolding LessOfComparator_def by (intro conjI) auto
qed

theorem less_of_comparator_strict_weak_witness:
  "LessOfComparator slice_order_comparator [1] [1, 0] \<and> LessOfComparator slice_order_comparator [1, 0] [2]
    \<and> LessOfComparator slice_order_comparator [1] [2]"
proof -
  have "LessOfComparator slice_order_comparator [1] [1, 0]"
    "LessOfComparator slice_order_comparator [1, 0] [2]" by code_simp+
  with less_of_comparator_strict_weak [OF slice_order.user_comparator_axioms, of "[1]" "[1, 0]" "[2]"]
  show ?thesis by blast
qed

end
