(* ===== verification/Transforms.thy ===== *)
theory Transforms
  imports Slices
begin

text \<open>
  \<open>include/slice_transform.h\<close> and the three implementations in \<open>utils/slice.cc\<close>. A
  \<open>SliceTransform\<close> object is the record of its virtual methods; the constructors build it as the
  classes do. The contract the header documents is the locale \<open>prefix_transform\<close> (with
  \<open>ranged_transform\<close> for \<open>InRange\<close>), interpreted for each of the three implementations.
\<close>

section \<open>The interface and its implementations\<close>

record SliceTransform =
  st_Name :: "byte list"
  st_Transform :: "Slice \<Rightarrow> Slice res"
  st_InDomain :: "Slice \<Rightarrow> bool res"
  st_InRange :: "Slice \<Rightarrow> bool res"
  st_FullLengthEnabled :: "nat option" \<comment> \<open>\<open>Some len\<close>: true, with \<open>*len\<close> set\<close>
  st_SameResultWhenAppended :: "Slice \<Rightarrow> bool"

definition Fixed_InDomain :: "nat \<Rightarrow> Slice \<Rightarrow> bool" where
  "Fixed_InDomain prefix_len src \<longleftrightarrow> sl_size src \<ge> prefix_len"

definition NewFixedPrefixTransform :: "nat \<Rightarrow> SliceTransform" where
  "NewFixedPrefixTransform prefix_len =
     \<lparr>st_Name = bytes_of_string ''rocksdb.FixedPrefix.'' @ show_nat prefix_len,
      st_Transform = (\<lambda>src. require (Fixed_InDomain prefix_len src)
        (Inr (Slice_ptr (sl_base src) (sl_data src) prefix_len))),
      st_InDomain = (\<lambda>src. Inr (Fixed_InDomain prefix_len src)),
      st_InRange = (\<lambda>dst. Inr (sl_size dst = prefix_len)),
      st_FullLengthEnabled = Some prefix_len,
      st_SameResultWhenAppended = (\<lambda>prefix. Fixed_InDomain prefix_len prefix)\<rparr>"

definition NewCappedPrefixTransform :: "nat \<Rightarrow> SliceTransform" where
  "NewCappedPrefixTransform cap_len =
     \<lparr>st_Name = bytes_of_string ''rocksdb.CappedPrefix.'' @ show_nat cap_len,
      st_Transform = (\<lambda>src. Inr (Slice_ptr (sl_base src) (sl_data src) (min cap_len (sl_size src)))),
      st_InDomain = (\<lambda>src. Inr True),
      st_InRange = (\<lambda>dst. Inr (sl_size dst \<le> cap_len)),
      st_FullLengthEnabled = Some cap_len,
      st_SameResultWhenAppended = (\<lambda>prefix. sl_size prefix \<ge> cap_len)\<rparr>"

text \<open>\<open>NoopTransform\<close> inherits \<open>FullLengthEnabled\<close>, which returns false.\<close>

definition NewNoopTransform :: SliceTransform where
  "NewNoopTransform =
     \<lparr>st_Name = bytes_of_string ''rocksdb.Noop'',
      st_Transform = (\<lambda>src. Inr src),
      st_InDomain = (\<lambda>src. Inr True),
      st_InRange = (\<lambda>dst. Inr True),
      st_FullLengthEnabled = None,
      st_SameResultWhenAppended = (\<lambda>prefix. False)\<rparr>"

section \<open>The documented contract\<close>

text \<open>
  A key in the domain is mapped to one of its prefixes; where \<open>SameResultWhenAppended(p)\<close> holds,
  \<open>p\<close> and every key that extends \<open>p\<close> are in the domain and have the same image.
\<close>

locale prefix_transform =
  fixes t :: SliceTransform
  assumes in_domain: "slice_wf s \<Longrightarrow> st_InDomain t s = Inr True \<Longrightarrow>
      \<exists>r. st_Transform t s = Inr r \<and> slice_wf r \<and> prefix (slice_bytes r) (slice_bytes s)"
    and same_result: "slice_wf p \<Longrightarrow> slice_wf s \<Longrightarrow> st_SameResultWhenAppended t p \<Longrightarrow>
      prefix (slice_bytes p) (slice_bytes s) \<Longrightarrow>
      \<exists>r r'. st_InDomain t s = Inr True \<and> st_Transform t s = Inr r \<and> st_Transform t p = Inr r' \<and>
        slice_bytes r = slice_bytes r'"
begin

text \<open>
  What a prefix seek relies on: all keys that extend \<open>p\<close> fall under one transformed prefix.
\<close>

lemma same_prefix_bucket:
  assumes "slice_wf p" "slice_wf a" "slice_wf b" "st_SameResultWhenAppended t p"
    and "prefix (slice_bytes p) (slice_bytes a)" "prefix (slice_bytes p) (slice_bytes b)"
    and "st_Transform t a = Inr ra" "st_Transform t b = Inr rb"
  shows "slice_bytes ra = slice_bytes rb"
  using same_result [OF assms(1,2,4,5)] same_result [OF assms(1,3,4,6)] assms(7,8) by auto

end

locale ranged_transform = prefix_transform +
  assumes in_range: "slice_wf s \<Longrightarrow> st_InDomain t s = Inr True \<Longrightarrow>
      st_Transform t s = Inr r \<Longrightarrow> st_InRange t r = Inr True"

lemma take_prefix_same:
  "prefix p s \<Longrightarrow> n \<le> length p \<Longrightarrow> take n s = take n p"
  by (auto simp: prefix_def)

text \<open>The slice of the first \<open>n\<close> bytes of a slice.\<close>

lemma slice_ptr_prefix:
  assumes "slice_wf s" and "n \<le> sl_size s"
  shows "slice_wf (Slice_ptr (sl_base s) (sl_data s) n)"
    and "slice_bytes (Slice_ptr (sl_base s) (sl_data s) n) = take n (slice_bytes s)"
  using assms by (simp_all add: slice_wf_def slice_bytes_def min_absorb1 Slice_ptr_def)

lemma prefix_sl_size_le:
  assumes "slice_wf p" "slice_wf s" "prefix (slice_bytes p) (slice_bytes s)"
  shows "sl_size p \<le> sl_size s"
  using prefix_length_le [OF assms(3)] assms(1,2) by simp

interpretation fixed_prefix: ranged_transform "NewFixedPrefixTransform n" for n
proof unfold_locales
  fix s assume wf: "slice_wf s" and dom: "st_InDomain (NewFixedPrefixTransform n) s = Inr True"
  then have "n \<le> sl_size s" by (simp add: NewFixedPrefixTransform_def Fixed_InDomain_def)
  with slice_ptr_prefix [OF wf this]
  show "\<exists>r. st_Transform (NewFixedPrefixTransform n) s = Inr r \<and> slice_wf r \<and>
      prefix (slice_bytes r) (slice_bytes s)"
    by (simp add: NewFixedPrefixTransform_def Fixed_InDomain_def take_is_prefix
        del: slice_bytes_constructors)
next
  fix p s
  assume wf: "slice_wf p" "slice_wf s"
    and same: "st_SameResultWhenAppended (NewFixedPrefixTransform n) p"
    and pre: "prefix (slice_bytes p) (slice_bytes s)"
  from same have p: "n \<le> sl_size p" by (simp add: NewFixedPrefixTransform_def Fixed_InDomain_def)
  with prefix_sl_size_le [OF wf pre] have s: "n \<le> sl_size s" by simp
  show "\<exists>r r'. st_InDomain (NewFixedPrefixTransform n) s = Inr True \<and>
      st_Transform (NewFixedPrefixTransform n) s = Inr r \<and>
      st_Transform (NewFixedPrefixTransform n) p = Inr r' \<and> slice_bytes r = slice_bytes r'"
    using slice_ptr_prefix [OF wf(1) p] slice_ptr_prefix [OF wf(2) s] take_prefix_same [OF pre, of n]
      p s wf
    by (simp add: NewFixedPrefixTransform_def Fixed_InDomain_def del: slice_bytes_constructors)
next
  fix s r
  assume "st_Transform (NewFixedPrefixTransform n) s = Inr r"
  then show "st_InRange (NewFixedPrefixTransform n) r = Inr True"
    by (auto simp: NewFixedPrefixTransform_def require_eq_Inr Slice_ptr_def)
qed

interpretation capped_prefix: ranged_transform "NewCappedPrefixTransform n" for n
proof unfold_locales
  fix s assume wf: "slice_wf s"
  from slice_ptr_prefix [OF wf, of "min n (sl_size s)"]
  show "\<exists>r. st_Transform (NewCappedPrefixTransform n) s = Inr r \<and> slice_wf r \<and>
      prefix (slice_bytes r) (slice_bytes s)"
    by (simp add: NewCappedPrefixTransform_def take_is_prefix del: slice_bytes_constructors)
next
  fix p s
  assume wf: "slice_wf p" "slice_wf s"
    and same: "st_SameResultWhenAppended (NewCappedPrefixTransform n) p"
    and pre: "prefix (slice_bytes p) (slice_bytes s)"
  from same have p: "n \<le> sl_size p" by (simp add: NewCappedPrefixTransform_def)
  with prefix_sl_size_le [OF wf pre] have s: "n \<le> sl_size s" by simp
  show "\<exists>r r'. st_InDomain (NewCappedPrefixTransform n) s = Inr True \<and>
      st_Transform (NewCappedPrefixTransform n) s = Inr r \<and>
      st_Transform (NewCappedPrefixTransform n) p = Inr r' \<and> slice_bytes r = slice_bytes r'"
    using slice_ptr_prefix [OF wf(1) p] slice_ptr_prefix [OF wf(2) s] take_prefix_same [OF pre, of n]
      p s wf
    by (simp add: NewCappedPrefixTransform_def min_absorb1 del: slice_bytes_constructors)
next
  fix s r
  assume "st_Transform (NewCappedPrefixTransform n) s = Inr r"
  then show "st_InRange (NewCappedPrefixTransform n) r = Inr True"
    by (auto simp: NewCappedPrefixTransform_def Slice_ptr_def)
qed

interpretation noop_prefix: ranged_transform NewNoopTransform
  by unfold_locales (simp_all add: NewNoopTransform_def)

section \<open>Properties\<close>

text \<open>
  the contract of \<open>SameResultWhenAppended\<close>, for all three extractors: where it holds for
  \<open>p\<close>, every two keys that extend \<open>p\<close> have the same transformed prefix, so that seeking by the prefix
  of \<open>p\<close> misses none of them.
\<close>

theorem same_result_when_appended:
  assumes "t = NewFixedPrefixTransform n \<or> t = NewCappedPrefixTransform n \<or> t = NewNoopTransform"
    and "slice_wf p" "slice_wf a" "slice_wf b" "st_SameResultWhenAppended t p"
    and "prefix (slice_bytes p) (slice_bytes a)" "prefix (slice_bytes p) (slice_bytes b)"
  shows "\<exists>ra rb. st_Transform t a = Inr ra \<and> st_Transform t b = Inr rb \<and> slice_bytes ra = slice_bytes rb"
proof -
  have t: "prefix_transform t"
    using assms(1) fixed_prefix.prefix_transform_axioms capped_prefix.prefix_transform_axioms
      noop_prefix.prefix_transform_axioms by blast
  from prefix_transform.same_result [OF t assms(2,3,5,6)] prefix_transform.same_result [OF t assms(2,4,5,7)]
  show ?thesis by fastforce
qed

theorem same_result_when_appended_witness:
  "\<exists>ra rb. st_Transform (NewFixedPrefixTransform 1) (Slice_string [1, 2]) = Inr ra \<and>
    st_Transform (NewFixedPrefixTransform 1) (Slice_string [1, 3]) = Inr rb \<and> slice_bytes ra = slice_bytes rb"
proof -
  have "st_SameResultWhenAppended (NewFixedPrefixTransform 1) (Slice_string [1])"
    by (simp add: NewFixedPrefixTransform_def Fixed_InDomain_def Slice_string_def)
  then show ?thesis
    using same_result_when_appended [of "NewFixedPrefixTransform 1" 1 "Slice_string [1]" "Slice_string [1, 2]"
        "Slice_string [1, 3]"] by simp
qed

end
