(* ===== verification/StringUtil.thy ===== *)
theory StringUtil
  imports Slices
begin

text \<open>
  \<open>utils/string_util.h\<close> and \<open>utils/string_util.cc\<close>: splitting, escaping, decimal printing and
  parsing. Strings are byte lists. \<open>snprintf\<close> into a buffer of a given size keeps the text up to
  the size less one; the numeric conversions of the standard library (\<open>std::stoull\<close>,
  \<open>std::stoll\<close>, \<open>std::stoi\<close>) are written out with their exceptions. The routines that print
  through \<open>double\<close> or as calendar times are in \<open>HumanStrings\<close>; \<open>ParseDouble\<close> has \<open>strtod\<close> as an argument.
\<close>

section \<open>What the sources use of the standard library\<close>

datatype std_exception = invalid_argument "byte list" | out_of_range "byte list"

type_synonym 'a exn = "std_exception + 'a"

definition exn_bind :: "'a exn \<Rightarrow> ('a \<Rightarrow> 'b exn) \<Rightarrow> 'b exn" where
  "exn_bind m f = (case m of Inl e \<Rightarrow> Inl e | Inr x \<Rightarrow> f x)"

lemma exn_bind_simps [simp]: "exn_bind (Inl e) f = Inl e" "exn_bind (Inr x) f = f x"
  by (simp_all add: exn_bind_def)

lemma exn_bind_cong [fundef_cong]:
  "m = m' \<Longrightarrow> (\<And>x. m' = Inr x \<Longrightarrow> f x = f' x) \<Longrightarrow> exn_bind m f = exn_bind m' f'"
  by (cases m') simp_all

definition snprintf :: "nat \<Rightarrow> byte list \<Rightarrow> byte list" where
  "snprintf cap text = take (cap - 1) text"

definition c_str :: "byte list \<Rightarrow> byte list" where
  "c_str s = takeWhile (\<lambda>c. c \<noteq> 0) s"

definition isspace :: "byte \<Rightarrow> bool" where
  "isspace c \<longleftrightarrow> unat c = 32 \<or> (9 \<le> unat c \<and> unat c \<le> 13)"

text \<open>
  \<open>strtoull\<close>, \<open>strtoll\<close> and \<open>strtol\<close> in base 10: white space, an optional sign, digits. The result
  is the sign, the magnitude and the number of characters consumed; \<open>None\<close> when there is no digit.
\<close>

definition strto_scan :: "byte list \<Rightarrow> (bool \<times> nat \<times> nat) option" where
  "strto_scan s =
     (let ws = length (takeWhile isspace s);
          r = drop ws s;
          neg = (r \<noteq> [] \<and> hd r = 45);
          sg = (if r \<noteq> [] \<and> (hd r = 45 \<or> hd r = 43) then 1 else 0);
          ds = takeWhile is_dec_digit (drop sg r) in
      if ds = [] then None else Some (neg, dec_value ds, ws + sg + length ds))"

definition stoull :: "byte list \<Rightarrow> (u64 \<times> nat) exn" where
  "stoull s =
     (case strto_scan s of
        None \<Rightarrow> Inl (invalid_argument (bytes_of_string ''stoull''))
      | Some (neg, n, endchar) \<Rightarrow>
          if n \<ge> 2 ^ 64 then Inl (out_of_range (bytes_of_string ''stoull''))
          else Inr (if neg then - of_nat n else of_nat n, endchar))"

definition stoll :: "byte list \<Rightarrow> (u64 \<times> nat) exn" where
  "stoll s =
     (case strto_scan s of
        None \<Rightarrow> Inl (invalid_argument (bytes_of_string ''stoll''))
      | Some (neg, n, endchar) \<Rightarrow>
          (let v = (if neg then - int n else int n) in
           if v < - (2 ^ 63) \<or> v \<ge> 2 ^ 63 then Inl (out_of_range (bytes_of_string ''stoll''))
           else Inr (word_of_int v, endchar)))"

definition stoi :: "byte list \<Rightarrow> (u32 \<times> nat) exn" where
  "stoi s =
     (case strto_scan s of
        None \<Rightarrow> Inl (invalid_argument (bytes_of_string ''stoi''))
      | Some (neg, n, endchar) \<Rightarrow>
          (let v = (if neg then - int n else int n) in
           if v < - (2 ^ 31) \<or> v \<ge> 2 ^ 31 then Inl (out_of_range (bytes_of_string ''stoi''))
           else Inr (word_of_int v, endchar)))"

text \<open>\<open>std::stod\<close> over \<open>strtod\<close>, which gives the number, how many characters it has read, and whether it has set \<open>errno\<close> to \<open>ERANGE\<close>.\<close>

definition stod :: "(byte list \<Rightarrow> 'd \<times> nat \<times> bool) \<Rightarrow> byte list \<Rightarrow> 'd exn" where
  "stod strtod s =
     (let (v, n, erange) = strtod (c_str s) in
      if n = 0 then Inl (invalid_argument (bytes_of_string ''stod''))
      else if erange then Inl (out_of_range (bytes_of_string ''stod''))
      else Inr v)"

section \<open>Splitting\<close>

definition kNullptrString :: "byte list" where
  "kNullptrString = bytes_of_string ''nullptr''"

text \<open>\<open>std::getline\<close> fails when it extracts nothing, so a final delimiter ends the last item.\<close>

function StringSplit_loop :: "byte \<Rightarrow> byte list \<Rightarrow> byte list list \<Rightarrow> byte list list" where
  "StringSplit_loop delim ss splits =
     (if ss = [] then splits
      else let item = takeWhile (\<lambda>c. c \<noteq> delim) ss in
           StringSplit_loop delim (drop (length item + 1) ss) (splits @ [item]))"
  by pat_completeness auto
termination
  by (relation "measure (\<lambda>(delim, ss, splits). length ss)") auto

declare StringSplit_loop.simps [simp del]

definition StringSplit :: "byte list \<Rightarrow> byte \<Rightarrow> byte list list" where
  "StringSplit arg delim = StringSplit_loop delim arg []"

section \<open>Printing\<close>

text \<open>The instances of the template at \<open>int\<close>, \<open>uint32_t\<close>, \<open>int64_t\<close> and \<open>uint64_t\<close>; \<open>is_signed\<close> is the signedness of \<open>T\<close>.\<close>

definition ToString :: "bool \<Rightarrow> 'a::len word \<Rightarrow> byte list" where
  "ToString is_signed v = show_int (if is_signed then sint v else uint v)"

text \<open>The text in \<open>output\<close> and the value returned, the length of the untruncated text.\<close>

definition AppendHumanBytes :: "u64 \<Rightarrow> nat \<Rightarrow> byte list \<times> nat" where
  "AppendHumanBytes bytes len =
     (let text =
        (if bytes \<ge> push_bit 40 10 then show_nat (unat (drop_bit 40 bytes)) @ bytes_of_string ''TB''
         else if bytes \<ge> push_bit 30 10 then show_nat (unat (drop_bit 30 bytes)) @ bytes_of_string ''GB''
         else if bytes \<ge> push_bit 20 10 then show_nat (unat (drop_bit 20 bytes)) @ bytes_of_string ''MB''
         else if bytes \<ge> push_bit 10 10 then show_nat (unat (drop_bit 10 bytes)) @ bytes_of_string ''KB''
         else show_nat (unat bytes) @ bytes_of_string ''B'') in
      (snprintf len text, length text))"

definition AppendNumberTo :: "byte list \<Rightarrow> u64 \<Rightarrow> byte list" where
  "AppendNumberTo str num = str @ snprintf 30 (show_nat (unat num))"

definition hex_digit_lower :: "nat \<Rightarrow> byte" where
  "hex_digit_lower d = (if d < 10 then 48 + of_nat d else 87 + of_nat d)"

text \<open>The bounds \<open>' '\<close> and \<open>'~'\<close> are ASCII, so the signed comparison of the source is this one.\<close>

fun AppendEscapedStringTo :: "byte list \<Rightarrow> byte list \<Rightarrow> byte list" where
  "AppendEscapedStringTo str [] = str"
| "AppendEscapedStringTo str (c # value) =
     (if 32 \<le> unat c \<and> unat c \<le> 126 then AppendEscapedStringTo (str @ [c]) value
      else AppendEscapedStringTo
        (str @ snprintf 10 [92, 120, hex_digit_lower (unat c div 16), hex_digit_lower (unat c mod 16)])
        value)"

definition NumberToString :: "u64 \<Rightarrow> byte list" where
  "NumberToString num = AppendNumberTo [] num"

definition EscapeString :: "byte list \<Rightarrow> byte list" where
  "EscapeString value = AppendEscapedStringTo [] value"

text \<open>
  \<open>num\<close> is an \<open>int64_t\<close>. \<open>-num\<close> overflows for the smallest value; the model takes the wrapped
  value, which is negative and so selects the first branch. Division truncates towards zero.
\<close>

definition NumberToHumanString :: "u64 \<Rightarrow> byte list" where
  "NumberToHumanString num =
     (let absnum = (if sint num < 0 then - num else num);
          quot = (\<lambda>d. if sint num < 0 then - ((- sint num) div d) else sint num div d) in
      if sint absnum < 10000 then snprintf 19 (show_int (sint num))
      else if sint absnum < 10000000 then snprintf 19 (show_int (quot 1000) @ bytes_of_string ''K'')
      else if sint absnum < 10000000000 then snprintf 19 (show_int (quot 1000000) @ bytes_of_string ''M'')
      else snprintf 19 (show_int (quot 1000000000) @ bytes_of_string ''G''))"

section \<open>Reading a decimal number from a slice\<close>

text \<open>
  The flag, the advanced slice, and the value stored in \<open>*val\<close> (\<open>None\<close>: nothing is stored).
\<close>

fun ConsumeDecimal_loop :: "byte list \<Rightarrow> u64 \<Rightarrow> nat \<Rightarrow> bool \<times> byte list \<times> u64 option" where
  "ConsumeDecimal_loop [] v digits = (digits > 0, [], Some v)"
| "ConsumeDecimal_loop (c # inp) v digits =
     (if is_dec_digit c then
        let delta = unat c - 48 in
        if unat v > (2 ^ 64 - 1) div 10 \<or> (unat v = (2 ^ 64 - 1) div 10 \<and> delta > (2 ^ 64 - 1) mod 10)
        then (False, c # inp, None)
        else ConsumeDecimal_loop inp (v * 10 + of_nat delta) (digits + 1)
      else (digits > 0, c # inp, Some v))"

definition ConsumeDecimalNumber :: "byte list \<Rightarrow> bool \<times> byte list \<times> u64 option" where
  "ConsumeDecimalNumber inp = ConsumeDecimal_loop inp 0 0"

section \<open>Escaping option strings\<close>

definition isSpecialChar :: "byte \<Rightarrow> bool" where
  "isSpecialChar c = (if c = 92 \<or> c = 35 \<or> c = 58 \<or> c = 13 \<or> c = 10 then True else False)"

definition UnescapeChar :: "byte \<Rightarrow> byte" where
  "UnescapeChar c =
     (case find (\<lambda>p. fst p = c) [(114, 13), (110, 10)] of None \<Rightarrow> c | Some p \<Rightarrow> snd p)"

definition EscapeChar :: "byte \<Rightarrow> byte" where
  "EscapeChar c =
     (case find (\<lambda>p. fst p = c) [(10, 110), (13, 114)] of None \<Rightarrow> c | Some p \<Rightarrow> snd p)"

fun EscapeOption_loop :: "byte list \<Rightarrow> byte list \<Rightarrow> byte list" where
  "EscapeOption_loop [] out = out"
| "EscapeOption_loop (c # cs) out =
     (if isSpecialChar c then EscapeOption_loop cs (out @ [92] @ [EscapeChar c])
      else EscapeOption_loop cs (out @ [c]))"

definition EscapeOptionString :: "byte list \<Rightarrow> byte list" where
  "EscapeOptionString raw_string = EscapeOption_loop raw_string []"

fun UnescapeOption_loop :: "byte list \<Rightarrow> bool \<Rightarrow> byte list \<Rightarrow> byte list" where
  "UnescapeOption_loop [] escaped out = out"
| "UnescapeOption_loop (c # cs) escaped out =
     (if escaped then UnescapeOption_loop cs False (out @ [UnescapeChar c])
      else if c = 92 then UnescapeOption_loop cs True out
      else UnescapeOption_loop cs escaped (out @ [c]))"

definition UnescapeOptionString :: "byte list \<Rightarrow> byte list" where
  "UnescapeOptionString escaped_string = UnescapeOption_loop escaped_string False []"

section \<open>Trimming and affixes\<close>

function trim_start :: "byte list \<Rightarrow> nat \<Rightarrow> nat \<Rightarrow> nat" where
  "trim_start str start fin =
     (if isspace (str ! start) \<and> start < fin then trim_start str (start + 1) fin else start)"
  by pat_completeness auto
termination
  by (relation "measure (\<lambda>(str, start, fin). fin - start)") auto

function trim_end :: "byte list \<Rightarrow> nat \<Rightarrow> nat \<Rightarrow> nat" where
  "trim_end str start fin =
     (if isspace (str ! fin) \<and> start < fin then trim_end str start (fin - 1) else fin)"
  by pat_completeness auto
termination
  by (relation "measure (\<lambda>(str, start, fin). fin - start)") auto

declare trim_start.simps [simp del] trim_end.simps [simp del]

definition trim :: "byte list \<Rightarrow> byte list" where
  "trim str =
     (if str = [] then []
      else let start = trim_start str 0 (length str - 1);
               fin = trim_end str start (length str - 1) in
           if start \<le> fin then take (fin - start + 1) (drop start str) else [])"

text \<open>\<open>std::string::compare(pos, len, str)\<close> is 0 when the part, cut at the end, equals \<open>str\<close>.\<close>

definition EndsWith :: "byte list \<Rightarrow> byte list \<Rightarrow> bool" where
  "EndsWith str pattern =
     (if length pattern \<le> length str
      then take (length pattern) (drop (length str - length pattern) str) = pattern
      else False)"

definition StartsWith :: "byte list \<Rightarrow> byte list \<Rightarrow> bool" where
  "StartsWith str pattern \<longleftrightarrow> take (length pattern) str = pattern"

section \<open>Parsing\<close>

definition ParseBoolean :: "byte list \<Rightarrow> byte list \<Rightarrow> bool exn" where
  "ParseBoolean type val =
     (if val = bytes_of_string ''true'' \<or> val = bytes_of_string ''1'' then Inr True
      else if val = bytes_of_string ''false'' \<or> val = bytes_of_string ''0'' then Inr False
      else Inl (invalid_argument type))"

text \<open>The suffix multiplies by a power of 1024, dropping the bits that leave the type.\<close>

definition size_suffix :: "byte list \<Rightarrow> nat \<Rightarrow> 'a::len word \<Rightarrow> 'a word" where
  "size_suffix val endchar num =
     (if endchar < length val then
        let c = val ! endchar in
        if c = 107 \<or> c = 75 then push_bit 10 num
        else if c = 109 \<or> c = 77 then push_bit 20 num
        else if c = 103 \<or> c = 71 then push_bit 30 num
        else if c = 116 \<or> c = 84 then push_bit 40 num
        else num
      else num)"

definition ParseUint64 :: "byte list \<Rightarrow> u64 exn" where
  "ParseUint64 val = exn_bind (stoull (c_str val)) (\<lambda>(num, endchar). Inr (size_suffix val endchar num))"

definition ParseInt64 :: "byte list \<Rightarrow> u64 exn" where
  "ParseInt64 val = exn_bind (stoll (c_str val)) (\<lambda>(num, endchar). Inr (size_suffix val endchar num))"

text \<open>\<open>ParseInt\<close> has no \<open>t\<close> suffix.\<close>

definition ParseInt :: "byte list \<Rightarrow> u32 exn" where
  "ParseInt val = exn_bind (stoi (c_str val)) (\<lambda>(num, endchar).
     Inr (if endchar < length val then
            let c = val ! endchar in
            if c = 107 \<or> c = 75 then push_bit 10 num
            else if c = 109 \<or> c = 77 then push_bit 20 num
            else if c = 103 \<or> c = 71 then push_bit 30 num
            else num
          else num))"

definition ParseUint32 :: "byte list \<Rightarrow> u32 exn" where
  "ParseUint32 val = exn_bind (ParseUint64 val) (\<lambda>num.
     if drop_bit 32 num = 0 then Inr (ucast num) else Inl (out_of_range val))"

definition ParseInt32 :: "byte list \<Rightarrow> u32 exn" where
  "ParseInt32 val = exn_bind (ParseInt64 val) (\<lambda>num.
     if sint num \<le> 2 ^ 31 - 1 \<and> sint num \<ge> - (2 ^ 31) then Inr (ucast num) else Inl (out_of_range val))"

definition ParseDouble :: "(byte list \<Rightarrow> 'd \<times> nat \<times> bool) \<Rightarrow> byte list \<Rightarrow> 'd exn" where
  "ParseDouble strtod val = stod strtod val"

definition ParseSizeT :: "byte list \<Rightarrow> u64 exn" where
  "ParseSizeT val = ParseUint64 val"

text \<open>The loop over the text from \<open>start\<close> on.\<close>

function ParseVectorInt_loop :: "byte list \<Rightarrow> u32 list \<Rightarrow> u32 list exn" where
  "ParseVectorInt_loop val result =
     (if val = [] then Inr result
      else let item = takeWhile (\<lambda>c. c \<noteq> 58) val in
           if length item = length val
           then exn_bind (ParseInt item) (\<lambda>n. Inr (result @ [n]))
           else exn_bind (ParseInt item) (\<lambda>n.
             ParseVectorInt_loop (drop (length item + 1) val) (result @ [n])))"
  by pat_completeness auto
termination
  by (relation "measure (\<lambda>(val, result). length val)") auto

declare ParseVectorInt_loop.simps [simp del]

definition ParseVectorInt :: "byte list \<Rightarrow> u32 list exn" where
  "ParseVectorInt val = ParseVectorInt_loop val []"

fun Serialize_loop :: "nat \<Rightarrow> u32 list \<Rightarrow> byte list \<Rightarrow> byte list" where
  "Serialize_loop i [] val = val"
| "Serialize_loop i (v # vec) val =
     Serialize_loop (i + 1) vec ((if i > 0 then val @ [58] else val) @ show_int (sint v))"

definition SerializeIntVector :: "u32 list \<Rightarrow> bool \<times> byte list" where
  "SerializeIntVector vec = (True, Serialize_loop 0 vec [])"

section \<open>Lemmas\<close>

lemma EscapeOption_loop_append: "EscapeOption_loop cs out = out @ EscapeOption_loop cs []"
proof (induction cs arbitrary: out)
  case (Cons c cs)
  show ?case
    by (simp add: Cons [of "out @ [92, EscapeChar c]"] Cons [of "out @ [c]"] Cons [of "[92, EscapeChar c]"]
        Cons [of "[c]"])
qed simp

lemma UnescapeChar_EscapeChar: "isSpecialChar c \<Longrightarrow> UnescapeChar (EscapeChar c) = c"
  by (auto simp: isSpecialChar_def UnescapeChar_def EscapeChar_def split: if_splits)

lemma Unescape_Escape_loop:
  "UnescapeOption_loop (EscapeOption_loop cs []) False out = out @ cs"
proof (induction cs arbitrary: out)
  case (Cons c cs)
  then show ?case
    by (simp add: EscapeOption_loop_append [of cs "[92, EscapeChar c]"]
        EscapeOption_loop_append [of cs "[c]"] UnescapeChar_EscapeChar)
      (simp add: isSpecialChar_def)
qed simp

lemma dec_value_append_ge: "dec_value ds * 10 ^ length es \<le> dec_value (ds @ es)"
proof (induction es rule: rev_induct)
  case (snoc e es)
  have "dec_value ds * 10 ^ length (es @ [e]) = 10 * (dec_value ds * 10 ^ length es)" by simp
  also have "\<dots> \<le> 10 * dec_value (ds @ es) + (unat e - 48)" using snoc by simp
  also have "\<dots> = dec_value (ds @ es @ [e])" by (simp flip: append_assoc)
  finally show ?case by simp
qed simp

lemma dec_value_append_mono: "dec_value ds \<le> dec_value (ds @ es)"
  using dec_value_append_ge [of ds es] by (metis le_trans mult_le_mono2 nat_mult_1_right one_le_numeral one_le_power)

text \<open>The guard of the loop is exactly that the next value does not fit in 64 bits.\<close>

lemma consume_guard:
  assumes "delta < 10"
  shows "((v::nat) > (2 ^ 64 - 1) div 10 \<or> (v = (2 ^ 64 - 1) div 10 \<and> delta > (2 ^ 64 - 1) mod 10))
    \<longleftrightarrow> 10 * v + delta \<ge> 2 ^ 64"
  using assms by simp arith

lemma ConsumeDecimal_loop_ok:
  assumes "dec_value (ds @ takeWhile is_dec_digit inp) < 2 ^ 64"
  shows "ConsumeDecimal_loop inp (of_nat (dec_value ds)) (length ds) =
    (ds @ takeWhile is_dec_digit inp \<noteq> [], dropWhile is_dec_digit inp,
     Some (of_nat (dec_value (ds @ takeWhile is_dec_digit inp))))"
  using assms
proof (induction inp arbitrary: ds)
  case (Cons c inp)
  show ?case
  proof (cases "is_dec_digit c")
    case True
    let ?d = "unat c - 48"
    have d: "?d < 10" using True by (auto simp: is_dec_digit_def)
    have fits: "10 * dec_value ds + ?d < 2 ^ 64"
      using Cons.prems dec_value_append_mono [of "ds @ [c]" "takeWhile is_dec_digit inp"] True by simp
    then have u: "unat (of_nat (dec_value ds) :: u64) = dec_value ds"
      by (simp add: unat_of_nat take_bit_nat_eq_self_iff)
    have "(of_nat (dec_value ds) * 10 + of_nat ?d :: u64) = of_nat (dec_value (ds @ [c]))"
      by simp
    then show ?thesis
      using Cons.IH [of "ds @ [c]"] Cons.prems True fits u consume_guard [OF d, of "dec_value ds"]
      by (simp add: Let_def del: dec_value_snoc of_nat_add)
  qed (simp add: Let_def)
qed simp

lemma ConsumeDecimal_loop_overflow:
  assumes "dec_value ds < 2 ^ 64" and "\<not> dec_value (ds @ takeWhile is_dec_digit inp) < 2 ^ 64"
  shows "\<exists>inp'. ConsumeDecimal_loop inp (of_nat (dec_value ds)) (length ds) = (False, inp', None)"
  using assms
proof (induction inp arbitrary: ds)
  case (Cons c inp)
  then have c: "is_dec_digit c" by (auto split: if_splits)
  let ?d = "unat c - 48"
  have d: "?d < 10" using c by (auto simp: is_dec_digit_def)
  have u: "unat (of_nat (dec_value ds) :: u64) = dec_value ds"
    using Cons.prems(1) by (simp add: unat_of_nat take_bit_nat_eq_self_iff)
  have step: "(of_nat (dec_value ds) * 10 + of_nat ?d :: u64) = of_nat (dec_value (ds @ [c]))"
    by simp
  show ?case
  proof (cases "10 * dec_value ds + ?d < 2 ^ 64")
    case True
    then show ?thesis
      using Cons.IH [of "ds @ [c]"] Cons.prems c u step consume_guard [OF d, of "dec_value ds"]
      by (simp add: Let_def del: dec_value_snoc of_nat_add) simp
  next
    case False
    then show ?thesis
      using c u consume_guard [OF d, of "dec_value ds"] by (simp add: Let_def)
  qed
qed simp

lemma show_int_chars:
  "c \<in> set (show_int i) \<Longrightarrow> is_dec_digit c \<or> c = 45"
  by (auto simp: show_int_def dest: show_nat_digits split: if_splits)

lemma is_dec_digit_not: "\<not> is_dec_digit 0" "\<not> is_dec_digit 45" "\<not> is_dec_digit 43" "\<not> is_dec_digit 58"
  by (simp_all add: is_dec_digit_def)

lemma show_int_no: "0 \<notin> set (show_int i)" "58 \<notin> set (show_int i)"
  using show_int_chars is_dec_digit_not by fastforce+

lemma takeWhile_digits [simp]: "takeWhile is_dec_digit (show_nat n) = show_nat n"
  by (simp add: takeWhile_eq_all_conv show_nat_digits)

lemma digit_not_space: "is_dec_digit c \<Longrightarrow> \<not> isspace c"
  by (auto simp: is_dec_digit_def isspace_def)

lemma strto_scan_show_int:
  "strto_scan (show_int i) = Some (i < 0, nat \<bar>i\<bar>, length (show_int i))"
proof (cases "i < 0")
  case True
  then show ?thesis
    by (simp add: strto_scan_def show_int_def isspace_def dec_value_show_nat)
next
  case False
  obtain d ds where s: "show_nat (nat i) = d # ds" by (cases "show_nat (nat i)") auto
  then have d: "is_dec_digit d" using show_nat_digits [of d "nat i"] by simp
  then have "d \<noteq> 45" "d \<noteq> 43" using is_dec_digit_not by auto
  with False s d digit_not_space [OF d] show ?thesis
    using show_nat_digits [of _ "nat i"] dec_value_show_nat [of "nat i"]
    by (simp add: strto_scan_def show_int_def takeWhile_eq_all_conv [THEN iffD2])
qed

lemma ParseInt_show_int: "ParseInt (show_int (sint v)) = Inr v"
proof -
  have "c_str (show_int (sint v)) = show_int (sint v)"
    using show_int_no(1) by (auto simp: c_str_def takeWhile_eq_all_conv)
  moreover have "stoi (show_int (sint v)) = Inr (v, length (show_int (sint v)))"
    using sint_greater_eq [of v] sint_lt [of v] by (simp add: stoi_def strto_scan_show_int Let_def)
  ultimately show ?thesis by (simp add: ParseInt_def)
qed

lemma Serialize_loop_Suc:
  "Serialize_loop (Suc i) vec val = val @ concat (map (\<lambda>v. 58 # show_int (sint v)) vec)"
  by (induction vec arbitrary: i val) simp_all

lemma Parse_show_then:
  assumes "58 \<notin> set s" and "s \<noteq> []"
  shows "ParseVectorInt_loop s r = exn_bind (ParseInt s) (\<lambda>n. Inr (r @ [n]))"
    and "ParseVectorInt_loop (s @ 58 # t) r = exn_bind (ParseInt s) (\<lambda>n. ParseVectorInt_loop t (r @ [n]))"
proof -
  have tw: "takeWhile (\<lambda>c. c \<noteq> 58) s = s" using assms(1) by (auto simp: takeWhile_eq_all_conv)
  have tw2: "takeWhile (\<lambda>c. c \<noteq> 58) (s @ 58 # t) = s" using assms(1) by (subst takeWhile_append2) auto
  show "ParseVectorInt_loop s r = exn_bind (ParseInt s) (\<lambda>n. Inr (r @ [n]))"
    using assms(2) by (subst ParseVectorInt_loop.simps) (simp add: tw)
  show "ParseVectorInt_loop (s @ 58 # t) r = exn_bind (ParseInt s) (\<lambda>n. ParseVectorInt_loop t (r @ [n]))"
    by (subst ParseVectorInt_loop.simps) (simp add: tw2)
qed

lemma show_int_nonempty [simp]: "show_int i \<noteq> []"
  by (simp add: show_int_def)

lemma ParseVectorInt_serialized:
  "ParseVectorInt_loop (show_int (sint v) @ concat (map (\<lambda>v. 58 # show_int (sint v)) vec)) r
    = Inr (r @ v # vec)"
proof (induction vec arbitrary: v r)
  case Nil
  then show ?case by (simp add: Parse_show_then(1) show_int_no(2) ParseInt_show_int)
next
  case (Cons w vec)
  then show ?case
    by (simp add: Parse_show_then(2) show_int_no(2) ParseInt_show_int)
qed

lemma StringSplit_loop_item:
  assumes "delim \<notin> set item"
  shows "StringSplit_loop delim (item @ delim # ss) splits = StringSplit_loop delim ss (splits @ [item])"
proof -
  have "takeWhile (\<lambda>c. c \<noteq> delim) (item @ delim # ss) = item"
    using assms by (subst takeWhile_append2) auto
  then show ?thesis by (subst StringSplit_loop.simps) simp
qed

lemma StringSplit_loop_terminated:
  "\<forall>item \<in> set items. delim \<notin> set item \<Longrightarrow>
   StringSplit_loop delim (concat (map (\<lambda>item. item @ [delim]) items)) splits = splits @ items"
proof (induction items arbitrary: splits)
  case Nil
  then show ?case by (subst StringSplit_loop.simps) simp
next
  case (Cons item items)
  then show ?case by (simp add: StringSplit_loop_item)
qed

lemma length_show_nat_le: "n < 10 ^ k \<Longrightarrow> 0 < k \<Longrightarrow> length (show_nat n) \<le> k"
proof (induction n arbitrary: k rule: show_nat.induct)
  case (1 n)
  show ?case
  proof (cases "n < 10")
    case False
    with 1(2,3) obtain j where k: "k = Suc j" "0 < j" by (cases k; cases "k - 1") auto
    with 1(2) have "n div 10 < 10 ^ j" by (simp add: less_mult_imp_div_less mult.commute)
    with 1(1) [OF False, of j] k show ?thesis using False by (simp add: show_nat.simps [of n])
  qed (use 1(3) in \<open>simp add: show_nat.simps [of n]\<close>)
qed

lemma NumberToString_show_nat: "NumberToString num = show_nat (unat num)"
proof -
  have "unat num < 2 ^ 64" using unsigned_less [of num, where ?'a = nat] by simp
  also have "(2 ^ 64 :: nat) < 10 ^ 20" by simp
  finally have "length (show_nat (unat num)) \<le> 20" by (rule length_show_nat_le) simp
  then show ?thesis by (simp add: NumberToString_def AppendNumberTo_def snprintf_def)
qed

lemma ParseInt_ToString: "ParseInt (ToString True v) = Inr v"
  by (simp add: ToString_def ParseInt_show_int)

lemma ToString_NumberToString: "ToString False num = NumberToString num"
  by (simp add: ToString_def NumberToString_show_nat show_int_def)

lemma ParseDouble_c_str: "ParseDouble strtod (c_str val) = ParseDouble strtod val"
  by (simp add: ParseDouble_def stod_def c_str_def)

section \<open>Properties\<close>

text \<open>
  \<open>UnescapeOptionString\<close> is the inverse of \<open>EscapeOptionString\<close>, on every string.
\<close>

theorem unescape_escape_option: "UnescapeOptionString (EscapeOptionString raw) = raw"
  by (simp add: UnescapeOptionString_def EscapeOptionString_def Unescape_Escape_loop)

text \<open>
  \<open>ConsumeDecimalNumber\<close> reads the longest run of leading digits. When the number fits in 64
  bits it is stored exactly, the slice is left after the run, and the result is true if there was a
  digit; when it does not fit, the result is false and nothing is stored. In particular it reads
  back what \<open>NumberToString\<close> prints.
\<close>

theorem consume_decimal_number:
  "(if dec_value (takeWhile is_dec_digit inp) < 2 ^ 64
    then ConsumeDecimalNumber inp =
      (takeWhile is_dec_digit inp \<noteq> [], dropWhile is_dec_digit inp,
       Some (of_nat (dec_value (takeWhile is_dec_digit inp))))
    else \<exists>inp'. ConsumeDecimalNumber inp = (False, inp', None)) \<and>
   ConsumeDecimalNumber (NumberToString num) = (True, [], Some num)"
proof -
  have "dec_value (takeWhile is_dec_digit (NumberToString num)) < 2 ^ 64"
    using unsigned_less [of num, where ?'a = nat]
    by (simp add: NumberToString_show_nat dec_value_show_nat)
  then have "ConsumeDecimalNumber (NumberToString num) = (True, [], Some num)"
    using ConsumeDecimal_loop_ok [of "[]" "NumberToString num"]
    by (simp add: ConsumeDecimalNumber_def NumberToString_show_nat dec_value_show_nat
        dropWhile_eq_Nil_conv show_nat_digits)
  then show ?thesis
    using ConsumeDecimal_loop_ok [of "[]" inp] ConsumeDecimal_loop_overflow [of "[]" inp]
    by (simp add: ConsumeDecimalNumber_def)
qed

text \<open>
  \<open>ParseVectorInt\<close> reads back exactly the vector that \<open>SerializeIntVector\<close> printed, for every
  vector of 32-bit integers.
\<close>

theorem vector_int_roundtrip: "ParseVectorInt (snd (SerializeIntVector vec)) = Inr vec"
proof (cases vec)
  case Nil
  then show ?thesis
    by (simp add: ParseVectorInt_def SerializeIntVector_def ParseVectorInt_loop.simps)
next
  case (Cons v vs)
  then show ?thesis
    by (simp add: ParseVectorInt_def SerializeIntVector_def Serialize_loop_Suc ParseVectorInt_serialized)
qed

text \<open>
  \<open>StringSplit\<close> returns the items of a string in which each item is followed by the
  delimiter, empty items included.
\<close>

theorem string_split_items:
  assumes "\<forall>item \<in> set items. delim \<notin> set item"
  shows "StringSplit (concat (map (\<lambda>item. item @ [delim]) items)) delim = items"
  using StringSplit_loop_terminated [OF assms] by (simp add: StringSplit_def)

theorem string_split_items_witness:
  "StringSplit [97, 58, 58, 98, 99, 58] 58 = [[97], [], [98, 99]]"
  using string_split_items [of "[[97], [], [98, 99]]" 58] by simp

end
