(* ===== verification/DBFormat.thy ===== *)
theory DBFormat
  imports Coding Comparators Transforms StringUtil
begin

text \<open>
  \<open>db_format/dbformat.h\<close>, \<open>db_format/dbformat.cc\<close> and \<open>db_format/types.h\<close>, except for \<open>IterKey\<close>
  (theory \<open>IterKeys\<close>): internal keys, their packed trailer, the comparator over them, the
  \<open>InternalKey\<close> class and range tombstones.

  A \<open>ValueType\<close> is an enumeration over \<open>unsigned char\<close>; a \<open>static_cast\<close> puts any byte into it, so
  it is a byte here, with the enumerators as constants. The first argument \<open>le\<close> is
  \<open>port::kLittleEndian\<close>. \<open>uc\<close> is the user comparator behind \<open>user_comparator_\<close>.
\<close>

section \<open>Types\<close>

type_synonym SequenceNumber = u64
type_synonym ValueType = byte

definition kTypeDeletion :: ValueType where "kTypeDeletion = 0"
definition kTypeValue :: ValueType where "kTypeValue = 1"
definition kTypeMerge :: ValueType where "kTypeMerge = 2"
definition kTypeSingleDeletion :: ValueType where "kTypeSingleDeletion = 7"
definition kTypeRangeDeletion :: ValueType where "kTypeRangeDeletion = 15"
definition kTypeBlobIndex :: ValueType where "kTypeBlobIndex = 17"
definition kTypeDeletionWithTimestamp :: ValueType where "kTypeDeletionWithTimestamp = 20"
definition kMaxValue :: ValueType where "kMaxValue = 127"

lemmas value_type_defs = kTypeDeletion_def kTypeValue_def kTypeMerge_def kTypeSingleDeletion_def
  kTypeRangeDeletion_def kTypeBlobIndex_def kTypeDeletionWithTimestamp_def kMaxValue_def

definition kValueTypeForSeek :: ValueType where
  "kValueTypeForSeek = kTypeDeletionWithTimestamp"

definition kValueTypeForSeekForPrev :: ValueType where
  "kValueTypeForSeekForPrev = kTypeDeletion"

definition IsValueType :: "ValueType \<Rightarrow> bool" where
  "IsValueType t \<longleftrightarrow> t \<le> kTypeMerge \<or> t = kTypeSingleDeletion \<or> t = kTypeBlobIndex \<or>
     kTypeDeletionWithTimestamp = t"

definition IsExtendedValueType :: "ValueType \<Rightarrow> bool" where
  "IsExtendedValueType t \<longleftrightarrow> IsValueType t \<or> t = kTypeRangeDeletion"

definition kMinUnCommittedSeq :: SequenceNumber where
  "kMinUnCommittedSeq = 1"

definition kMaxSequenceNumber :: SequenceNumber where
  "kMaxSequenceNumber = push_bit 56 1 - 1"

definition kDisableGlobalSequenceNumber :: SequenceNumber where
  "kDisableGlobalSequenceNumber = - 1"

datatype EntryType = kEntryPut | kEntryDelete | kEntrySingleDelete | kEntryMerge
  | kEntryRangeDeletion | kEntryBlobIndex | kEntryOther

record ParsedInternalKey =
  pik_user_key :: "byte list"
  pik_sequence :: SequenceNumber
  pik_type :: ValueType

text \<open>The default constructor leaves \<open>type\<close> unset; \<open>clear()\<close> sets all three.\<close>

definition pik_clear :: "ParsedInternalKey \<Rightarrow> ParsedInternalKey" where
  "pik_clear k = \<lparr>pik_user_key = [], pik_sequence = 0, pik_type = kTypeDeletion\<rparr>"

record FullKey =
  fk_user_key :: "byte list"
  fk_sequence :: SequenceNumber
  fk_type :: EntryType

definition fk_clear :: "FullKey \<Rightarrow> FullKey" where
  "fk_clear k = \<lparr>fk_user_key = [], fk_sequence = 0, fk_type = kEntryPut\<rparr>"

section \<open>Packing\<close>

definition InternalKeyEncodingLength :: "ParsedInternalKey \<Rightarrow> nat" where
  "InternalKeyEncodingLength key = length (pik_user_key key) + 8"

definition PackSequenceAndType :: "u64 \<Rightarrow> ValueType \<Rightarrow> u64 res" where
  "PackSequenceAndType seq t =
     require (seq \<le> kMaxSequenceNumber) (require (IsExtendedValueType t)
       (Inr (push_bit 8 seq OR ucast t)))"

definition UnPackSequenceAndType :: "u64 \<Rightarrow> (u64 \<times> ValueType) res" where
  "UnPackSequenceAndType packed =
     (let seq = drop_bit 8 packed; t = ucast (packed AND 255) in
      require (seq \<le> kMaxSequenceNumber) (require (IsExtendedValueType t) (Inr (seq, t))))"

definition GetEntryType :: "ValueType \<Rightarrow> EntryType" where
  "GetEntryType value_type =
     (if value_type = kTypeValue then kEntryPut
      else if value_type = kTypeDeletion then kEntryDelete
      else if value_type = kTypeSingleDeletion then kEntrySingleDelete
      else if value_type = kTypeMerge then kEntryMerge
      else if value_type = kTypeRangeDeletion then kEntryRangeDeletion
      else if value_type = kTypeBlobIndex then kEntryBlobIndex
      else kEntryOther)"

definition AppendInternalKey :: "bool \<Rightarrow> byte list \<Rightarrow> ParsedInternalKey \<Rightarrow> byte list res" where
  "AppendInternalKey le result key =
     (let result = result @ pik_user_key key in
      res_bind (PackSequenceAndType (pik_sequence key) (pik_type key)) (\<lambda>p.
        Inr (PutFixed64 le result p)))"

definition AppendInternalKeyWithDifferentTimestamp ::
  "bool \<Rightarrow> byte list \<Rightarrow> ParsedInternalKey \<Rightarrow> byte list \<Rightarrow> byte list res" where
  "AppendInternalKeyWithDifferentTimestamp le result key ts =
     require (length (pik_user_key key) \<ge> length ts)
       (let result = result @ take (length (pik_user_key key) - length ts) (pik_user_key key);
            result = result @ ts in
        res_bind (PackSequenceAndType (pik_sequence key) (pik_type key)) (\<lambda>p.
          Inr (PutFixed64 le result p)))"

definition AppendInternalKeyFooter ::
  "bool \<Rightarrow> byte list \<Rightarrow> SequenceNumber \<Rightarrow> ValueType \<Rightarrow> byte list res" where
  "AppendInternalKeyFooter le result s t =
     res_bind (PackSequenceAndType s t) (\<lambda>p. Inr (PutFixed64 le result p))"

section \<open>Taking internal keys apart\<close>

text \<open>
  \<open>ParseInternalKey\<close> returns the flag and what it stored in \<open>*result\<close>; \<open>None\<close> when it stored
  nothing. When the flag is false because of the type, the three fields are stored all the same.
\<close>

definition ParseInternalKey :: "bool \<Rightarrow> byte list \<Rightarrow> (bool \<times> ParsedInternalKey option) res" where
  "ParseInternalKey le internal_key =
     (let n = length internal_key in
      if n < 8 then Inr (False, None)
      else res_bind (DecodeFixed64 le internal_key (n - 8)) (\<lambda>num.
        let c = ucast (num AND 255) :: byte;
            result = \<lparr>pik_user_key = take (n - 8) internal_key,
                      pik_sequence = drop_bit 8 num, pik_type = c\<rparr> in
        Inr (IsExtendedValueType (pik_type result), Some result)))"

definition ParseFullKey :: "bool \<Rightarrow> byte list \<Rightarrow> FullKey \<Rightarrow> (bool \<times> FullKey) res" where
  "ParseFullKey le internal_key fkey =
     res_bind (ParseInternalKey le internal_key) (\<lambda>(ok, ikey).
       case ikey of
         None \<Rightarrow> Inr (False, fkey)
       | Some ikey \<Rightarrow>
           if \<not> ok then Inr (False, fkey)
           else Inr (True, \<lparr>fk_user_key = pik_user_key ikey, fk_sequence = pik_sequence ikey,
                            fk_type = GetEntryType (pik_type ikey)\<rparr>))"

definition ExtractUserKey :: "byte list \<Rightarrow> byte list res" where
  "ExtractUserKey internal_key =
     require (length internal_key \<ge> 8) (Inr (take (length internal_key - 8) internal_key))"

definition ExtractUserKeyAndStripTimestamp :: "byte list \<Rightarrow> nat \<Rightarrow> byte list res" where
  "ExtractUserKeyAndStripTimestamp internal_key ts_sz =
     require (length internal_key \<ge> 8 + ts_sz)
       (Inr (take (length internal_key - 8 - ts_sz) internal_key))"

definition StripTimestampFromUserKey :: "byte list \<Rightarrow> nat \<Rightarrow> byte list res" where
  "StripTimestampFromUserKey user_key ts_sz =
     require (length user_key \<ge> ts_sz) (Inr (take (length user_key - ts_sz) user_key))"

definition ExtractTimestampFromUserKey :: "byte list \<Rightarrow> nat \<Rightarrow> byte list res" where
  "ExtractTimestampFromUserKey user_key ts_sz =
     require (length user_key \<ge> ts_sz) (Inr (take ts_sz (drop (length user_key - ts_sz) user_key)))"

definition ExtractInternalKeyFooter :: "bool \<Rightarrow> byte list \<Rightarrow> u64 res" where
  "ExtractInternalKeyFooter le internal_key =
     require (length internal_key \<ge> 8)
       (let n = length internal_key in DecodeFixed64 le internal_key (n - 8))"

definition ExtractValueType :: "bool \<Rightarrow> byte list \<Rightarrow> ValueType res" where
  "ExtractValueType le internal_key =
     res_bind (ExtractInternalKeyFooter le internal_key) (\<lambda>num. Inr (ucast (num AND 255)))"

definition UpdateInternalKey :: "bool \<Rightarrow> byte list \<Rightarrow> u64 \<Rightarrow> ValueType \<Rightarrow> byte list res" where
  "UpdateInternalKey le ikey seq t =
     (let ikey_sz = length ikey in
      require (ikey_sz \<ge> 8)
        (let newval = push_bit 8 seq OR ucast t in
         write_bytes ikey (ikey_sz - 8) (EncodeFixed64 le newval)))"

definition GetInternalKeySeqno :: "bool \<Rightarrow> byte list \<Rightarrow> u64 res" where
  "GetInternalKeySeqno le internal_key =
     (let n = length internal_key in
      require (n \<ge> 8)
        (res_bind (DecodeFixed64 le internal_key (n - 8)) (\<lambda>num. Inr (drop_bit 8 num))))"

section \<open>The comparator over internal keys\<close>

definition InternalKeyComparator_Name :: "Comparator \<Rightarrow> byte list" where
  "InternalKeyComparator_Name uc = bytes_of_string ''rocksdb.InternalKeyComparator:'' @ cmp_Name uc"

definition InternalKeyComparator_Compare ::
  "bool \<Rightarrow> Comparator \<Rightarrow> byte list \<Rightarrow> byte list \<Rightarrow> int res" where
  "InternalKeyComparator_Compare le uc akey bkey =
     res_bind (ExtractUserKey akey) (\<lambda>ua.
     res_bind (ExtractUserKey bkey) (\<lambda>ub.
       let r = cmp_Compare uc ua ub in
       if r = 0 then
         res_bind (DecodeFixed64 le akey (length akey - 8)) (\<lambda>anum.
         res_bind (DecodeFixed64 le bkey (length bkey - 8)) (\<lambda>bnum.
           Inr (if anum > bnum then -1 else if anum < bnum then 1 else r)))
       else Inr r))"

definition CompareKeySeq :: "bool \<Rightarrow> Comparator \<Rightarrow> byte list \<Rightarrow> byte list \<Rightarrow> int res" where
  "CompareKeySeq le uc akey bkey =
     res_bind (ExtractUserKey akey) (\<lambda>ua.
     res_bind (ExtractUserKey bkey) (\<lambda>ub.
       let r = cmp_Compare uc ua ub in
       if r = 0 then
         res_bind (DecodeFixed64 le akey (length akey - 8)) (\<lambda>a.
         res_bind (DecodeFixed64 le bkey (length bkey - 8)) (\<lambda>b.
           let anum = drop_bit 8 a; bnum = drop_bit 8 b in
           Inr (if anum > bnum then -1 else if anum < bnum then 1 else r)))
       else Inr r))"

definition Compare_parsed :: "Comparator \<Rightarrow> ParsedInternalKey \<Rightarrow> ParsedInternalKey \<Rightarrow> int" where
  "Compare_parsed uc a b =
     (let r = cmp_Compare uc (pik_user_key a) (pik_user_key b) in
      if r = 0 then
        if pik_sequence a > pik_sequence b then -1
        else if pik_sequence a < pik_sequence b then 1
        else if pik_type a > pik_type b then -1
        else if pik_type a < pik_type b then 1
        else r
      else r)"

definition ParsedInternalKeyComparator ::
  "Comparator \<Rightarrow> ParsedInternalKey \<Rightarrow> ParsedInternalKey \<Rightarrow> bool" where
  "ParsedInternalKeyComparator uc a b \<longleftrightarrow> Compare_parsed uc a b < 0"

definition FindShortestSeparator :: "bool \<Rightarrow> Comparator \<Rightarrow> byte list \<Rightarrow> byte list \<Rightarrow> byte list res" where
  "FindShortestSeparator le uc start limit =
     res_bind (ExtractUserKey start) (\<lambda>user_start.
     res_bind (ExtractUserKey limit) (\<lambda>user_limit.
       let tmp = cmp_FindShortestSeparator uc user_start user_limit in
       if length tmp \<le> length user_start \<and> cmp_Compare uc user_start tmp < 0 then
         res_bind (PackSequenceAndType kMaxSequenceNumber kValueTypeForSeek) (\<lambda>p.
           let tmp = PutFixed64 le tmp p in
           res_bind (InternalKeyComparator_Compare le uc start tmp) (\<lambda>r1. require (r1 < 0)
           (res_bind (InternalKeyComparator_Compare le uc tmp limit) (\<lambda>r2. require (r2 < 0)
             (Inr tmp)))))
       else Inr start))"

definition FindShortSuccessor :: "bool \<Rightarrow> Comparator \<Rightarrow> byte list \<Rightarrow> byte list res" where
  "FindShortSuccessor le uc key =
     res_bind (ExtractUserKey key) (\<lambda>user_key.
       let tmp = cmp_FindShortSuccessor uc user_key in
       if length tmp \<le> length user_key \<and> cmp_Compare uc user_key tmp < 0 then
         res_bind (PackSequenceAndType kMaxSequenceNumber kValueTypeForSeek) (\<lambda>p.
           let tmp = PutFixed64 le tmp p in
           res_bind (InternalKeyComparator_Compare le uc key tmp) (\<lambda>r. require (r < 0) (Inr tmp)))
       else Inr key)"

section \<open>The class InternalKey\<close>

text \<open>The only member is \<open>rep_\<close>.\<close>

record InternalKey =
  ik_rep :: "byte list"

definition InternalKey_default :: InternalKey where
  "InternalKey_default = \<lparr>ik_rep = []\<rparr>"

definition InternalKey_ctor ::
  "bool \<Rightarrow> byte list \<Rightarrow> SequenceNumber \<Rightarrow> ValueType \<Rightarrow> InternalKey res" where
  "InternalKey_ctor le user_key s t =
     res_bind (AppendInternalKey le [] \<lparr>pik_user_key = user_key, pik_sequence = s, pik_type = t\<rparr>)
       (\<lambda>rep. Inr \<lparr>ik_rep = rep\<rparr>)"

definition SetMaxPossibleForUserKey :: "bool \<Rightarrow> InternalKey \<Rightarrow> byte list \<Rightarrow> InternalKey res" where
  "SetMaxPossibleForUserKey le k user_key =
     res_bind (AppendInternalKey le (ik_rep k) \<lparr>pik_user_key = user_key, pik_sequence = 0, pik_type = 0\<rparr>)
       (\<lambda>rep. Inr (k\<lparr>ik_rep := rep\<rparr>))"

definition SetMinPossibleForUserKey :: "bool \<Rightarrow> InternalKey \<Rightarrow> byte list \<Rightarrow> InternalKey res" where
  "SetMinPossibleForUserKey le k user_key =
     res_bind (AppendInternalKey le (ik_rep k)
         \<lparr>pik_user_key = user_key, pik_sequence = kMaxSequenceNumber, pik_type = kValueTypeForSeek\<rparr>)
       (\<lambda>rep. Inr (k\<lparr>ik_rep := rep\<rparr>))"

definition ik_Valid :: "bool \<Rightarrow> InternalKey \<Rightarrow> bool res" where
  "ik_Valid le k = res_bind (ParseInternalKey le (ik_rep k)) (\<lambda>(ok, parsed). Inr ok)"

definition ik_DecodeFrom :: "InternalKey \<Rightarrow> byte list \<Rightarrow> InternalKey" where
  "ik_DecodeFrom k s = k\<lparr>ik_rep := s\<rparr>"

definition ik_Encode :: "InternalKey \<Rightarrow> byte list res" where
  "ik_Encode k = require (ik_rep k \<noteq> []) (Inr (ik_rep k))"

definition ik_user_key :: "InternalKey \<Rightarrow> byte list res" where
  "ik_user_key k = ExtractUserKey (ik_rep k)"

definition ik_size :: "InternalKey \<Rightarrow> nat" where
  "ik_size k = length (ik_rep k)"

definition ik_SetFrom :: "bool \<Rightarrow> InternalKey \<Rightarrow> ParsedInternalKey \<Rightarrow> InternalKey res" where
  "ik_SetFrom le k p =
     (let k = k\<lparr>ik_rep := []\<rparr> in
      res_bind (AppendInternalKey le (ik_rep k) p) (\<lambda>rep. Inr (k\<lparr>ik_rep := rep\<rparr>)))"

definition ik_Set ::
  "bool \<Rightarrow> InternalKey \<Rightarrow> byte list \<Rightarrow> SequenceNumber \<Rightarrow> ValueType \<Rightarrow> InternalKey res" where
  "ik_Set le k user_key s t =
     ik_SetFrom le k \<lparr>pik_user_key = user_key, pik_sequence = s, pik_type = t\<rparr>"

definition ik_Clear :: "InternalKey \<Rightarrow> InternalKey" where
  "ik_Clear k = k\<lparr>ik_rep := []\<rparr>"

definition ConvertFromUserKey ::
  "bool \<Rightarrow> InternalKey \<Rightarrow> SequenceNumber \<Rightarrow> ValueType \<Rightarrow> InternalKey res" where
  "ConvertFromUserKey le k s t =
     res_bind (AppendInternalKeyFooter le (ik_rep k) s t) (\<lambda>rep. Inr (k\<lparr>ik_rep := rep\<rparr>))"

definition Compare_ik :: "bool \<Rightarrow> Comparator \<Rightarrow> InternalKey \<Rightarrow> InternalKey \<Rightarrow> int res" where
  "Compare_ik le uc a b =
     res_bind (ik_Encode a) (\<lambda>ea. res_bind (ik_Encode b) (\<lambda>eb.
       InternalKeyComparator_Compare le uc ea eb))"

section \<open>Debug text\<close>

definition ParsedInternalKey_DebugString :: "ParsedInternalKey \<Rightarrow> bool \<Rightarrow> byte list" where
  "ParsedInternalKey_DebugString k hex =
     (let buf = snprintf 50 ([39] @ bytes_of_string '' seq:'' @
                  show_nat (unat (pik_sequence k)) @ bytes_of_string '', type:'' @
                  show_nat (unat (pik_type k))) in
      [39] @ (if hex then hex_encode (pik_user_key k) else pik_user_key k) @ buf)"

definition InternalKey_DebugString :: "bool \<Rightarrow> InternalKey \<Rightarrow> bool \<Rightarrow> byte list res" where
  "InternalKey_DebugString le k hex =
     res_bind (ParseInternalKey le (ik_rep k)) (\<lambda>(ok, parsed).
       case (ok, parsed) of
         (True, Some parsed) \<Rightarrow> Inr (ParsedInternalKey_DebugString parsed hex)
       | _ \<Rightarrow> Inr (bytes_of_string ''(bad)'' @ EscapeString (ik_rep k)))"

section \<open>Prefix extractors over internal keys\<close>

text \<open>
  The extractor works at pointer level, as \<open>SliceTransform\<close> does. \<open>FullLengthEnabled\<close> and
  \<open>SameResultWhenAppended\<close> are the defaults of the base class.
\<close>

definition ExtractUserKey_slice :: "Slice \<Rightarrow> Slice res" where
  "ExtractUserKey_slice internal_key =
     require (sl_size internal_key \<ge> 8)
       (Inr (Slice_ptr (sl_base internal_key) (sl_data internal_key) (sl_size internal_key - 8)))"

definition InternalKeySliceTransform :: "SliceTransform \<Rightarrow> SliceTransform" where
  "InternalKeySliceTransform transform =
     \<lparr>st_Name = st_Name transform,
      st_Transform = (\<lambda>src. res_bind (ExtractUserKey_slice src) (st_Transform transform)),
      st_InDomain = (\<lambda>src. res_bind (ExtractUserKey_slice src) (st_InDomain transform)),
      st_InRange = (\<lambda>dst. res_bind (ExtractUserKey_slice dst) (st_InRange transform)),
      st_FullLengthEnabled = None,
      st_SameResultWhenAppended = (\<lambda>prefix. False)\<rparr>"

section \<open>Range tombstones\<close>

record RangeTombstone =
  rt_start_key :: "byte list"
  rt_end_key :: "byte list"
  rt_seq :: SequenceNumber

definition RangeTombstone_parsed :: "ParsedInternalKey \<Rightarrow> byte list \<Rightarrow> RangeTombstone" where
  "RangeTombstone_parsed parsed_key val =
     \<lparr>rt_start_key = pik_user_key parsed_key, rt_end_key = val, rt_seq = pik_sequence parsed_key\<rparr>"

definition rt_SerializeKey :: "bool \<Rightarrow> RangeTombstone \<Rightarrow> InternalKey res" where
  "rt_SerializeKey le t = InternalKey_ctor le (rt_start_key t) (rt_seq t) kTypeRangeDeletion"

definition rt_Serialize :: "bool \<Rightarrow> RangeTombstone \<Rightarrow> (InternalKey \<times> byte list) res" where
  "rt_Serialize le t =
     res_bind (InternalKey_ctor le (rt_start_key t) (rt_seq t) kTypeRangeDeletion) (\<lambda>key.
       Inr (key, rt_end_key t))"

definition rt_SerializeEndKey :: "bool \<Rightarrow> RangeTombstone \<Rightarrow> InternalKey res" where
  "rt_SerializeEndKey le t = InternalKey_ctor le (rt_end_key t) kMaxSequenceNumber kTypeRangeDeletion"



section \<open>The packed trailer\<close>

lemma unat_kMaxSequenceNumber: "unat kMaxSequenceNumber = 2 ^ 56 - 1"
  by (simp add: kMaxSequenceNumber_def)

lemma le_kMaxSequenceNumber_iff: "seq \<le> kMaxSequenceNumber \<longleftrightarrow> unat seq < 2 ^ 56"
  unfolding word_le_nat_alt unat_kMaxSequenceNumber by simp linarith

lemma ucast_trailer_type [simp]: "ucast ((push_bit 8 seq OR ucast (t :: byte)) AND 255 :: u64) = t"
  by (intro bit_word_eqI) (auto simp: bit_simps dest: bit_imp_le_length)

lemma trailer_seq:
  assumes "seq \<le> kMaxSequenceNumber"
  shows "drop_bit 8 (push_bit 8 seq OR ucast (t :: byte)) = (seq :: u64)"
proof (rule bit_word_eqI)
  fix n assume "n < LENGTH(64)"
  moreover have "n < 56" if "bit seq n"
    using bit_small_word [of seq 56 n] assms that by (simp add: le_kMaxSequenceNumber_iff)
  ultimately show "bit (drop_bit 8 (push_bit 8 seq OR ucast t)) n = bit seq n"
    by (auto simp: bit_simps dest: bit_imp_le_length)
qed

lemma trailer_join: "push_bit 8 (drop_bit 8 num) OR ucast (ucast (num AND 255) :: byte) = (num :: u64)"
proof (rule bit_word_eqI)
  fix n assume "n < LENGTH(64)"
  then show "bit (push_bit 8 (drop_bit 8 num) OR ucast (ucast (num AND 255) :: byte)) n = bit num n"
    by (cases "n < 8") (auto simp: bit_simps)
qed

lemma seq_in_range [simp]: "drop_bit 8 (num :: u64) \<le> kMaxSequenceNumber"
proof -
  have "unat num < 2 ^ 64" using unsigned_less [of num, where ?'a = nat] by simp
  then show ?thesis
    by (simp add: le_kMaxSequenceNumber_iff unat_drop_bit_div less_mult_imp_div_less)
qed

text \<open>The order of trailers is the lexicographic order of sequence number and type.\<close>

lemma unat_trailer: "unat (num :: u64) = unat (drop_bit 8 num) * 256 + unat (ucast (num AND 255) :: byte)"
proof -
  have "(ucast (num AND 255) :: byte) = ucast num"
    by (rule ucast_and_255)
  then have "unat (ucast (num AND 255) :: byte) = unat num mod 256"
    by (simp add: unsigned_ucast_eq take_bit_eq_mod)
  then show ?thesis by (simp add: unat_drop_bit_div)
qed

lemma trailer_less_iff:
  "(num :: u64) < num' \<longleftrightarrow> drop_bit 8 num < drop_bit 8 num' \<or>
     drop_bit 8 num = drop_bit 8 num' \<and> (ucast (num AND 255) :: byte) < ucast (num' AND 255)"
proof -
  have lt: "unat (ucast (n AND 255 :: u64) :: byte) < 256" for n
    using unsigned_less [of "ucast (n AND 255 :: u64) :: byte", where ?'a = nat] by simp
  show ?thesis
    unfolding word_less_nat_alt word_unat_eq_iff [of "drop_bit 8 num"]
      unat_trailer [of num] unat_trailer [of num']
    using lt [of num] lt [of num'] by auto
qed

lemma PackSequenceAndType_ok:
  "seq \<le> kMaxSequenceNumber \<Longrightarrow> IsExtendedValueType t \<Longrightarrow>
   PackSequenceAndType seq t = Inr (push_bit 8 seq OR ucast t)"
  by (simp add: PackSequenceAndType_def)

lemma extended_types [simp]:
  "IsExtendedValueType kTypeRangeDeletion" "IsExtendedValueType kValueTypeForSeek"
  "IsExtendedValueType 0" "IsExtendedValueType kTypeValue" "IsExtendedValueType kTypeDeletion"
  by (simp_all add: IsExtendedValueType_def IsValueType_def kValueTypeForSeek_def value_type_defs)

lemma extended_type_le: "IsExtendedValueType t \<Longrightarrow> t \<le> kValueTypeForSeek"
  by (auto simp: IsExtendedValueType_def IsValueType_def kValueTypeForSeek_def value_type_defs
      word_le_nat_alt)

section \<open>Encoded and parsed keys\<close>

text \<open>A parsed key that the encoder accepts, and its encoding.\<close>

definition pik_ok :: "ParsedInternalKey \<Rightarrow> bool" where
  "pik_ok k \<longleftrightarrow> pik_sequence k \<le> kMaxSequenceNumber \<and> IsExtendedValueType (pik_type k)"

definition ikey_bytes :: "ParsedInternalKey \<Rightarrow> byte list" where
  "ikey_bytes k = pik_user_key k @ le_bytes 8 (push_bit 8 (pik_sequence k) OR ucast (pik_type k) :: u64)"

text \<open>The parsed form of any string of at least eight bytes.\<close>

definition ikey_trailer :: "byte list \<Rightarrow> u64" where
  "ikey_trailer k = of_le_bytes (drop (length k - 8) k)"

definition ikey_parsed :: "byte list \<Rightarrow> ParsedInternalKey" where
  "ikey_parsed k = \<lparr>pik_user_key = take (length k - 8) k, pik_sequence = drop_bit 8 (ikey_trailer k),
     pik_type = ucast (ikey_trailer k AND 255)\<rparr>"

lemma DecodeFixed64_trailer:
  "8 \<le> length k \<Longrightarrow> DecodeFixed64 le k (length k - 8) = Inr (ikey_trailer k)"
  by (simp add: codec_simps ikey_trailer_def)

lemma AppendInternalKey_ok:
  "pik_ok k \<Longrightarrow> AppendInternalKey le r k = Inr (r @ ikey_bytes k)"
  by (simp add: AppendInternalKey_def pik_ok_def PackSequenceAndType_ok ikey_bytes_def codec_simps)

lemma ik_size_SetFrom:
  "pik_ok p \<Longrightarrow> \<exists>k'. ik_SetFrom le k p = Inr k' \<and> ik_size k' = InternalKeyEncodingLength p"
  by (simp add: ik_SetFrom_def AppendInternalKey_ok ik_size_def InternalKeyEncodingLength_def ikey_bytes_def)

lemma ParseInternalKey_eq:
  "ParseInternalKey le k =
    (if length k < 8 then Inr (False, None)
     else Inr (IsExtendedValueType (pik_type (ikey_parsed k)), Some (ikey_parsed k)))"
  by (simp add: ParseInternalKey_def DecodeFixed64_trailer ikey_parsed_def Let_def)

lemma length_ikey_bytes [simp]: "length (ikey_bytes k) = length (pik_user_key k) + 8"
  by (simp add: ikey_bytes_def)

lemma ikey_parsed_bytes: "pik_ok k \<Longrightarrow> ikey_parsed (ikey_bytes k) = k"
  using trailer_seq [of "pik_sequence k" "pik_type k"]
  by (simp add: ikey_parsed_def ikey_trailer_def pik_ok_def ikey_bytes_def)

lemma ikey_bytes_parsed: "8 \<le> length k \<Longrightarrow> ikey_bytes (ikey_parsed k) = k"
  using le_bytes_of_le_bytes [of "drop (length k - 8) k", where ?'a = 64]
  by (simp add: ikey_bytes_def ikey_parsed_def trailer_join) (simp add: ikey_trailer_def)

lemma pik_ok_parsed: "pik_ok (ikey_parsed k) \<longleftrightarrow> IsExtendedValueType (pik_type (ikey_parsed k))"
  by (simp add: pik_ok_def ikey_parsed_def)

section \<open>The order of internal keys\<close>

lemma trailer_compare:
  "(if (y :: u64) < x then -1 else if x < y then 1 else 0 :: int) =
   (if drop_bit 8 y < drop_bit 8 x then -1 else if drop_bit 8 x < drop_bit 8 y then 1
    else if (ucast (y AND 255) :: byte) < ucast (x AND 255) then -1
    else if (ucast (x AND 255) :: byte) < ucast (y AND 255) then 1 else 0)"
  unfolding trailer_less_iff [of x y] trailer_less_iff [of y x] by simp

lemma Compare_eq_parsed:
  assumes "8 \<le> length a" "8 \<le> length b"
  shows "InternalKeyComparator_Compare le uc a b = Inr (Compare_parsed uc (ikey_parsed a) (ikey_parsed b))"
  using assms trailer_compare [of "ikey_trailer b" "ikey_trailer a"]
  by (cases "cmp_Compare uc (take (length a - 8) a) (take (length b - 8) b) = 0")
    (simp_all add: InternalKeyComparator_Compare_def ExtractUserKey_def DecodeFixed64_trailer
      Compare_parsed_def ikey_parsed_def Let_def split del: if_split cong: if_cong)

lemma CompareKeySeq_eq:
  assumes "8 \<le> length a" "8 \<le> length b"
  shows "CompareKeySeq le uc a b =
    Inr (Compare_parsed uc (ikey_parsed a\<lparr>pik_type := 0\<rparr>) (ikey_parsed b\<lparr>pik_type := 0\<rparr>))"
  using assms
  by (simp add: CompareKeySeq_def ExtractUserKey_def DecodeFixed64_trailer Compare_parsed_def
      ikey_parsed_def Let_def)

text \<open>
  The comparison of parsed keys orders by user key and then by decreasing sequence number and type.
\<close>

definition seq_type_compare :: "ParsedInternalKey \<Rightarrow> ParsedInternalKey \<Rightarrow> int" where
  "seq_type_compare a b =
     (if pik_sequence a > pik_sequence b then -1 else if pik_sequence a < pik_sequence b then 1
      else if pik_type a > pik_type b then -1 else if pik_type a < pik_type b then 1 else 0)"

lemma Compare_parsed_alt:
  "Compare_parsed uc a b =
    (if cmp_Compare uc (pik_user_key a) (pik_user_key b) = 0 then seq_type_compare a b
     else cmp_Compare uc (pik_user_key a) (pik_user_key b))"
  by (simp add: Compare_parsed_def seq_type_compare_def Let_def)

lemma seq_type_compare_laws:
  "seq_type_compare b a = - seq_type_compare a b"
  "seq_type_compare a b \<le> 0 \<Longrightarrow> seq_type_compare b c \<le> 0 \<Longrightarrow> seq_type_compare a c \<le> 0"
  by (auto simp: seq_type_compare_def split: if_splits)

lemma three_way_Compare_parsed:
  assumes "three_way UNIV (cmp_Compare uc)"
  shows "three_way UNIV (Compare_parsed uc)"
proof
  fix a b c
  show "sgn (Compare_parsed uc b a) = - sgn (Compare_parsed uc a b)"
    using three_way.sign_flip [OF assms, of "pik_user_key a" "pik_user_key b"]
      three_way.flip_eq [OF assms, of "pik_user_key a" "pik_user_key b"] seq_type_compare_laws(1) [of b a]
    by (simp add: Compare_parsed_alt)
  assume ab: "Compare_parsed uc a b \<le> 0" and bc: "Compare_parsed uc b c \<le> 0"
  let ?c = "\<lambda>x y. cmp_Compare uc (pik_user_key x) (pik_user_key y)"
  have le: "?c a b \<le> 0" "?c b c \<le> 0"
    using ab bc by (simp_all add: Compare_parsed_alt split: if_splits)
  show "Compare_parsed uc a c \<le> 0"
  proof (cases "?c a b < 0 \<or> ?c b c < 0")
    case True
    then have "?c a c < 0"
      using le three_way.less_le_trans [OF assms] three_way.le_less_trans [OF assms] by blast
    then show ?thesis by (simp add: Compare_parsed_alt)
  next
    case False
    with le have eq: "?c a b = 0" "?c b c = 0" by simp_all
    then have "?c a c = 0" using three_way.eq_trans [OF assms] by blast
    with eq ab bc show ?thesis
      using seq_type_compare_laws(2) [of a b c] by (simp add: Compare_parsed_alt)
  qed
qed

text \<open>The comparison of encoded keys as a total function on strings of at least eight bytes.\<close>

definition ikey_order :: "bool \<Rightarrow> Comparator \<Rightarrow> byte list \<Rightarrow> byte list \<Rightarrow> int" where
  "ikey_order le uc a b = (case InternalKeyComparator_Compare le uc a b of Inl _ \<Rightarrow> 0 | Inr r \<Rightarrow> r)"

definition ikeys :: "byte list set" where
  "ikeys = {k. 8 \<le> length k}"

lemma ikey_order_parsed:
  "a \<in> ikeys \<Longrightarrow> b \<in> ikeys \<Longrightarrow> ikey_order le uc a b = Compare_parsed uc (ikey_parsed a) (ikey_parsed b)"
  by (simp add: ikey_order_def Compare_eq_parsed ikeys_def)

lemma three_way_ikey_order:
  assumes "three_way UNIV (cmp_Compare uc)"
  shows "three_way ikeys (ikey_order le uc)"
proof
  note parsed = three_way_Compare_parsed [OF assms]
  fix a b c :: "byte list"
  assume "a \<in> ikeys" "b \<in> ikeys"
  then show "sgn (ikey_order le uc b a) = - sgn (ikey_order le uc a b)"
    using three_way.sign_flip [OF parsed, of "ikey_parsed a" "ikey_parsed b"]
    by (simp add: ikey_order_parsed)
  assume "c \<in> ikeys" "ikey_order le uc a b \<le> 0" "ikey_order le uc b c \<le> 0"
  then show "ikey_order le uc a c \<le> 0"
    using \<open>a \<in> ikeys\<close> \<open>b \<in> ikeys\<close> three_way.le_trans [OF parsed, of "ikey_parsed a" "ikey_parsed b" "ikey_parsed c"]
    by (simp add: ikey_order_parsed)
qed

interpretation ikey_lex: three_way ikeys "ikey_order le slice_order_comparator" for le
  by (rule three_way_ikey_order) (rule slice_order.three_way_axioms)

interpretation parsed_lex: three_way UNIV "Compare_parsed slice_order_comparator"
  by (rule three_way_Compare_parsed) (rule slice_order.three_way_axioms)

section \<open>Separators\<close>

lemma three_wayI: "user_comparator uc \<Longrightarrow> three_way UNIV (cmp_Compare uc)"
  by (simp add: user_comparator_def)

text \<open>The seek key of a user key: largest sequence number and type.\<close>

definition seek_key :: "byte list \<Rightarrow> ParsedInternalKey" where
  "seek_key u = \<lparr>pik_user_key = u, pik_sequence = kMaxSequenceNumber, pik_type = kValueTypeForSeek\<rparr>"

lemma pik_ok_seek_key [simp]: "pik_ok (seek_key u)"
  by (simp add: seek_key_def pik_ok_def)

lemma seek_key_bytes:
  "PackSequenceAndType kMaxSequenceNumber kValueTypeForSeek
    = Inr (push_bit 8 kMaxSequenceNumber OR ucast kValueTypeForSeek)"
  "PutFixed64 le u (push_bit 8 kMaxSequenceNumber OR ucast kValueTypeForSeek) = ikey_bytes (seek_key u)"
  by (simp_all add: PackSequenceAndType_ok ikey_bytes_def seek_key_def codec_simps)

lemma Compare_parsed_user_less:
  "cmp_Compare uc (pik_user_key a) (pik_user_key b) < 0 \<Longrightarrow> Compare_parsed uc a b < 0"
  by (simp add: Compare_parsed_alt)

lemma ExtractUserKey_ok: "8 \<le> length k \<Longrightarrow> ExtractUserKey k = Inr (pik_user_key (ikey_parsed k))"
  by (simp add: ExtractUserKey_def ikey_parsed_def)

lemma ikey_trailer_eq_iff:
  assumes "8 \<le> length a" "8 \<le> length b"
  shows "ikey_trailer a = ikey_trailer b \<longleftrightarrow> drop (length a - 8) a = drop (length b - 8) b"
proof -
  have "le_bytes 8 (ikey_trailer k) = drop (length k - 8) k" if "8 \<le> length k" for k
    using le_bytes_of_le_bytes [of "drop (length k - 8) k", where ?'a = 64] that
    by (simp add: ikey_trailer_def)
  then show ?thesis using assms by (metis ikey_trailer_def)
qed

section \<open>Prefix extraction from internal keys\<close>

lemma ExtractUserKey_slice_Inr:
  assumes "slice_wf s" and "ExtractUserKey_slice s = Inr u"
  shows "slice_wf u" and "prefix (slice_bytes u) (slice_bytes s)"
  using assms slice_ptr_prefix [of s "sl_size s - 8"]
  by (auto simp: ExtractUserKey_slice_def require_eq_Inr take_is_prefix simp del: slice_bytes_constructors)

lemma internal_prefix_transform:
  assumes "prefix_transform t"
  shows "prefix_transform (InternalKeySliceTransform t)"
proof
  fix s assume wf: "slice_wf s" and dom: "st_InDomain (InternalKeySliceTransform t) s = Inr True"
  then obtain u where u: "ExtractUserKey_slice s = Inr u" "st_InDomain t u = Inr True"
    by (auto simp: InternalKeySliceTransform_def res_bind_eq_Inr)
  from prefix_transform.in_domain [OF assms ExtractUserKey_slice_Inr(1) [OF wf u(1)] u(2)] u(1)
    ExtractUserKey_slice_Inr(2) [OF wf u(1)]
  show "\<exists>r. st_Transform (InternalKeySliceTransform t) s = Inr r \<and> slice_wf r \<and>
      prefix (slice_bytes r) (slice_bytes s)"
    by (auto simp: InternalKeySliceTransform_def dest: prefix_order.trans)
qed (simp add: InternalKeySliceTransform_def)

interpretation internal_fixed_prefix: prefix_transform "InternalKeySliceTransform (NewFixedPrefixTransform n)"
  for n by (rule internal_prefix_transform) (rule fixed_prefix.prefix_transform_axioms)

interpretation internal_capped_prefix: prefix_transform "InternalKeySliceTransform (NewCappedPrefixTransform n)"
  for n by (rule internal_prefix_transform) (rule capped_prefix.prefix_transform_axioms)

interpretation internal_noop_prefix: prefix_transform "InternalKeySliceTransform NewNoopTransform"
  by (rule internal_prefix_transform) (rule noop_prefix.prefix_transform_axioms)

section \<open>Properties\<close>

text \<open>
  C30: packing a sequence number and a type and unpacking them are inverse to each other, and the
  packed numbers are ordered by sequence number first and type second. Packing fails exactly when
  the sequence number needs more than 56 bits or the type is not one of the extended value types.
\<close>

theorem pack_unpack_sequence_and_type:
  "(case PackSequenceAndType seq t of
      Inl _ \<Rightarrow> seq > kMaxSequenceNumber \<or> \<not> IsExtendedValueType t
    | Inr p \<Rightarrow> UnPackSequenceAndType p = Inr (seq, t) \<and>
        (\<forall>seq' t' p'. PackSequenceAndType seq' t' = Inr p' \<longrightarrow>
          (p < p' \<longleftrightarrow> seq < seq' \<or> seq = seq' \<and> t < t'))) \<and>
   (\<forall>s' t'. UnPackSequenceAndType q = Inr (s', t') \<longrightarrow> PackSequenceAndType s' t' = Inr q)"
proof -
  have un: "UnPackSequenceAndType (push_bit 8 s OR ucast t) = Inr (s, t)"
    if "s \<le> kMaxSequenceNumber" "IsExtendedValueType t" for s t
    using that trailer_seq [of s t] by (simp add: UnPackSequenceAndType_def Let_def)
  have less: "push_bit 8 s OR ucast t < (push_bit 8 s' OR ucast t' :: u64) \<longleftrightarrow> s < s' \<or> s = s' \<and> t < t'"
    if "s \<le> kMaxSequenceNumber" "s' \<le> kMaxSequenceNumber" for s s' :: u64 and t t' :: byte
    using trailer_less_iff [of "push_bit 8 s OR ucast t" "push_bit 8 s' OR ucast t'"]
    by (simp only: trailer_seq that ucast_trailer_type)
  have "PackSequenceAndType s' t' = Inr q" if "UnPackSequenceAndType q = Inr (s', t')" for s' t'
  proof -
    from that have st: "s' = drop_bit 8 q" "t' = ucast (q AND 255)" "IsExtendedValueType t'"
      by (auto simp: UnPackSequenceAndType_def Let_def require_eq_Inr)
    show ?thesis
      unfolding PackSequenceAndType_ok [OF seq_in_range [of q] st(3), folded st(1)]
      unfolding st(1,2) trailer_join ..
  qed
  then show ?thesis
    using un less by (auto simp: PackSequenceAndType_def require_def split: if_splits)
qed

theorem pack_unpack_sequence_and_type_witness:
  "\<exists>p. PackSequenceAndType 5 kTypeValue = Inr p \<and> UnPackSequenceAndType p = Inr (5, kTypeValue)"
proof -
  have "PackSequenceAndType 5 kTypeValue = Inr 1281" by code_simp
  with pack_unpack_sequence_and_type [of 5 kTypeValue 0] show ?thesis by auto
qed

text \<open>
  C1: internal keys round-trip. Parsing what \<open>AppendInternalKey\<close> wrote gives the parsed key back,
  and a key that parses is the encoding of its parsed form; neither depends on the byte order of
  the machine. A string shorter than eight bytes never parses.
\<close>

theorem internal_key_roundtrip:
  "(\<forall>enc. AppendInternalKey le [] key = Inr enc \<longrightarrow> ParseInternalKey le' enc = Inr (True, Some key)
      \<and> length enc = InternalKeyEncodingLength key) \<and>
   (\<forall>p. ParseInternalKey le' enc' = Inr (True, Some p) \<longrightarrow> AppendInternalKey le [] p = Inr enc') \<and>
   (length enc' < 8 \<longrightarrow> ParseInternalKey le' enc' = Inr (False, None))"
proof -
  have ok: "pik_ok key" if "AppendInternalKey le [] key = Inr enc" for enc
    using that by (auto simp: AppendInternalKey_def res_bind_eq_Inr PackSequenceAndType_def
        require_eq_Inr pik_ok_def)
  have enc: "ParseInternalKey le' enc = Inr (True, Some key) \<and> length enc = InternalKeyEncodingLength key"
    if "AppendInternalKey le [] key = Inr enc" for enc
  proof -
    from that ok [OF that] have "enc = ikey_bytes key" by (simp add: AppendInternalKey_ok)
    then show ?thesis
      using ok [OF that] by (simp add: ParseInternalKey_eq ikey_parsed_bytes InternalKeyEncodingLength_def)
        (simp add: pik_ok_def)
  qed
  have short: "length enc' < 8 \<longrightarrow> ParseInternalKey le' enc' = Inr (False, None)"
    by (simp add: ParseInternalKey_eq)
  have "AppendInternalKey le [] p = Inr enc'" if "ParseInternalKey le' enc' = Inr (True, Some p)" for p
  proof -
    from that have "8 \<le> length enc'" "p = ikey_parsed enc'" "IsExtendedValueType (pik_type p)"
      by (auto simp: ParseInternalKey_eq split: if_splits)
    then show ?thesis
      by (simp add: AppendInternalKey_ok pik_ok_parsed ikey_bytes_parsed)
  qed
  then show ?thesis
    using enc short by blast
qed

theorem internal_key_roundtrip_witness:
  "ParseInternalKey False [107, 1, 9, 0, 0, 0, 0, 0, 0]
    = Inr (True, Some \<lparr>pik_user_key = [107], pik_sequence = 9, pik_type = 1\<rparr>)"
proof -
  have "AppendInternalKey True [] \<lparr>pik_user_key = [107], pik_sequence = 9, pik_type = 1\<rparr>
      = Inr [107, 1, 9, 0, 0, 0, 0, 0, 0]" by code_simp
  with internal_key_roundtrip [of True "\<lparr>pik_user_key = [107], pik_sequence = 9, pik_type = 1\<rparr>" False "[]"]
  show ?thesis by blast
qed

text \<open>
  C2: comparing two encoded internal keys gives exactly the result of comparing the parsed keys:
  the shortcut that compares the eight-byte trailers as one number orders by decreasing sequence
  number and then decreasing type. \<open>CompareKeySeq\<close> is the same comparison with the type left out.
\<close>

theorem encoded_compare_is_parsed_compare:
  assumes "ParseInternalKey le a = Inr (oka, Some pa)" "ParseInternalKey le b = Inr (okb, Some pb)"
  shows "InternalKeyComparator_Compare le uc a b = Inr (Compare_parsed uc pa pb) \<and>
    CompareKeySeq le uc a b = Inr (Compare_parsed uc (pa\<lparr>pik_type := 0\<rparr>) (pb\<lparr>pik_type := 0\<rparr>))"
proof -
  from assms have "8 \<le> length a" "8 \<le> length b" "pa = ikey_parsed a" "pb = ikey_parsed b"
    by (auto simp: ParseInternalKey_eq split: if_splits)
  then show ?thesis using Compare_eq_parsed CompareKeySeq_eq by blast
qed

theorem encoded_compare_is_parsed_compare_witness:
  "InternalKeyComparator_Compare True slice_order_comparator
     [107, 1, 9, 0, 0, 0, 0, 0, 0] [107, 1, 7, 0, 0, 0, 0, 0, 0] = Inr (-1)"
proof -
  have "ParseInternalKey True [107, 1, 9, 0, 0, 0, 0, 0, 0]
      = Inr (True, Some \<lparr>pik_user_key = [107], pik_sequence = 9, pik_type = 1\<rparr>)"
    "ParseInternalKey True [107, 1, 7, 0, 0, 0, 0, 0, 0]
      = Inr (True, Some \<lparr>pik_user_key = [107], pik_sequence = 7, pik_type = 1\<rparr>)" by code_simp+
  from encoded_compare_is_parsed_compare [OF this, of slice_order_comparator]
  have "InternalKeyComparator_Compare True slice_order_comparator
     [107, 1, 9, 0, 0, 0, 0, 0, 0] [107, 1, 7, 0, 0, 0, 0, 0, 0] =
     Inr (Compare_parsed slice_order_comparator \<lparr>pik_user_key = [107], pik_sequence = 9, pik_type = 1\<rparr>
       \<lparr>pik_user_key = [107], pik_sequence = 7, pik_type = 1\<rparr>)" by blast
  also have "\<dots> = Inr (-1)" by code_simp
  finally show ?thesis .
qed

text \<open>
  C3: over a user comparator that keeps its laws, the internal key comparator is a total order of
  all strings of at least eight bytes: it never faults, its sign is antisymmetric, at-most is
  transitive, and 0 means an equal user key, sequence number and type.
\<close>

theorem internal_key_order_total:
  assumes "user_comparator uc" "8 \<le> length a" "8 \<le> length b" "8 \<le> length c"
  shows "\<exists>ab ba bc ac. InternalKeyComparator_Compare le uc a b = Inr ab \<and>
    InternalKeyComparator_Compare le uc b a = Inr ba \<and>
    InternalKeyComparator_Compare le uc b c = Inr bc \<and>
    InternalKeyComparator_Compare le uc a c = Inr ac \<and>
    sgn ba = - sgn ab \<and> (ab \<le> 0 \<and> bc \<le> 0 \<longrightarrow> ac \<le> 0) \<and>
    (ab = 0 \<longleftrightarrow> cmp_Equal uc (take (length a - 8) a) (take (length b - 8) b) \<and>
      drop (length a - 8) a = drop (length b - 8) b)"
proof -
  note tw = three_way_Compare_parsed [OF three_wayI [OF assms(1)]]
  let ?a = "ikey_parsed a" and ?b = "ikey_parsed b"
  have "Compare_parsed uc ?a ?b = 0 \<longleftrightarrow>
      cmp_Compare uc (pik_user_key ?a) (pik_user_key ?b) = 0 \<and>
      pik_sequence ?a = pik_sequence ?b \<and> pik_type ?a = pik_type ?b"
    by (auto simp: Compare_parsed_alt seq_type_compare_def split: if_splits)
  also have "pik_sequence ?a = pik_sequence ?b \<and> pik_type ?a = pik_type ?b \<longleftrightarrow>
      ikey_trailer a = ikey_trailer b"
    by (metis ikey_parsed_def ParsedInternalKey.select_convs(2,3) trailer_join)
  also have "ikey_trailer a = ikey_trailer b \<longleftrightarrow> drop (length a - 8) a = drop (length b - 8) b"
    using assms(2,3) by (rule ikey_trailer_eq_iff)
  finally have "Compare_parsed uc ?a ?b = 0 \<longleftrightarrow> cmp_Equal uc (take (length a - 8) a) (take (length b - 8) b)
      \<and> drop (length a - 8) a = drop (length b - 8) b"
    using assms(1) by (simp add: ikey_parsed_def user_comparator_def user_comparator_axioms_def)
  moreover have "sgn (Compare_parsed uc ?b ?a) = - sgn (Compare_parsed uc ?a ?b)"
    by (rule three_way.sign_flip [OF tw]) simp_all
  moreover have "Compare_parsed uc ?a ?b \<le> 0 \<and> Compare_parsed uc ?b (ikey_parsed c) \<le> 0 \<longrightarrow>
      Compare_parsed uc ?a (ikey_parsed c) \<le> 0"
    using three_way.le_trans [OF tw, of ?a ?b "ikey_parsed c"] by simp
  ultimately show ?thesis using assms(2-4) by (simp add: Compare_eq_parsed)
qed

theorem internal_key_order_total_witness:
  "\<exists>r. InternalKeyComparator_Compare True slice_order_comparator (replicate 8 1) (replicate 9 2) = Inr r"
  using internal_key_order_total [OF slice_order.user_comparator_axioms,
      of "replicate 8 1" "replicate 9 2" "replicate 8 3" True] by auto

text \<open>
  C9: the separators and successors of internal keys, over a user comparator that keeps its documented laws and keys of at least eight bytes. Both replace the user key by what the
  user comparator proposes, with the largest sequence number and the type of seeks, when the proposal is not longer and is larger, and leave the key as it is otherwise.
  \<open>FindShortSuccessor\<close> always returns, with a key that is not below the given one and not longer. \<open>FindShortestSeparator\<close> returns when the \<^emph>\<open>user\<close> key of \<open>start\<close>
  is below that of \<open>limit\<close>, with a key from \<open>start\<close> up to, and excluding, \<open>limit\<close> that is not longer than \<open>start\<close>. When it is not, which includes keys that are
  ordered by their sequence numbers only, the user comparator promises nothing about its proposal: if that is not longer and larger, the assertion that the result
  is below \<open>limit\<close> fails; otherwise \<open>start\<close> is returned unchanged.
\<close>

theorem separator_and_successor_contract:
  fixes uc :: Comparator and start limit :: "byte list"
  assumes uc: "user_comparator uc" and len: "8 \<le> length start" "8 \<le> length limit"
  defines "us \<equiv> take (length start - 8) start" and "ul \<equiv> take (length limit - 8) limit"
  defines "shortened t \<equiv> if length t \<le> length us \<and> cmp_Compare uc us t < 0
    then ikey_bytes \<lparr>pik_user_key = t, pik_sequence = kMaxSequenceNumber, pik_type = kValueTypeForSeek\<rparr> else start"
  shows "(let k = shortened (cmp_FindShortSuccessor uc us) in FindShortSuccessor le uc start = Inr k \<and>
      (\<exists>r. InternalKeyComparator_Compare le uc start k = Inr r \<and> r \<le> 0) \<and> length k \<le> length start) \<and>
    (let s = shortened (cmp_FindShortestSeparator uc us ul) in
      if cmp_Compare uc us ul < 0 then FindShortestSeparator le uc start limit = Inr s \<and>
        (\<exists>r. InternalKeyComparator_Compare le uc start s = Inr r \<and> r \<le> 0) \<and>
        (\<exists>r. InternalKeyComparator_Compare le uc s limit = Inr r \<and> r < 0) \<and> length s \<le> length start
      else if s = start then FindShortestSeparator le uc start limit = Inr start
      else FindShortestSeparator le uc start limit = Inl AssertFailed)"
proof -
  note three = three_wayI [OF uc]
  have u: "pik_user_key (ikey_parsed start) = us" "pik_user_key (ikey_parsed limit) = ul" "length start = length us + 8"
    using len by (simp_all add: ikey_parsed_def us_def ul_def)
  have refl: "Compare_parsed uc (ikey_parsed start) (ikey_parsed start) = 0" "cmp_Compare uc us us = 0"
    using three_way.refl [OF three_way_Compare_parsed [OF three]] three_way.refl [OF three] by simp_all
  have seek: "pik_user_key (ikey_parsed (ikey_bytes (seek_key u))) = u" for u
    by (simp add: ikey_parsed_bytes) (simp add: seek_key_def)
  have cmp: "InternalKeyComparator_Compare le uc x y = Inr (Compare_parsed uc (ikey_parsed x) (ikey_parsed y))"
    if "8 \<le> length x" "8 \<le> length y" for x y using that by (rule Compare_eq_parsed)
  have sh: "shortened t = (if length t \<le> length us \<and> cmp_Compare uc us t < 0 then ikey_bytes (seek_key t) else start)" for t
    by (simp add: shortened_def seek_key_def)
  have l: "8 \<le> length (shortened t)" "length (shortened t) \<le> length start" for t
    using u(3) by (simp_all add: sh) (simp_all add: seek_key_def)
  have le: "Compare_parsed uc (ikey_parsed start) (ikey_parsed (shortened t)) \<le> 0" for t
    using refl(1) Compare_parsed_user_less [of uc "ikey_parsed start"] by (auto simp: sh u seek less_imp_le)
  have less: "Compare_parsed uc (ikey_parsed (shortened (cmp_FindShortestSeparator uc us ul))) (ikey_parsed limit) < 0"
    if "cmp_Compare uc us ul < 0"
    using user_comparator.separator [OF uc that] that
    by (intro Compare_parsed_user_less) (simp add: sh u seek)
  let ?t = "cmp_FindShortestSeparator uc us ul"
  have succ: "FindShortSuccessor le uc start = Inr (shortened (cmp_FindShortSuccessor uc us))"
    using len Compare_parsed_user_less [of uc "ikey_parsed start"]
    by (auto simp: FindShortSuccessor_def ExtractUserKey_ok u seek_key_bytes cmp sh seek Let_def)
  have sep: "FindShortestSeparator le uc start limit =
      require (length ?t \<le> length us \<and> cmp_Compare uc us ?t < 0 \<longrightarrow> Compare_parsed uc (ikey_parsed (shortened ?t)) (ikey_parsed limit) < 0)
        (Inr (shortened ?t))"
    using len Compare_parsed_user_less [of uc "ikey_parsed start"]
    by (auto simp: FindShortestSeparator_def ExtractUserKey_ok u seek_key_bytes cmp sh seek Let_def require_def)
  have other: "\<not> Compare_parsed uc (ikey_parsed (shortened ?t)) (ikey_parsed limit) < 0 \<and> shortened ?t \<noteq> start"
    if "\<not> cmp_Compare uc us ul < 0" "length ?t \<le> length us" "cmp_Compare uc us ?t < 0"
  proof
    have "cmp_Compare uc ul ?t < 0"
      using three_way.le_less_trans [OF three, of ul us ?t] three_way.flip_le [OF three, of us ul] that by simp
    then have "Compare_parsed uc (ikey_parsed limit) (ikey_parsed (shortened ?t)) < 0"
      using that by (intro Compare_parsed_user_less) (simp add: sh u seek)
    then show "\<not> Compare_parsed uc (ikey_parsed (shortened ?t)) (ikey_parsed limit) < 0"
      using three_way.strict_weak_order(2) [OF three_way_Compare_parsed [OF three]] by blast
    show "shortened ?t \<noteq> start" using that(2,3) refl(2) seek [of ?t] u(1) by (auto simp: sh)
  qed
  have same: "shortened ?t = start" if "\<not> (length ?t \<le> length us \<and> cmp_Compare uc us ?t < 0)" using that by (simp only: sh if_False)
  show ?thesis
    unfolding Let_def
  proof (intro conjI)
    let ?k = "shortened (cmp_FindShortSuccessor uc us)"
    show "FindShortSuccessor le uc start = Inr ?k" "length ?k \<le> length start" by (fact succ, fact l)
    show "\<exists>r. InternalKeyComparator_Compare le uc start ?k = Inr r \<and> r \<le> 0" using cmp [OF len(1) l(1)] le by simp
    show "if cmp_Compare uc us ul < 0 then FindShortestSeparator le uc start limit = Inr (shortened ?t) \<and>
        (\<exists>r. InternalKeyComparator_Compare le uc start (shortened ?t) = Inr r \<and> r \<le> 0) \<and>
        (\<exists>r. InternalKeyComparator_Compare le uc (shortened ?t) limit = Inr r \<and> r < 0) \<and> length (shortened ?t) \<le> length start
      else if shortened ?t = start then FindShortestSeparator le uc start limit = Inr start
      else FindShortestSeparator le uc start limit = Inl AssertFailed"
      using sep less le [of ?t] l [of ?t] cmp [OF len(1) l(1) [of ?t]] cmp [OF l(1) [of ?t] len(2)] other same by (auto simp: require_def)
  qed
qed

text \<open>
  Two keys with the user key \<open>a\<close>, the first with the larger sequence number, and a comparator that keeps its laws and proposes \<open>c\<close> for equal keys.
\<close>

definition eager_comparator :: Comparator where
  "eager_comparator =
     Comparator_defaults 0 0 (bytes_of_string ''eager'') bytes_compare (\<lambda>start limit. if start = limit then [99] else start) (\<lambda>key. key)"

interpretation eager: user_comparator eager_comparator
  using three_way_bytes_compare
  by (auto simp: user_comparator_def user_comparator_axioms_def eager_comparator_def Comparator_defaults_def)

theorem separator_and_successor_contract_witness:
  "FindShortestSeparator True slice_order_comparator (1 # replicate 8 0) (2 # replicate 8 0) = Inr (1 # replicate 8 0) \<and>
   InternalKeyComparator_Compare True eager_comparator [97, 1, 2, 0, 0, 0, 0, 0, 0] [97, 1, 1, 0, 0, 0, 0, 0, 0] = Inr (- 1) \<and>
   FindShortestSeparator True eager_comparator [97, 1, 2, 0, 0, 0, 0, 0, 0] [97, 1, 1, 0, 0, 0, 0, 0, 0] = Inl AssertFailed"
proof (intro conjI)
  have c: "cmp_Compare slice_order_comparator [1] [2] < 0" "cmp_Compare slice_order_comparator [1] [1] = 0"
    "cmp_FindShortestSeparator slice_order_comparator [1] [2] = [1]" by code_simp+
  show "FindShortestSeparator True slice_order_comparator (1 # replicate 8 0) (2 # replicate 8 0) = Inr (1 # replicate 8 0)"
    using separator_and_successor_contract [OF slice_order.user_comparator_axioms,
        of "1 # replicate 8 0" "2 # replicate 8 0" True] c by (simp add: Let_def)
  show "InternalKeyComparator_Compare True eager_comparator [97, 1, 2, 0, 0, 0, 0, 0, 0] [97, 1, 1, 0, 0, 0, 0, 0, 0] = Inr (- 1)"
    by code_simp
  have e: "cmp_FindShortestSeparator eager_comparator [97] [97] = [99]" "cmp_Compare eager_comparator [97] [97] = 0"
    "cmp_Compare eager_comparator [97] [99] < 0" by code_simp+
  have "ikey_bytes \<lparr>pik_user_key = [99], pik_sequence = kMaxSequenceNumber, pik_type = kValueTypeForSeek\<rparr> \<noteq> [97, 1, 2, 0, 0, 0, 0, 0, 0]"
    by (simp add: ikey_bytes_def)
  then show "FindShortestSeparator True eager_comparator [97, 1, 2, 0, 0, 0, 0, 0, 0] [97, 1, 1, 0, 0, 0, 0, 0, 0] = Inl AssertFailed"
    using separator_and_successor_contract [OF eager.user_comparator_axioms,
        of "[97, 1, 2, 0, 0, 0, 0, 0, 0]" "[97, 1, 1, 0, 0, 0, 0, 0, 0]" True] e by (simp add: Let_def)
qed

text \<open>
  on a cleared key, \<open>SetMinPossibleForUserKey\<close> and \<open>SetMaxPossibleForUserKey\<close> give keys that
  bound, from below and above, every valid internal key with that user key.
\<close>

theorem min_max_possible_bounds:
  assumes uc: "user_comparator uc" and enc: "AppendInternalKey le [] key = Inr enc"
  shows "\<exists>mn mx r1 r2. SetMinPossibleForUserKey le (ik_Clear k) (pik_user_key key) = Inr mn \<and>
    SetMaxPossibleForUserKey le (ik_Clear k) (pik_user_key key) = Inr mx \<and>
    InternalKeyComparator_Compare le uc (ik_rep mn) enc = Inr r1 \<and> r1 \<le> 0 \<and>
    InternalKeyComparator_Compare le uc enc (ik_rep mx) = Inr r2 \<and> r2 \<le> 0"
proof -
  have ok: "pik_ok key" and e: "enc = ikey_bytes key"
  proof -
    show "pik_ok key" using enc
      by (auto simp: AppendInternalKey_def res_bind_eq_Inr PackSequenceAndType_def require_eq_Inr pik_ok_def)
    then show "enc = ikey_bytes key" using enc by (simp add: AppendInternalKey_ok)
  qed
  let ?mx = "\<lparr>pik_user_key = pik_user_key key, pik_sequence = 0, pik_type = 0\<rparr>"
  have mx: "pik_ok ?mx" by (simp add: pik_ok_def)
  have refl: "cmp_Compare uc (pik_user_key key) (pik_user_key key) = 0"
    by (rule three_way.refl [OF three_wayI [OF uc]]) simp
  have "Compare_parsed uc (seek_key (pik_user_key key)) key \<le> 0"
    using ok extended_type_le [of "pik_type key"]
    by (auto simp: Compare_parsed_alt seq_type_compare_def seek_key_def refl pik_ok_def not_less)
  moreover have "Compare_parsed uc key ?mx \<le> 0"
    by (auto simp: Compare_parsed_alt seq_type_compare_def refl word_neq_0_conv)
  ultimately show ?thesis
    using ok mx pik_ok_seek_key [of "pik_user_key key"]
    by (simp add: SetMinPossibleForUserKey_def SetMaxPossibleForUserKey_def ik_Clear_def e
        AppendInternalKey_ok Compare_eq_parsed ikey_parsed_bytes flip: seek_key_def)
qed

theorem min_max_possible_bounds_witness:
  "\<exists>mn. SetMinPossibleForUserKey True InternalKey_default [107] = Inr mn"
proof -
  have enc: "AppendInternalKey True [] \<lparr>pik_user_key = [107], pik_sequence = 9, pik_type = 1\<rparr>
      = Inr [107, 1, 9, 0, 0, 0, 0, 0, 0]" by code_simp
  show ?thesis
    using min_max_possible_bounds [OF slice_order.user_comparator_axioms enc, of InternalKey_default]
    by (auto simp: ik_Clear_def InternalKey_default_def)
qed

text \<open>
  \<open>UpdateInternalKey\<close> keeps the length and the user key and replaces sequence number and type
  by the new ones, which the accessors then read.
\<close>

theorem update_internal_key:
  assumes "8 \<le> length ikey" "seq \<le> kMaxSequenceNumber"
  shows "\<exists>ikey'. UpdateInternalKey le ikey seq t = Inr ikey' \<and> length ikey' = length ikey \<and>
    ExtractUserKey ikey' = ExtractUserKey ikey \<and> GetInternalKeySeqno le ikey' = Inr seq \<and>
    ExtractValueType le ikey' = Inr t"
proof -
  let ?k = "ikey_bytes \<lparr>pik_user_key = take (length ikey - 8) ikey, pik_sequence = seq, pik_type = t\<rparr>"
  have "UpdateInternalKey le ikey seq t = Inr ?k"
    using assms(1) by (simp add: UpdateInternalKey_def codec_simps write_bytes_def ikey_bytes_def Let_def)
  moreover have "length ?k = length ikey" using assms(1) by simp
  moreover from this have "DecodeFixed64 le ?k (length ikey - 8) = Inr (ikey_trailer ?k)"
    using DecodeFixed64_trailer [of ?k le] assms(1) by simp
  moreover have "ikey_trailer ?k = push_bit 8 seq OR ucast t"
    by (simp add: ikey_trailer_def ikey_bytes_def)
  ultimately show ?thesis
    using assms trailer_seq [OF assms(2), of t]
    by (simp add: ExtractUserKey_def GetInternalKeySeqno_def ExtractValueType_def Let_def
        ExtractInternalKeyFooter_def) (simp add: ikey_bytes_def)
qed

theorem update_internal_key_witness:
  "\<exists>ikey'. UpdateInternalKey True (107 # replicate 8 0) 5 kTypeValue = Inr ikey' \<and>
     GetInternalKeySeqno True ikey' = Inr 5"
proof -
  have "(5 :: u64) \<le> kMaxSequenceNumber" by code_simp
  then show ?thesis using update_internal_key [of "107 # replicate 8 0" 5 True kTypeValue] by auto
qed

text \<open>
  the extractor over internal keys works on the user key: for a key in its domain it returns
  a prefix of the user key. Its \<open>InRange\<close>, which strips eight bytes again, hits the assertion of
  \<open>ExtractUserKey\<close> on every prefix that \<open>Transform\<close> returns with fewer than eight bytes, and is false for the rest.
\<close>

theorem internal_prefix_extractor:
  assumes "slice_wf s" "n + 8 \<le> length (slice_bytes s)"
  shows "\<exists>r. st_InDomain (InternalKeySliceTransform (NewFixedPrefixTransform n)) s = Inr True \<and>
    st_Transform (InternalKeySliceTransform (NewFixedPrefixTransform n)) s = Inr r \<and>
    slice_bytes r = take n (slice_bytes s) \<and>
    st_InRange (InternalKeySliceTransform (NewFixedPrefixTransform n)) r =
      (if n < 8 then Inl AssertFailed else Inr False)"
proof -
  have "n \<le> sl_size s - 8" "8 \<le> sl_size s" "n \<le> sl_size s" using assms by simp_all
  with slice_ptr_prefix(2) [OF assms(1), of n] show ?thesis
    by (auto simp: InternalKeySliceTransform_def NewFixedPrefixTransform_def Fixed_InDomain_def
        ExtractUserKey_slice_def Slice_ptr_def)
qed

theorem internal_prefix_extractor_witness:
  "\<exists>r. st_Transform (InternalKeySliceTransform (NewFixedPrefixTransform 1)) (Slice_string (replicate 9 7)) = Inr r
    \<and> st_InRange (InternalKeySliceTransform (NewFixedPrefixTransform 1)) r = Inl AssertFailed"
  using internal_prefix_extractor [of "Slice_string (replicate 9 7)" 1] by auto

text \<open>
  a range tombstone survives serialisation: parsing the key it serialises to and building the
  tombstone from the parsed key and the value gives the same tombstone. Its end key compares at or
  below every key with the end user key whose sequence number is below the maximum.
\<close>

theorem range_tombstone_roundtrip:
  assumes "user_comparator uc" "rt_seq t \<le> kMaxSequenceNumber"
    and key: "AppendInternalKey le [] key = Inr enc" "pik_user_key key = rt_end_key t"
      "pik_sequence key \<noteq> kMaxSequenceNumber"
  shows "\<exists>k p e r. rt_Serialize le t = Inr (k, rt_end_key t) \<and>
    ParseInternalKey le (ik_rep k) = Inr (True, Some p) \<and>
    RangeTombstone_parsed p (rt_end_key t) = t \<and>
    rt_SerializeEndKey le t = Inr e \<and>
    InternalKeyComparator_Compare le uc (ik_rep e) enc = Inr r \<and> r < 0"
proof -
  let ?p = "\<lparr>pik_user_key = rt_start_key t, pik_sequence = rt_seq t, pik_type = kTypeRangeDeletion\<rparr>"
  let ?e = "\<lparr>pik_user_key = rt_end_key t, pik_sequence = kMaxSequenceNumber, pik_type = kTypeRangeDeletion\<rparr>"
  have ok: "pik_ok ?p" "pik_ok ?e" using assms(2) by (simp_all add: pik_ok_def)
  have k: "pik_ok key" using key(1)
    by (auto simp: AppendInternalKey_def res_bind_eq_Inr PackSequenceAndType_def require_eq_Inr pik_ok_def)
  then have enc: "enc = ikey_bytes key" using key(1) by (simp add: AppendInternalKey_ok)
  have "cmp_Compare uc (rt_end_key t) (rt_end_key t) = 0"
    by (rule three_way.refl [OF three_wayI [OF assms(1)]]) simp
  then have "Compare_parsed uc ?e key < 0"
    using k key(2,3) by (simp add: Compare_parsed_alt seq_type_compare_def pik_ok_def order_less_le)
  moreover have "rt_Serialize le t = Inr (\<lparr>ik_rep = ikey_bytes ?p\<rparr>, rt_end_key t)"
    "rt_SerializeEndKey le t = Inr \<lparr>ik_rep = ikey_bytes ?e\<rparr>"
    using ok by (simp_all add: rt_Serialize_def rt_SerializeEndKey_def InternalKey_ctor_def AppendInternalKey_ok)
  moreover have "ParseInternalKey le (ikey_bytes ?p) = Inr (True, Some ?p)"
    using ok(1) by (simp add: ParseInternalKey_eq ikey_parsed_bytes)
  moreover have "RangeTombstone_parsed ?p (rt_end_key t) = t" by (simp add: RangeTombstone_parsed_def)
  ultimately show ?thesis
    using ok k by (simp add: Compare_eq_parsed ikey_parsed_bytes enc)
qed

theorem range_tombstone_roundtrip_witness:
  "\<exists>k. rt_Serialize True \<lparr>rt_start_key = [97], rt_end_key = [107], rt_seq = 3\<rparr> = Inr (k, [107])"
proof -
  have "AppendInternalKey True [] \<lparr>pik_user_key = [107], pik_sequence = 9, pik_type = 1\<rparr>
      = Inr [107, 1, 9, 0, 0, 0, 0, 0, 0]" "(3 :: u64) \<le> kMaxSequenceNumber" "9 \<noteq> kMaxSequenceNumber"
    by code_simp+
  then show ?thesis
    using range_tombstone_roundtrip [OF slice_order.user_comparator_axioms,
        of "\<lparr>rt_start_key = [97], rt_end_key = [107], rt_seq = 3\<rparr>" True
          "\<lparr>pik_user_key = [107], pik_sequence = 9, pik_type = 1\<rparr>"] by auto
qed

end
