(* ===== verification/Randoms.thy ===== *)
theory Randoms
  imports Prelude
begin

text \<open>
  \<open>include/random.h\<close>: the Lehmer generator \<open>Random\<close>, and \<open>Random32\<close>, \<open>Random64\<close> and \<open>RandomShuffle\<close> over the
  engines of the standard library.

  The engine behind \<open>Random32\<close> and \<open>Random64\<close>, the uniform distribution and \<open>std::shuffle\<close> are arguments:
  a step function on engine states, a function from bounds and engine state, a function on lists. Rand_A
  generator operation returns its result and the new state.
\<close>

section \<open>Random\<close>

definition Rand_M :: u32 where "Rand_M = 2147483647"

definition Rand_A :: u64 where "Rand_A = 16807"

definition kMaxNext :: u32 where "kMaxNext = Rand_M"

definition GoodSeed :: "u32 \<Rightarrow> u32" where
  "GoodSeed s = (if s AND Rand_M \<noteq> 0 then s AND Rand_M else 1)"

record Random =
  rnd_seed :: u32

definition Random_ctor :: "u32 \<Rightarrow> Random" where
  "Random_ctor s = \<lparr>rnd_seed = GoodSeed s\<rparr>"

definition Random_Reset :: "Random \<Rightarrow> u32 \<Rightarrow> Random" where
  "Random_Reset r s = r\<lparr>rnd_seed := GoodSeed s\<rparr>"

definition Random_Next :: "Random \<Rightarrow> u32 \<times> Random" where
  "Random_Next r =
     (let product = ucast (rnd_seed r) * Rand_A;
          seed = ucast (drop_bit 31 product + (product AND ucast Rand_M)) :: u32;
          seed = (if seed > Rand_M then seed - Rand_M else seed) in
      (seed, r\<lparr>rnd_seed := seed\<rparr>))"

text \<open>An \<open>int\<close> argument is a word read as signed; the remainder converts it to \<open>uint32_t\<close>.\<close>

definition Random_Uniform :: "Random \<Rightarrow> u32 \<Rightarrow> (u32 \<times> Random) res" where
  "Random_Uniform r n =
     (let (x, r) = Random_Next r in if n = 0 then Inl DivisionByZero else Inr (x mod n, r))"

definition Random_OneIn :: "Random \<Rightarrow> u32 \<Rightarrow> (bool \<times> Random) res" where
  "Random_OneIn r n = res_bind (Random_Uniform r n) (\<lambda>(x, r). Inr (x = 0, r))"

definition Random_OneInOpt :: "Random \<Rightarrow> u32 \<Rightarrow> (bool \<times> Random) res" where
  "Random_OneInOpt r n = (if sint n > 0 then Random_OneIn r n else Inr (False, r))"

definition Random_PercentTrue :: "Random \<Rightarrow> u32 \<Rightarrow> (bool \<times> Random) res" where
  "Random_PercentTrue r percentage = res_bind (Random_Uniform r 100) (\<lambda>(x, r). Inr (sint x < sint percentage, r))"

text \<open>\<open>1 << s\<close> on \<open>int\<close>.\<close>

definition shl1 :: "u32 \<Rightarrow> u32 res" where
  "shl1 s = (if unat s < 32 then Inr (push_bit (unat s) 1) else Inl BadShift)"

definition Random_Skewed :: "Random \<Rightarrow> u32 \<Rightarrow> (u32 \<times> Random) res" where
  "Random_Skewed r max_log =
     res_bind (Random_Uniform r (max_log + 1)) (\<lambda>(s, r).
     res_bind (shl1 s) (\<lambda>n. Random_Uniform r n))"

section \<open>Random32 and Random64\<close>

text \<open>
  \<open>gen\<close> is \<open>operator()\<close> of the engine, \<open>dist lo hi\<close> the call of a \<open>std::uniform_int_distribution\<close> with
  those bounds.
\<close>

definition Random32_Next :: "('g \<Rightarrow> u32 \<times> 'g) \<Rightarrow> 'g \<Rightarrow> u32 \<times> 'g" where
  "Random32_Next gen g = gen g"

definition Random32_Uniform :: "(u32 \<Rightarrow> u32 \<Rightarrow> 'g \<Rightarrow> u32 \<times> 'g) \<Rightarrow> 'g \<Rightarrow> u32 \<Rightarrow> u32 \<times> 'g" where
  "Random32_Uniform dist g n = dist 0 (n - 1) g"

definition Random32_Uniformish :: "('g \<Rightarrow> u32 \<times> 'g) \<Rightarrow> 'g \<Rightarrow> u32 \<Rightarrow> u32 \<times> 'g" where
  "Random32_Uniformish gen g n =
     (let (x, g) = gen g in (ucast (drop_bit 32 (ucast x * ucast n :: u64)), g))"

definition Random32_OneIn :: "(u32 \<Rightarrow> u32 \<Rightarrow> 'g \<Rightarrow> u32 \<times> 'g) \<Rightarrow> 'g \<Rightarrow> u32 \<Rightarrow> bool \<times> 'g" where
  "Random32_OneIn dist g n = (let (x, g) = Random32_Uniform dist g n in (x = 0, g))"

definition Random32_Skewed :: "(u32 \<Rightarrow> u32 \<Rightarrow> 'g \<Rightarrow> u32 \<times> 'g) \<Rightarrow> 'g \<Rightarrow> u32 \<Rightarrow> (u32 \<times> 'g) res" where
  "Random32_Skewed dist g max_log =
     (let (s, g) = Random32_Uniform dist g (max_log + 1) in
      res_bind (shl1 s) (\<lambda>n. Inr (Random32_Uniform dist g n)))"

definition Random64_Next :: "('g \<Rightarrow> u64 \<times> 'g) \<Rightarrow> 'g \<Rightarrow> u64 \<times> 'g" where
  "Random64_Next gen g = gen g"

definition Random64_Uniform :: "(u64 \<Rightarrow> u64 \<Rightarrow> 'g \<Rightarrow> u64 \<times> 'g) \<Rightarrow> 'g \<Rightarrow> u64 \<Rightarrow> u64 \<times> 'g" where
  "Random64_Uniform dist g n = dist 0 (n - 1) g"

definition Random64_OneIn :: "(u64 \<Rightarrow> u64 \<Rightarrow> 'g \<Rightarrow> u64 \<times> 'g) \<Rightarrow> 'g \<Rightarrow> u64 \<Rightarrow> bool \<times> 'g" where
  "Random64_OneIn dist g n = (let (x, g) = Random64_Uniform dist g n in (x = 0, g))"

text \<open>\<open>max_log + 1\<close> is computed as an \<open>int\<close> and converted to \<open>uint64_t\<close>.\<close>

definition Random64_Skewed :: "(u64 \<Rightarrow> u64 \<Rightarrow> 'g \<Rightarrow> u64 \<times> 'g) \<Rightarrow> 'g \<Rightarrow> u32 \<Rightarrow> (u64 \<times> 'g) res" where
  "Random64_Skewed dist g max_log =
     (let (s, g) = Random64_Uniform dist g (scast (max_log + 1)) in
      if unat s < 64 then Inr (Random64_Uniform dist g (push_bit (unat s) 1)) else Inl BadShift)"

text \<open>\<open>seed_engine\<close> constructs the engine, \<open>shuffle\<close> is \<open>std::shuffle\<close>.\<close>

definition RandomShuffle :: "(u32 \<Rightarrow> 'g) \<Rightarrow> ('g \<Rightarrow> 'a list \<Rightarrow> 'a list) \<Rightarrow> 'a list \<Rightarrow> u32 \<Rightarrow> 'a list" where
  "RandomShuffle seed_engine shuffle xs seed = shuffle (seed_engine seed) xs"

section \<open>One step of the generator\<close>

text \<open>The modulus, the multiplier and its inverse as numbers.\<close>

definition mm :: nat where "mm = 2147483647"

lemma mm_consts: "unat Rand_M = mm" "16807 * 1407677000 mod mm = 1"
  by (simp_all add: Rand_M_def mm_def)

lemma fold_reduction:
  assumes "p = q * 2147483648 + r" shows "p mod mm = (q + r) mod mm"
proof -
  have "p = (q + r) + mm * q" using assms by (simp add: mm_def)
  then show ?thesis by simp
qed

lemma mult_A_nonzero:
  assumes "0 < s" "s < mm" shows "0 < s * 16807 mod mm"
proof (rule ccontr)
  assume "\<not> 0 < s * 16807 mod mm"
  then have "mm dvd s * 16807" by (simp add: mod_eq_0_iff_dvd)
  then have "mm dvd s * 16807 * 1407677000" by (rule dvd_mult2)
  also have "s * 16807 * 1407677000 = s + mm * (11017 * s)" by (simp add: mm_def)
  finally have "mm dvd s" by (simp add: dvd_add_left_iff)
  with assms show False by (auto dest: dvd_imp_le)
qed

lemma reduce_once: "t < 2 * m \<Longrightarrow> t \<noteq> m \<Longrightarrow> (if t > m then t - m else t) = t mod (m :: nat)"
  by (cases "m < t") (simp_all add: le_mod_geq)

lemma mask31: "unat (x AND (2147483647 :: u64)) = unat x mod 2147483648"
proof -
  have "x AND 2147483647 = take_bit 31 x" by (simp add: take_bit_eq_mask mask_eq_exp_minus_1)
  then show ?thesis by (simp add: unsigned_take_bit_eq) (simp add: take_bit_eq_mod)
qed

lemma unat_product:
  assumes "unat (s :: u32) \<le> mm"
  shows "unat (ucast s * Rand_A) = unat s * 16807"
proof -
  have "unat (ucast s :: u64) = unat s" by (simp add: unsigned_ucast_eq take_bit_nat_eq_self_iff)
      (use unsigned_less [of s, where ?'a = nat] in simp)
  moreover have "unat s * 16807 < 2 ^ 64" using assms by (simp add: mm_def)
  ultimately show ?thesis by (simp add: Rand_A_def unat_word_ariths)
qed

lemma Next_unat:
  assumes "unat (rnd_seed r) \<le> mm"
  shows "unat (fst (Random_Next r)) =
    (let p = unat (rnd_seed r) * 16807; t = p div 2147483648 + p mod 2147483648 in if t > mm then t - mm else t)"
    and "rnd_seed (snd (Random_Next r)) = fst (Random_Next r)"
proof -
  let ?p = "ucast (rnd_seed r) * Rand_A"
  let ?t = "drop_bit 31 ?p + (?p AND ucast Rand_M)"
  let ?n = "unat (rnd_seed r) * 16807"
  have p: "unat ?p = ?n" by (rule unat_product [OF assms])
  have m: "(ucast Rand_M :: u64) = 2147483647" by (simp add: Rand_M_def)
  have small: "?n div 2147483648 + ?n mod 2147483648 < 2 ^ 32"
  proof -
    have "?n div 2147483648 \<le> 16807 * mm div 2147483648" using assms by (intro div_le_mono) simp
    then have "?n div 2147483648 \<le> 16806" by (simp add: mm_def)
    moreover have "?n mod 2147483648 < 2147483648" by simp
    ultimately show ?thesis by simp
  qed
  have t: "unat ?t = ?n div 2147483648 + ?n mod 2147483648"
  proof -
    have "unat (drop_bit 31 ?p) = ?n div 2147483648" by (simp add: unat_drop_bit_div p)
    moreover have "unat (?p AND ucast Rand_M) = ?n mod 2147483648" by (simp add: m mask31 p)
    ultimately show ?thesis using small by (subst unat_word_ariths) simp
  qed
  then have s: "unat (ucast ?t :: u32) = ?n div 2147483648 + ?n mod 2147483648"
    using small by (simp add: unsigned_ucast_eq take_bit_nat_eq_self_iff)
  show "unat (fst (Random_Next r)) = (let p = ?n; t = p div 2147483648 + p mod 2147483648 in if t > mm then t - mm else t)"
    using s by (simp add: Random_Next_def Let_def word_less_nat_alt mm_consts unat_sub_if')
  show "rnd_seed (snd (Random_Next r)) = fst (Random_Next r)" by (simp add: Random_Next_def Let_def)
qed

lemma Next_good:
  assumes "0 < unat (rnd_seed r)" "unat (rnd_seed r) < mm"
  shows "unat (fst (Random_Next r)) = unat (rnd_seed r) * 16807 mod mm" "0 < unat (fst (Random_Next r))" "unat (fst (Random_Next r)) < mm"
proof -
  let ?p = "unat (rnd_seed r) * 16807"
  let ?t = "?p div 2147483648 + ?p mod 2147483648"
  have eq: "?p mod mm = ?t mod mm" by (rule fold_reduction) simp
  have pos: "0 < ?p mod mm" by (rule mult_A_nonzero [OF assms])
  have "?p div 2147483648 \<le> 16807 * mm div 2147483648" using assms by (intro div_le_mono) simp
  then have "?p div 2147483648 \<le> 16806" by (simp add: mm_def)
  then have lt: "?t < 2 * mm" using mod_less_divisor [of 2147483648 ?p] by (simp add: mm_def)
  have ne: "?t \<noteq> mm" using eq pos by auto
  have "(if ?t > mm then ?t - mm else ?t) = ?t mod mm"
    by (rule reduce_once [OF lt ne])
  then show "unat (fst (Random_Next r)) = ?p mod mm"
    using Next_unat(1) [of r] assms(2) eq by (simp add: Let_def)
  then show "0 < unat (fst (Random_Next r))" "unat (fst (Random_Next r)) < mm" using pos by (simp_all add: mm_def)
qed

section \<open>The period of the generator\<close>

text \<open>Powers by repeated squaring over the binary digits of the exponent, least significant first.\<close>

fun powmod :: "int \<Rightarrow> int \<Rightarrow> int list \<Rightarrow> int" where
  "powmod m b [] = 1 mod m"
| "powmod m b (x # xs) = (let r = powmod m (b * b mod m) xs in if x = 1 then b * r mod m else r)"

fun digits_value :: "int list \<Rightarrow> nat" where
  "digits_value [] = 0"
| "digits_value (x # xs) = (if x = 1 then 1 else 0) + 2 * digits_value xs"

lemma powmod_eq: "powmod m b xs = b ^ digits_value xs mod m"
proof (induction m b xs rule: powmod.induct)
  case (2 m b x xs)
  have "powmod m (b * b mod m) xs = b ^ (2 * digits_value xs) mod m"
    using 2 by (simp add: power_mod power_mult power2_eq_square)
  then show ?case by (simp add: Let_def power_add mod_mult_right_eq)
qed simp

text \<open>The order of the multiplicative group, \<open>mm - 1\<close>, which is \<open>2 * 3 * 3 * 7 * 11 * 31 * 151 * 331\<close>.\<close>

definition nn :: nat where "nn = 2147483646"

lemma power_A_digits:
  assumes "e = digits_value xs"
  shows "16807 ^ e mod mm = 1 \<longleftrightarrow> powmod 2147483647 16807 xs = 1"
proof -
  have "int (16807 ^ e mod mm) = powmod 2147483647 16807 xs"
    unfolding powmod_eq assms by (simp only: zmod_int of_nat_power) (simp add: mm_def)
  then show ?thesis by (metis of_nat_1 of_nat_eq_iff)
qed

lemma order_1: "16807 ^ (nn) mod mm = 1"
proof -
  let ?xs = "[0, 1, 1, 1, 1, 1, 1, 1, 1, 1, 1, 1, 1, 1, 1, 1, 1, 1, 1, 1, 1, 1, 1, 1, 1, 1, 1, 1, 1, 1, 1]"
  have e: "nn = digits_value ?xs" by (simp add: nn_def)
  have "powmod 2147483647 16807 ?xs = 1" by code_simp
  then show ?thesis using power_A_digits [OF e] by blast
qed

lemma order_2: "16807 ^ (nn div 2) mod mm \<noteq> 1"
proof -
  let ?xs = "[1, 1, 1, 1, 1, 1, 1, 1, 1, 1, 1, 1, 1, 1, 1, 1, 1, 1, 1, 1, 1, 1, 1, 1, 1, 1, 1, 1, 1, 1]"
  have e: "nn div 2 = digits_value ?xs" by (simp add: nn_def)
  have "powmod 2147483647 16807 ?xs \<noteq> 1" by code_simp
  then show ?thesis using power_A_digits [OF e] by blast
qed

lemma order_3: "16807 ^ (nn div 3) mod mm \<noteq> 1"
proof -
  let ?xs = "[0, 1, 0, 1, 0, 1, 0, 1, 0, 1, 0, 1, 0, 1, 0, 1, 0, 1, 0, 1, 0, 1, 0, 1, 0, 1, 0, 1, 0, 1]"
  have e: "nn div 3 = digits_value ?xs" by (simp add: nn_def)
  have "powmod 2147483647 16807 ?xs \<noteq> 1" by code_simp
  then show ?thesis using power_A_digits [OF e] by blast
qed

lemma order_7: "16807 ^ (nn div 7) mod mm \<noteq> 1"
proof -
  let ?xs = "[0, 1, 0, 0, 1, 0, 0, 1, 0, 0, 1, 0, 0, 1, 0, 0, 1, 0, 0, 1, 0, 0, 1, 0, 0, 1, 0, 0, 1]"
  have e: "nn div 7 = digits_value ?xs" by (simp add: nn_def)
  have "powmod 2147483647 16807 ?xs \<noteq> 1" by code_simp
  then show ?thesis using power_A_digits [OF e] by blast
qed

lemma order_11: "16807 ^ (nn div 11) mod mm \<noteq> 1"
proof -
  let ?xs = "[0, 1, 0, 1, 1, 1, 0, 1, 0, 0, 0, 1, 0, 1, 1, 1, 0, 1, 0, 0, 0, 1, 0, 1, 1, 1, 0, 1]"
  have e: "nn div 11 = digits_value ?xs" by (simp add: nn_def)
  have "powmod 2147483647 16807 ?xs \<noteq> 1" by code_simp
  then show ?thesis using power_A_digits [OF e] by blast
qed

lemma order_31: "16807 ^ (nn div 31) mod mm \<noteq> 1"
proof -
  let ?xs = "[0, 1, 0, 0, 0, 0, 1, 0, 0, 0, 0, 1, 0, 0, 0, 0, 1, 0, 0, 0, 0, 1, 0, 0, 0, 0, 1]"
  have e: "nn div 31 = digits_value ?xs" by (simp add: nn_def)
  have "powmod 2147483647 16807 ?xs \<noteq> 1" by code_simp
  then show ?thesis using power_A_digits [OF e] by blast
qed

lemma order_151: "16807 ^ (nn div 151) mod mm \<noteq> 1"
proof -
  let ?xs = "[0, 1, 0, 0, 1, 1, 0, 1, 1, 0, 0, 0, 0, 0, 0, 0, 1, 0, 0, 1, 1, 0, 1, 1]"
  have e: "nn div 151 = digits_value ?xs" by (simp add: nn_def)
  have "powmod 2147483647 16807 ?xs \<noteq> 1" by code_simp
  then show ?thesis using power_A_digits [OF e] by blast
qed

lemma order_331: "16807 ^ (nn div 331) mod mm \<noteq> 1"
proof -
  let ?xs = "[0, 1, 0, 1, 1, 1, 0, 0, 1, 1, 1, 1, 1, 1, 1, 1, 0, 1, 0, 0, 0, 1, 1]"
  have e: "nn div 331 = digits_value ?xs" by (simp add: nn_def)
  have "powmod 2147483647 16807 ?xs \<noteq> 1" by code_simp
  then show ?thesis using power_A_digits [OF e] by blast
qed

lemma nn_mm: "mm = Suc nn" "1 < mm"
  by (simp_all add: mm_def nn_def)

text \<open>\<open>unity e\<close>: the multiplier to the power \<open>e\<close> is the identity modulo \<open>mm\<close>.\<close>

definition unity :: "nat \<Rightarrow> bool" where
  "unity e \<longleftrightarrow> 16807 ^ e mod mm = 1"

lemma unity_cancel: "unity e \<Longrightarrow> 16807 ^ (e + d) mod mm = 16807 ^ d mod mm"
proof -
  assume "unity e"
  have "16807 ^ (e + d) mod mm = (16807 ^ e mod mm) * (16807 ^ d) mod mm"
    by (simp only: power_add mod_mult_left_eq)
  with \<open>unity e\<close> show ?thesis by (simp add: unity_def)
qed

lemma unity_mult: "unity e \<Longrightarrow> unity (e * k)"
proof (induction k)
  case 0
  show ?case using nn_mm(2) by (simp add: unity_def)
next
  case (Suc k)
  then show ?case using unity_cancel [of e "e * k"] by (simp add: unity_def)
qed

lemma unity_gcd:
  assumes "unity d" "unity e" "d \<noteq> 0" shows "unity (gcd d e)"
proof -
  obtain x y where xy: "d * x = e * y + gcd d e" using bezout_nat [OF assms(3), of e] by blast
  have "unity (d * x)" using assms(1) by (rule unity_mult)
  then show ?thesis using unity_cancel [OF unity_mult [OF assms(2), of y], of "gcd d e"] xy by (simp add: unity_def)
qed

text \<open>A number with no divisor between 1 and itself is coprime to every number it does not divide.\<close>

lemma coprime_if_no_divisor:
  assumes "list_all (\<lambda>d. q mod d \<noteq> 0) [2..q - 1]" "0 < q" "\<not> q dvd (k :: int)"
  shows "coprime k q"
proof (rule ccontr)
  assume "\<not> coprime k q"
  then have g: "gcd k q \<noteq> 1" by (simp add: coprime_iff_gcd_eq_1)
  have "gcd k q \<le> q" using assms(2) by (simp add: zdvd_imp_le)
  moreover have "gcd k q \<noteq> q" using assms(3) by (metis gcd_dvd1)
  ultimately have le: "gcd k q \<le> q - 1" by simp
  have "0 < gcd k q" using assms(2) by simp
  moreover have "2 \<le> x" if "0 < x" "x \<noteq> 1" for x :: int using that by linarith
  ultimately have "2 \<le> gcd k q" using g by blast
  with le have "gcd k q \<in> set [2..q - 1]" by simp
  moreover have "\<forall>d \<in> set [2..q - 1]. q mod d \<noteq> 0" using assms(1) by (simp only: list_all_iff)
  ultimately have "q mod gcd k q \<noteq> 0" by (rule bspec [rotated])
  moreover have "q mod gcd k q = 0" by (simp only: mod_eq_0_iff_dvd gcd_dvd2)
  ultimately show False by contradiction
qed

lemma nn_prime_factor:
  assumes "k dvd nn" "k \<noteq> 1"
  shows "\<exists>q \<in> {2, 3, 7, 11, 31, 151, 331}. q dvd k"
proof (rule ccontr)
  assume n: "\<not> (\<exists>q \<in> {2, 3, 7, 11, 31, 151, 331}. q dvd k)"
  have c: "coprime (int k) q" if "list_all (\<lambda>d. q mod d \<noteq> 0) [2..q - 1]" "0 < q" "\<not> nat q dvd k" for q
    using that by (intro coprime_if_no_divisor) (auto simp: int_dvd_int_iff [symmetric])
  have "coprime (int k) 2" "coprime (int k) 3" "coprime (int k) 7" "coprime (int k) 11"
    "coprime (int k) 31" "coprime (int k) 151" "coprime (int k) 331"
    by (rule c, code_simp, simp, use n in simp)+
  then have "coprime (int k) (2 * 3 * 3 * 7 * 11 * 31 * 151 * 331)" by (simp only: coprime_mult_right_iff)
  then have "coprime k nn" by (simp add: nn_def flip: coprime_int_iff)
  with assms show False by (simp add: coprime_absorb_left)
qed

lemma order_factors: "\<forall>q \<in> {2, 3, 7, 11, 31, 151, 331}. 16807 ^ (nn div q) mod mm \<noteq> 1"
  unfolding ball_simps by (intro conjI TrueI order_2 order_3 order_7 order_11 order_31 order_151 order_331)

lemma unity_order:
  assumes "unity d" "0 < d" shows "nn \<le> d"
proof (rule ccontr)
  assume "\<not> nn \<le> d"
  let ?e = "gcd d nn" and ?k = "nn div gcd d nn"
  have u: "unity ?e" using unity_gcd [OF assms(1)] assms(2) order_1 by (simp add: unity_def)
  have e: "?e * ?k = nn" by simp
  have "?e \<le> d" using assms(2) by (simp add: dvd_imp_le)
  have "?k \<noteq> 1"
  proof
    assume "?k = 1"
    with e have "?e = nn" by (metis mult.right_neutral)
    with \<open>?e \<le> d\<close> \<open>\<not> nn \<le> d\<close> show False by simp
  qed
  moreover have "?k dvd nn" by (metis e dvd_triv_right)
  ultimately obtain q where q: "q \<in> {2, 3, 7, 11, 31, 151, 331}" "q dvd ?k" using nn_prime_factor by blast
  then obtain j where "?k = q * j" by blast
  with e have n: "q * (?e * j) = nn" by (metis mult.left_commute)
  have "q \<noteq> 0" using q(1) by auto
  then have "nn div q = ?e * j" using n by (metis nonzero_mult_div_cancel_left)
  then have "16807 ^ (nn div q) mod mm = 1" using unity_mult [OF u, of j] unfolding unity_def by (simp only:)
  moreover have "16807 ^ (nn div q) mod mm \<noteq> 1" by (rule bspec [OF order_factors q(1)])
  ultimately show False by contradiction
qed

lemma power_A_inverse: "i \<le> nn \<Longrightarrow> 16807 ^ i * 16807 ^ (nn - i) mod mm = 1"
  using order_1 by (simp flip: power_add)

lemma power_A_range:
  assumes "i \<le> nn" shows "16807 ^ i mod mm \<in> {1..<mm}"
proof -
  have "16807 ^ i mod mm \<noteq> 0"
  proof
    assume "16807 ^ i mod mm = 0"
    then have "16807 ^ i * 16807 ^ (nn - i) mod mm = 0" by (metis mod_mult_left_eq mult_zero_left mod_0)
    with power_A_inverse [OF assms] show False by simp
  qed
  then show ?thesis using nn_mm(2) by simp
qed

lemma power_A_inj: "inj_on (\<lambda>i. 16807 ^ i mod mm) {0..<nn}"
proof (rule linorder_inj_onI)
  fix i j assume ij: "i < j" "i \<in> {0..<nn}" "j \<in> {0..<nn}"
  have j: "16807 ^ j * 16807 ^ (nn - i) = (16807 :: nat) ^ (nn + (j - i))" using ij by (simp flip: power_add)
  show "16807 ^ i mod mm \<noteq> 16807 ^ j mod mm"
  proof
    assume "16807 ^ i mod mm = 16807 ^ j mod mm"
    then have "16807 ^ i * 16807 ^ (nn - i) mod mm = 16807 ^ j * 16807 ^ (nn - i) mod mm" by (metis mod_mult_left_eq)
    then have "unity (j - i)"
      using power_A_inverse [of i] ij unity_cancel [of nn "j - i"] order_1 unfolding j by (simp add: unity_def)
    with unity_order ij show False by fastforce
  qed
qed auto

lemma power_A_all: "(\<lambda>i. 16807 ^ i mod mm) ` {0..<nn} = {1..<mm}"
proof (rule card_subset_eq)
  show "(\<lambda>i. 16807 ^ i mod mm) ` {0..<nn} \<subseteq> {1..<mm}" using power_A_range by auto
  show "card ((\<lambda>i. 16807 ^ i mod mm) ` {0..<nn}) = card {1..<mm}"
    using card_image [OF power_A_inj] nn_mm(1) by simp
qed simp

text \<open>The states after a number of draws.\<close>

fun after_draws :: "nat \<Rightarrow> Random \<Rightarrow> Random" where
  "after_draws 0 r = r"
| "after_draws (Suc n) r = snd (Random_Next (after_draws n r))"

lemma after_draws_unat:
  assumes "0 < unat (rnd_seed r)" "unat (rnd_seed r) < mm"
  shows "unat (rnd_seed (after_draws n r)) = unat (rnd_seed r) * 16807 ^ n mod mm \<and>
    0 < unat (rnd_seed (after_draws n r)) \<and> unat (rnd_seed (after_draws n r)) < mm"
proof (induction n)
  case (Suc n)
  have "(unat (rnd_seed r) * 16807 ^ n mod mm) * 16807 mod mm = unat (rnd_seed r) * 16807 ^ Suc n mod mm"
    by (simp only: mod_mult_left_eq power_Suc2 mult.assoc)
  with Suc show ?case
    using Next_good [of "after_draws n r"] Next_unat(2) [of "after_draws n r"] by simp
qed (use assms in simp)

lemma seed_power_inj:
  assumes "0 < s" "s < mm"
  shows "inj_on (\<lambda>i. s * 16807 ^ i mod mm) {0..<nn}"
proof -
  have "s \<in> (\<lambda>i. 16807 ^ i mod mm) ` {0..<nn}" unfolding power_A_all using assms by simp
  then obtain j where j: "j < nn" "s = 16807 ^ j mod mm" by auto
  have inv: "16807 ^ (nn - j) * (s * x) mod mm = x mod mm" for x
  proof -
    have "16807 ^ (nn - j) * (s * x) mod mm = (s * (16807 ^ (nn - j) * x)) mod mm" by (simp only: mult.left_commute)
    also have "\<dots> = (16807 ^ j * (16807 ^ (nn - j) * x)) mod mm" unfolding j(2) by (rule mod_mult_left_eq)
    also have "\<dots> = (16807 ^ j * 16807 ^ (nn - j) mod mm) * x mod mm" by (simp only: mult.assoc mod_mult_left_eq)
    finally show ?thesis using power_A_inverse [of j] j(1) by simp
  qed
  show ?thesis
  proof (rule inj_onI)
    fix a b assume ab: "a \<in> {0..<nn}" "b \<in> {0..<nn}" "s * 16807 ^ a mod mm = s * 16807 ^ b mod mm"
    then have "16807 ^ a mod mm = 16807 ^ b mod mm" using inv by (metis mod_mult_right_eq)
    with power_A_inj ab(1,2) show "a = b" by (simp add: inj_on_def)
  qed
qed

section \<open>Properties\<close>

text \<open>
  C18: the generator has full period. From every seed but 0 and \<open>M\<close> a draw computes
  \<open>seed * 16807 mod M\<close> although the code never divides; the first \<open>M - 1\<close> states are pairwise
  different and are exactly the numbers from 1 to \<open>M - 1\<close>, and after \<open>M - 1\<close> draws the state is the
  initial one again.
\<close>

theorem random_full_period:
  assumes "0 < unat (rnd_seed r)" "rnd_seed r < Rand_M"
  shows "unat (fst (Random_Next r)) = unat (rnd_seed r) * 16807 mod unat Rand_M \<and>
    bij_betw (\<lambda>n. unat (rnd_seed (after_draws n r))) {0..<unat Rand_M - 1} {1..<unat Rand_M} \<and>
    after_draws (unat Rand_M - 1) r = r"
proof -
  let ?s = "unat (rnd_seed r)"
  have s: "0 < ?s" "?s < mm" using assms by (simp_all add: word_less_nat_alt mm_consts)
  have d: "unat (rnd_seed (after_draws n r)) = ?s * 16807 ^ n mod mm"
    "unat (rnd_seed (after_draws n r)) \<in> {1..<mm}" for n
    using after_draws_unat [OF s, of n] by auto
  let ?f = "\<lambda>n. unat (rnd_seed (after_draws n r))"
  have inj: "inj_on ?f {0..<nn}" using seed_power_inj [OF s] by (simp only: d(1))
  have "?f ` {0..<nn} = {1..<mm}"
  proof (rule card_subset_eq)
    show "?f ` {0..<nn} \<subseteq> {1..<mm}" using d(2) by blast
    show "card (?f ` {0..<nn}) = card {1..<mm}" using card_image [OF inj] nn_mm(1) by simp
  qed simp
  with inj have "bij_betw ?f {0..<nn} {1..<mm}" by (simp add: bij_betw_def)
  moreover have "?f nn = ?s"
  proof -
    have "?f nn = ?s * (16807 ^ nn mod mm) mod mm" by (simp only: d(1) mod_mult_right_eq)
    then show ?thesis using s by (simp only: order_1) simp
  qed
  then have "after_draws nn r = r" by (cases r; cases "after_draws nn r") (simp add: word_unat_eq_iff)
  moreover have "mm - 1 = nn" by (simp add: nn_mm(1))
  ultimately show ?thesis using Next_good(1) [OF s] by (simp only: mm_consts)
qed

theorem random_full_period_witness:
  "unat (fst (Random_Next \<lparr>rnd_seed = 5\<rparr>)) = 84035 \<and> after_draws (unat Rand_M - 1) \<lparr>rnd_seed = 5\<rparr> = \<lparr>rnd_seed = 5\<rparr>"
proof -
  have "5 * 16807 mod unat Rand_M = 84035" by (simp add: Rand_M_def)
  moreover have "0 < unat (rnd_seed \<lparr>rnd_seed = 5\<rparr>)" "rnd_seed \<lparr>rnd_seed = 5\<rparr> < Rand_M" by (simp_all add: Rand_M_def)
  ultimately show ?thesis using random_full_period [of "\<lparr>rnd_seed = 5\<rparr>"] by simp
qed

text \<open>
  C0: \<open>GoodSeed\<close> never gives 0 and leaves a good seed alone, but it lets \<open>M\<close> through, which the comment
  of \<open>Next\<close> excludes: a generator seeded with a number whose low 31 bits are all ones returns \<open>M\<close> for
  ever.
\<close>

lemma GoodSeed_mask: "unat (GoodSeed s) = (if unat s mod 2147483648 = 0 then 1 else unat s mod 2147483648)"
proof -
  have "s AND Rand_M = take_bit 31 s" by (simp add: Rand_M_def take_bit_eq_mask mask_eq_exp_minus_1)
  then have u: "unat (s AND Rand_M) = unat s mod 2147483648"
    by (simp add: unsigned_take_bit_eq) (simp add: take_bit_eq_mod)
  then show ?thesis by (auto simp: GoodSeed_def word_unat_eq_iff)
qed

lemma Next_M: "Random_Next \<lparr>rnd_seed = Rand_M\<rparr> = (Rand_M, \<lparr>rnd_seed = Rand_M\<rparr>)"
  by code_simp

theorem bad_seed_is_stuck:
  "0 < unat (GoodSeed s) \<and> GoodSeed s \<le> Rand_M \<and>
   (0 < unat s \<and> s < Rand_M \<longrightarrow> GoodSeed s = s) \<and>
   (unat s mod 2147483648 = 2147483647 \<longrightarrow> fst (Random_Next (after_draws n (Random_ctor s))) = Rand_M)"
proof -
  have lt: "unat s mod 2147483648 \<le> 2147483647" using mod_less_divisor [of 2147483648 "unat s"] by simp
  have good: "GoodSeed s = s" if "0 < unat s" "s < Rand_M"
  proof -
    have "unat s < 2147483647" using that(2) by (simp add: word_less_nat_alt Rand_M_def)
    with that(1) show ?thesis by (simp add: word_unat_eq_iff GoodSeed_mask)
  qed
  have "fst (Random_Next (after_draws n (Random_ctor s))) = Rand_M" if "unat s mod 2147483648 = 2147483647"
  proof -
    have "GoodSeed s = Rand_M" using that by (simp add: word_unat_eq_iff GoodSeed_mask Rand_M_def)
    then have "after_draws n (Random_ctor s) = \<lparr>rnd_seed = Rand_M\<rparr>"
      by (induction n) (simp_all add: Random_ctor_def Next_M)
    then show ?thesis by (simp add: Next_M)
  qed
  with good lt show ?thesis by (simp add: word_le_nat_alt mm_consts GoodSeed_mask) (simp add: mm_def)
qed

theorem bad_seed_is_stuck_witness:
  "fst (Random_Next (after_draws 5 (Random_ctor 4294967295))) = Rand_M \<and> GoodSeed 17 = 17"
  using bad_seed_is_stuck [of 4294967295 5] bad_seed_is_stuck [of 17 0]
  by (simp add: Rand_M_def)

text \<open>
  C0: the bounded draws. \<open>Uniform(n)\<close> is below \<open>n\<close> for positive \<open>n\<close> and divides by zero for 0;
  \<open>Skewed(max_log)\<close> is below \<open>2 ^ max_log\<close> for every \<open>max_log\<close> up to 30; \<open>PercentTrue\<close> is false for
  percentages up to 0 and true from 100 on; \<open>OneIn(1)\<close> is always true and \<open>OneInOpt\<close> false without a
  draw for non-positive arguments. \<open>Uniformish(n)\<close> of \<open>Random32\<close> is below \<open>n\<close> for every engine.
\<close>

lemma Uniform_ok: "n \<noteq> 0 \<Longrightarrow> \<exists>x r'. Random_Uniform r n = Inr (x, r') \<and> x < n"
  by (auto simp: Random_Uniform_def word_less_nat_alt unat_mod unat_gt_0 split: prod.split)

lemma Skewed_ok:
  assumes "unat max_log \<le> 30"
  shows "\<exists>x r'. Random_Skewed r max_log = Inr (x, r') \<and> unat x < 2 ^ unat max_log"
proof -
  have u: "unat (max_log + 1) = unat max_log + 1" using assms by (simp add: unat_word_ariths)
  then have "max_log + 1 \<noteq> 0" by (auto simp: word_unat_eq_iff)
  then obtain s r' where s: "Random_Uniform r (max_log + 1) = Inr (s, r')" "s < max_log + 1"
    using Uniform_ok by blast
  then have sl: "unat s \<le> unat max_log" using u by (simp add: word_less_nat_alt)
  then have p: "unat (push_bit (unat s) (1 :: u32)) = 2 ^ unat s"
    using assms power_increasing [of "unat s" 30 "2 :: nat"]
    by (simp only: unsigned_push_bit_eq) (simp add: push_bit_eq_mult take_bit_nat_eq_self_iff)
  then have "push_bit (unat s) (1 :: u32) \<noteq> 0" by (metis power_not_zero unat_eq_zero zero_neq_numeral)
  from Uniform_ok [OF this, of r'] obtain x r'' where
    x: "Random_Uniform r' (push_bit (unat s) 1) = Inr (x, r'')" "x < push_bit (unat s) 1" by blast
  have "unat x < 2 ^ unat s" using x(2) p by (simp add: word_less_nat_alt)
  also have "(2 :: nat) ^ unat s \<le> 2 ^ unat max_log" using sl by (simp add: power_increasing)
  finally show ?thesis using s(1) x(1) sl assms by (simp add: Random_Skewed_def shl1_def)
qed

lemma Uniformish_bound: "n \<noteq> 0 \<Longrightarrow> fst (Random32_Uniformish gen g n) < n"
proof -
  assume n: "n \<noteq> 0"
  obtain x g' where g: "gen g = (x, g')" by (cases "gen g")
  have ux: "unat x < 2 ^ 32" "unat n < 2 ^ 32" using unsigned_less [of x, where ?'a = nat] unsigned_less [of n, where ?'a = nat] by simp_all
  then have "unat x * unat n < 2 ^ 32 * 2 ^ 32" by (intro mult_strict_mono) simp_all
  moreover have "unat (ucast y :: u64) = unat y" for y :: u32
    by (simp add: unsigned_ucast_eq take_bit_nat_eq_self_iff) (use unsigned_less [of y, where ?'a = nat] in simp)
  ultimately have "unat (ucast x * ucast n :: u64) = unat x * unat n" by (simp add: unat_word_ariths)
  then have "unat (drop_bit 32 (ucast x * ucast n :: u64)) = unat x * unat n div 2 ^ 32"
    by (simp only: unat_drop_bit_div)
  moreover have "unat x * unat n div 2 ^ 32 < unat n"
  proof -
    have "unat x * unat n < 2 ^ 32 * unat n" using ux(1) n by (simp add: unat_gt_0)
    then show ?thesis by (simp add: less_mult_imp_div_less mult.commute)
  qed
  ultimately show ?thesis using g order_le_less_trans [OF take_bit_nat_less_eq_self [of 32 "unat x * unat n div 2 ^ 32"]]
    by (simp add: Random32_Uniformish_def word_less_nat_alt unsigned_ucast_eq)
qed

theorem random_draw_bounds:
  "(if n = 0 then Random_Uniform r n = Inl DivisionByZero
    else \<exists>x r'. Random_Uniform r n = Inr (x, r') \<and> x < n) \<and>
   (unat max_log \<le> 30 \<longrightarrow> (\<exists>x r'. Random_Skewed r max_log = Inr (x, r') \<and> unat x < 2 ^ unat max_log)) \<and>
   (sint p \<le> 0 \<longrightarrow> (\<exists>r'. Random_PercentTrue r p = Inr (False, r'))) \<and>
   (100 \<le> sint p \<longrightarrow> (\<exists>r'. Random_PercentTrue r p = Inr (True, r'))) \<and>
   (\<exists>r'. Random_OneIn r 1 = Inr (True, r')) \<and>
   (sint n \<le> 0 \<longrightarrow> Random_OneInOpt r n = Inr (False, r)) \<and>
   (n \<noteq> 0 \<longrightarrow> fst (Random32_Uniformish gen g n) < n)"
proof -
  obtain x r' where x: "Random_Uniform r 100 = Inr (x, r')" "x < 100" using Uniform_ok [of 100 r] by auto
  then have ux: "uint x < 100" by (simp add: word_less_def)
  have sx: "sint x = uint x"
    using signed_take_bit_int_eq_self [of 31 "uint x"] ux uint_ge_0 [of x] by (simp add: sint_uint)
  have p: "Random_PercentTrue r p = Inr (sint x < sint p, r')" using x by (simp add: Random_PercentTrue_def)
  have lo: "\<not> sint x < sint p" if "sint p \<le> 0" using that sx uint_ge_0 [of x] by linarith
  have hi: "sint x < sint p" if "100 \<le> sint p" using that sx ux by linarith
  have "\<exists>r'. Random_OneIn r 1 = Inr (True, r')"
    using Uniform_ok [of 1 r] by (auto simp: Random_OneIn_def word_less_nat_alt unat_eq_zero)
  moreover have "Random_Uniform r 0 = Inl DivisionByZero" by (simp add: Random_Uniform_def split: prod.split)
  ultimately show ?thesis
    using Uniform_ok [of n r] Skewed_ok [of max_log r] p lo hi Uniformish_bound [of n gen g]
    by (auto simp: Random_OneInOpt_def)
qed

theorem random_draw_bounds_witness:
  "(\<exists>x r'. Random_Skewed (Random_ctor 301) 4 = Inr (x, r') \<and> unat x < 16) \<and>
   fst (Random32_Uniformish (\<lambda>g :: unit. (4294967295, g)) () 10) < 10"
  using random_draw_bounds [of 10 "Random_ctor 301" 4 0 "\<lambda>g :: unit. (4294967295, g)" "()"] by simp

end
