(* ===== verification/KeyGenerators.thy ===== *)
theory KeyGenerators
  imports DBFormat Randoms "HOL-Library.Multiset"
begin

text \<open>
  \<open>include/gear_bench_classes.h\<close> and \<open>tools/gear_bench_classes.cc\<close>: the generators of benchmark keys.

  The \<open>Random64\<close> behind \<open>rand_\<close> is a step function \<open>gen\<close> on engine states (theory \<open>Randoms\<close>); the engine,
  its distribution and \<open>std::shuffle\<close> are arguments. \<open>std::sort\<close> is the stable \<open>sort\<close> of the library
  (equal numbers cannot be told apart). The class of an object, which decides the virtual call of
  \<open>Next\<close>, is a field. The memory behind \<open>key_slice_\<close> is a field of its own; fresh memory holds \<open>junk\<close>.
\<close>

datatype WriteMode = RANDOM | SEQUENTIAL | UNIQUE_RANDOM | INCREMENTAL_RANDOM

datatype KeyGenClass = BaseGenerator | SeqGenerator

record KeyGenerator =
  kg_class :: KeyGenClass
  kg_mode :: WriteMode
  kg_min :: u64
  kg_distinct_num :: u64
  kg_next :: u64
  kg_key_size :: nat
  kg_values :: "u64 list"
  kg_key_mem :: "byte list"

definition AllocateKey :: "(nat \<Rightarrow> byte) \<Rightarrow> nat \<Rightarrow> byte list" where
  "AllocateKey junk key_size = map junk [0..<key_size]"

text \<open>
  \<open>key\<close> is the memory of the slice \<open>*key\<close>, \<open>None\<close> for a null pointer: then the empty literal is written
  to. The result is the string returned and the memory left behind.
\<close>

definition GenerateKeyFromInt ::
  "bool \<Rightarrow> u64 \<Rightarrow> u64 \<Rightarrow> byte list option \<Rightarrow> nat \<Rightarrow> (byte list \<times> byte list) res" where
  "GenerateKeyFromInt le v num_keys key key_size =
     (if num_keys = 0 then Inl DivisionByZero
      else
        let v = v mod num_keys;
            start = (case key of None \<Rightarrow> [] | Some m \<Rightarrow> m);
            bytes_to_fill = min key_size 8;
            bytes = (if le then map (\<lambda>i. ucast (drop_bit ((bytes_to_fill - i - 1) * 8) v AND 255)) [0..<bytes_to_fill]
                     else take bytes_to_fill (obj_bytes le 8 v)) in
        res_bind (write_bytes start 0 bytes) (\<lambda>m.
        res_bind (write_bytes m bytes_to_fill (replicate (key_size - bytes_to_fill) 48)) (\<lambda>m.
          Inr (m, m))))"

section \<open>The constructor\<close>

function init_unique :: "nat \<Rightarrow> u64 list \<Rightarrow> u64 list" where
  "init_unique i vals = (if i < length vals then init_unique (i + 1) (vals[i := of_nat i]) else vals)"
  by pat_completeness auto
termination
  by (relation "measure (\<lambda>(i, vals). length vals - i)") auto

declare init_unique.simps [simp del]

function init_random ::
  "('g \<Rightarrow> u64 \<times> 'g) \<Rightarrow> u64 \<Rightarrow> u64 \<Rightarrow> nat \<Rightarrow> u64 list \<Rightarrow> 'g \<Rightarrow> u64 list \<times> 'g" where
  "init_random gen num min_value i vals g =
     (if i < length vals then
        let (x, g) = Random64_Next gen g in
        init_random gen num min_value (i + 1) (vals[i := x mod num + min_value]) g
      else (vals, g))"
  by pat_completeness auto
termination
  by (relation "measure (\<lambda>(gen, num, min_value, i, vals, g). length vals - i)") auto

declare init_random.simps [simp del]

definition KeyGenerator_ctor ::
  "('g \<Rightarrow> u64 \<times> 'g) \<Rightarrow> (u32 \<Rightarrow> 'h) \<Rightarrow> ('h \<Rightarrow> u64 list \<Rightarrow> u64 list) \<Rightarrow> (nat \<Rightarrow> byte) \<Rightarrow> 'g \<Rightarrow>
   KeyGenClass \<Rightarrow> WriteMode \<Rightarrow> u64 \<Rightarrow> u64 \<Rightarrow> nat \<Rightarrow> u64 \<Rightarrow> KeyGenerator \<times> 'g" where
  "KeyGenerator_ctor gen seed_engine shuffle junk g cls mode num seed key_size min_value =
     (let zeros = replicate (unat num) 0;
          (vals, g) =
            (case mode of
               UNIQUE_RANDOM \<Rightarrow>
                 (RandomShuffle seed_engine shuffle (init_unique (unat min_value) zeros) (ucast seed), g)
             | INCREMENTAL_RANDOM \<Rightarrow>
                 (let (vals, g) = init_random gen num min_value (unat min_value) zeros g in (sort vals, g))
             | _ \<Rightarrow> ([], g)) in
      (\<lparr>kg_class = cls, kg_mode = mode, kg_min = min_value, kg_distinct_num = num, kg_next = 0,
        kg_key_size = key_size, kg_values = vals, kg_key_mem = AllocateKey junk key_size\<rparr>, g))"

text \<open>\<open>std::pow(256, 7)\<close> is exact in \<open>double\<close>.\<close>

definition SeqKeyGenerator_ctor :: "(nat \<Rightarrow> byte) \<Rightarrow> u64 \<Rightarrow> KeyGenerator" where
  "SeqKeyGenerator_ctor junk min_value =
     fst (KeyGenerator_ctor (\<lambda>g. (0, g)) (\<lambda>s. ()) (\<lambda>h xs. xs) junk () SeqGenerator SEQUENTIAL (2 ^ 56) 0 8 min_value)"

section \<open>Drawing keys\<close>

definition KeyGenerator_Next ::
  "('g \<Rightarrow> u64 \<times> 'g) \<Rightarrow> KeyGenerator \<Rightarrow> 'g \<Rightarrow> (u64 \<times> KeyGenerator \<times> 'g) res" where
  "KeyGenerator_Next gen k g =
     (let k' = k\<lparr>kg_next := kg_next k + 1\<rparr>;
          from_values = require (kg_next k < kg_distinct_num k)
            (if unat (kg_next k) < length (kg_values k)
             then Inr (kg_values k ! unat (kg_next k), k', g) else Inl OutOfBounds) in
      case kg_mode k of
        SEQUENTIAL \<Rightarrow> Inr (kg_min k + kg_next k, k', g)
      | RANDOM \<Rightarrow>
          if kg_distinct_num k = 0 then Inl DivisionByZero
          else (let (x, g) = Random64_Next gen g in Inr (x mod kg_distinct_num k, k, g))
      | UNIQUE_RANDOM \<Rightarrow> from_values
      | INCREMENTAL_RANDOM \<Rightarrow> from_values)"

definition SeqKeyGenerator_Next :: "KeyGenerator \<Rightarrow> u64 \<times> KeyGenerator" where
  "SeqKeyGenerator_Next k =
     (let k = k\<lparr>kg_next := kg_next k + 1\<rparr> in
      (max (kg_min k + kg_next k) (- 1), k))"

text \<open>The virtual call.\<close>

definition dispatch_Next ::
  "('g \<Rightarrow> u64 \<times> 'g) \<Rightarrow> KeyGenerator \<Rightarrow> 'g \<Rightarrow> (u64 \<times> KeyGenerator \<times> 'g) res" where
  "dispatch_Next gen k g =
     (case kg_class k of
        BaseGenerator \<Rightarrow> KeyGenerator_Next gen k g
      | SeqGenerator \<Rightarrow> (let (x, k) = SeqKeyGenerator_Next k in Inr (x, k, g)))"

definition SetNext :: "KeyGenerator \<Rightarrow> u64 \<Rightarrow> KeyGenerator" where
  "SetNext k n = k\<lparr>kg_next := n\<rparr>"

definition kg_GenerateKeyFromInt :: "bool \<Rightarrow> KeyGenerator \<Rightarrow> u64 \<Rightarrow> (byte list \<times> KeyGenerator) res" where
  "kg_GenerateKeyFromInt le k v =
     res_bind (GenerateKeyFromInt le v (kg_distinct_num k) (Some (kg_key_mem k)) (kg_key_size k)) (\<lambda>(s, m).
       Inr (s, k\<lparr>kg_key_mem := m\<rparr>))"

definition NextString ::
  "bool \<Rightarrow> ('g \<Rightarrow> u64 \<times> 'g) \<Rightarrow> KeyGenerator \<Rightarrow> 'g \<Rightarrow> (byte list \<times> KeyGenerator \<times> 'g) res" where
  "NextString le gen k g =
     res_bind (dispatch_Next gen k g) (\<lambda>(v, k, g).
     res_bind (kg_GenerateKeyFromInt le k v) (\<lambda>(s, k). Inr (s, k, g)))"

section \<open>SpanningKeyGenerator\<close>

datatype DISTRIBUTION_TYPE = kUniform | kOther

text \<open>A \<open>std::set\<close> is its elements in ascending order.\<close>

record SpanningKeyGenerator =
  sp_lower_bound :: u64
  sp_upper_bound :: u64
  sp_result_list :: "u64 list"

definition set_insert :: "u64 \<Rightarrow> u64 list \<Rightarrow> u64 list" where
  "set_insert x xs = (if x \<in> set xs then xs else insort x xs)"

fun spanning_draws ::
  "(u64 \<Rightarrow> u64 \<Rightarrow> 'g \<Rightarrow> u64 \<times> 'g) \<Rightarrow> u64 \<Rightarrow> u64 \<Rightarrow> nat \<Rightarrow> u64 list \<Rightarrow> 'g \<Rightarrow> u64 list" where
  "spanning_draws dist lower upper 0 xs g = xs"
| "spanning_draws dist lower upper (Suc n) xs g =
     (let (x, g) = dist lower upper g in spanning_draws dist lower upper n (set_insert x xs) g)"

text \<open>\<open>g\<close> is the engine after seeding; \<open>num_keys\<close> is an \<open>int\<close>, so that a negative number draws nothing.\<close>

definition SpanningKeyGenerator_ctor ::
  "(u64 \<Rightarrow> u64 \<Rightarrow> 'g \<Rightarrow> u64 \<times> 'g) \<Rightarrow> 'g \<Rightarrow> u64 \<Rightarrow> u64 \<Rightarrow> int \<Rightarrow> DISTRIBUTION_TYPE \<Rightarrow> SpanningKeyGenerator res" where
  "SpanningKeyGenerator_ctor dist g lower upper num_keys distribution =
     require (lower < upper)
       (Inr \<lparr>sp_lower_bound = lower, sp_upper_bound = upper,
             sp_result_list = (case distribution of
                 kUniform \<Rightarrow> spanning_draws dist lower upper (nat num_keys) [] g
               | kOther \<Rightarrow> [])\<rparr>)"

text \<open>
  \<open>std::map::emplace\<close> on the entries in key order: an equivalent key is left as it is.
\<close>

fun map_emplace :: "(byte list \<Rightarrow> byte list \<Rightarrow> bool) \<Rightarrow> byte list \<Rightarrow> byte list \<Rightarrow>
  (byte list \<times> byte list) list \<Rightarrow> (byte list \<times> byte list) list" where
  "map_emplace lt k v [] = [(k, v)]"
| "map_emplace lt k v ((k', v') # xs) =
     (if lt k k' then (k, v) # (k', v') # xs
      else if lt k' k then (k', v') # map_emplace lt k v xs
      else (k', v') # xs)"

fun content_loop :: "bool \<Rightarrow> Comparator \<Rightarrow> u64 list \<Rightarrow> KeyGenerator \<Rightarrow> SequenceNumber \<Rightarrow>
  (byte list \<times> byte list) list \<Rightarrow> ((byte list \<times> byte list) list \<times> KeyGenerator \<times> SequenceNumber) res" where
  "content_loop le cmp [] k seqno content = Inr (content, k, seqno)"
| "content_loop le cmp (key # keys) k seqno content =
     res_bind (kg_GenerateKeyFromInt le k key) (\<lambda>(s, k).
     res_bind (InternalKey_ctor le s (seqno + 1) kTypeValue) (\<lambda>ikey.
     res_bind (ik_Encode ikey) (\<lambda>e.
       content_loop le cmp keys k (seqno + 1 + 1)
         (map_emplace (LessOfComparator cmp) e (bytes_of_string ''1234567890'') content))))"

definition GenerateContent :: "bool \<Rightarrow> Comparator \<Rightarrow> SpanningKeyGenerator \<Rightarrow> KeyGenerator \<Rightarrow> SequenceNumber \<Rightarrow>
  ((byte list \<times> byte list) list \<times> KeyGenerator \<times> SequenceNumber) res" where
  "GenerateContent le cmp sp k seqno = content_loop le cmp (sp_result_list sp) k seqno []"

section \<open>The bytes of a generated key\<close>

text \<open>Big-endian bytes, then digits \<open>0\<close>: for keys of eight bytes or more, on both kinds of machine.\<close>

definition key_bytes :: "u64 \<Rightarrow> nat \<Rightarrow> byte list" where
  "key_bytes v key_size = rev (le_bytes 8 v) @ replicate (key_size - 8) 48"

lemma rev_le_bytes: "rev (le_bytes n w) = map (\<lambda>i. ucast (drop_bit ((n - i - 1) * 8) w)) [0..<n]"
  by (rule nth_equalityI) (simp_all add: rev_nth nth_le_bytes mult.commute)

text \<open>The same in terms of numbers.\<close>

lemma key_bytes_digits:
  "key_bytes v key_size = map (\<lambda>i. of_nat (unat v div 256 ^ (7 - i))) [0..<8] @ replicate (key_size - 8) 48"
proof -
  have "ucast (drop_bit ((8 - i - 1) * 8) v) = (of_nat (unat v div 256 ^ (7 - i)) :: byte)" if "i < 8" for i
  proof -
    have "(256 :: nat) ^ (7 - i) = 2 ^ ((8 - i - 1) * 8)" using power_mult [of "2 :: nat" 8 "7 - i"] by (simp add: mult.commute)
    then have "unat v div 256 ^ (7 - i) = unat (drop_bit ((8 - i - 1) * 8) v)" by (simp add: unat_drop_bit_div)
    then show ?thesis by (simp add: unsigned_of_nat of_nat_unat)
  qed
  then show ?thesis by (simp add: key_bytes_def rev_le_bytes)
qed

lemma GenerateKeyFromInt_ok:
  assumes "num \<noteq> 0" "8 \<le> key_size" "length m = key_size"
  shows "GenerateKeyFromInt le v num (Some m) key_size = Inr (key_bytes (v mod num) key_size, key_bytes (v mod num) key_size)"
proof -
  have eq: "(if le then map (\<lambda>i. ucast (drop_bit ((8 - i - 1) * 8) (v mod num) AND 255)) [0..<8]
      else take 8 (obj_bytes le 8 (v mod num))) = rev (le_bytes 8 (v mod num))"
    by (simp only: rev_le_bytes [of 8] ucast_and_255) (simp add: obj_bytes_def rev_le_bytes)
  have fill: "min key_size 8 = 8" using assms(2) by simp
  show ?thesis
    using assms unfolding GenerateKeyFromInt_def Let_def option.case fill eq
    by (simp add: write_bytes_def key_bytes_def)
qed

lemma le_bytes_snoc: "le_bytes (Suc n) w = le_bytes n w @ [ucast (drop_bit (8 * n) w)]"
  by (simp add: le_bytes_def)

text \<open>Comparing big-endian bytes compares the numbers.\<close>

definition low :: "nat \<Rightarrow> u64 \<Rightarrow> nat" where
  "low n w = unat w mod 2 ^ (8 * n)"

lemma low_Suc: "low (Suc n) w = unat (ucast (drop_bit (8 * n) w) :: byte) * 2 ^ (8 * n) + low n w"
proof -
  have "unat (ucast (drop_bit (8 * n) w) :: byte) = unat w div 2 ^ (8 * n) mod 256"
    by (simp add: unsigned_ucast_eq unat_drop_bit_div) (simp add: take_bit_eq_mod)
  moreover have "(2 :: nat) ^ (8 * Suc n) = 2 ^ (8 * n) * 256" by (simp add: power_add)
  ultimately show ?thesis by (simp only: low_def mod_mult2_eq) (simp only: mult.commute)
qed

lemma low_less: "low n w < 2 ^ (8 * n)"
  by (simp add: low_def)

lemma low_8: "low 8 w = unat w"
  using unsigned_less [of w, where ?'a = nat] by (simp add: low_def)

lemma low_top:
  assumes "a < (b :: byte)" "p < (2 :: nat) ^ (8 * n)"
  shows "unat a * 2 ^ (8 * n) + p < unat b * 2 ^ (8 * n) + q"
proof -
  have "(unat a + 1) * 2 ^ (8 * n) \<le> unat b * 2 ^ (8 * n)"
    using assms(1) by (intro mult_right_mono) (simp_all add: word_less_nat_alt)
  with assms(2) show ?thesis by simp
qed

lemma memcmp_rev_le_bytes:
  "sgn (memcmp_bytes (rev (le_bytes n x)) (rev (le_bytes n y))) = sgn (int (low n x) - int (low n y))"
proof (induction n)
  case 0
  show ?case by (simp add: low_def)
next
  case (Suc n)
  let ?a = "ucast (drop_bit (8 * n) x) :: byte" and ?b = "ucast (drop_bit (8 * n) y) :: byte"
  consider "?a < ?b" | "?b < ?a" | "?a = ?b" by (meson linorder_neqE)
  then show ?case
  proof cases
    case 1
    then have "low (Suc n) x < low (Suc n) y" unfolding low_Suc by (rule low_top [OF _ low_less])
    with 1 show ?thesis by (simp add: le_bytes_snoc)
  next
    case 2
    then have "low (Suc n) y < low (Suc n) x" unfolding low_Suc by (rule low_top [OF _ low_less])
    moreover have "\<not> ?a < ?b" using 2 by simp
    ultimately show ?thesis using 2 by (simp add: le_bytes_snoc)
  next
    case 3
    then have "int (low (Suc n) x) - int (low (Suc n) y) = int (low n x) - int (low n y)" unfolding low_Suc by simp
    with 3 Suc show ?thesis by (simp add: le_bytes_snoc)
  qed
qed

lemma memcmp_append_same:
  "length a = length b \<Longrightarrow> memcmp_bytes (a @ s) (b @ s) = memcmp_bytes a b"
proof (induction a b rule: list_induct2)
  case Nil
  show ?case by (induction s) simp_all
qed simp

lemma memcmp_key_bytes: "sgn (memcmp_bytes (key_bytes x n) (key_bytes y n)) = sgn (int (unat x) - int (unat y))"
  using memcmp_rev_le_bytes [of 8 x y] by (simp add: key_bytes_def memcmp_append_same low_8)

section \<open>Sequences of draws\<close>

fun draws :: "('g \<Rightarrow> u64 \<times> 'g) \<Rightarrow> nat \<Rightarrow> KeyGenerator \<Rightarrow> 'g \<Rightarrow> (u64 list \<times> KeyGenerator \<times> 'g) res" where
  "draws gen 0 k g = Inr ([], k, g)"
| "draws gen (Suc n) k g =
     res_bind (dispatch_Next gen k g) (\<lambda>(x, k, g).
     res_bind (draws gen n k g) (\<lambda>(xs, k, g). Inr (x # xs, k, g)))"

text \<open>The two modes that hand out prepared values.\<close>

definition prepared :: "KeyGenerator \<Rightarrow> bool" where
  "prepared k \<longleftrightarrow> kg_class k = BaseGenerator \<and> kg_mode k \<in> {UNIQUE_RANDOM, INCREMENTAL_RANDOM} \<and>
     length (kg_values k) = unat (kg_distinct_num k)"

lemma prepared_Next:
  assumes "prepared k"
  shows "dispatch_Next gen k g =
    (if unat (kg_next k) < length (kg_values k)
     then Inr (kg_values k ! unat (kg_next k), k\<lparr>kg_next := kg_next k + 1\<rparr>, g) else Inl AssertFailed)"
  using assms
  by (auto simp: prepared_def dispatch_Next_def KeyGenerator_Next_def Let_def word_less_nat_alt require_def)

lemma prepared_draws:
  assumes "prepared k" "unat (kg_next k) + n \<le> length (kg_values k)"
  shows "draws gen n k g = Inr (take n (drop (unat (kg_next k)) (kg_values k)), k\<lparr>kg_next := kg_next k + of_nat n\<rparr>, g)"
  using assms
proof (induction n arbitrary: k)
  case (Suc n)
  have lt: "unat (kg_next k) < length (kg_values k)" using Suc.prems(2) by simp
  have "unat (kg_next k) + 1 < 2 ^ 64"
    using Suc.prems unsigned_less [of "kg_distinct_num k", where ?'a = nat] by (simp add: prepared_def)
  then have u: "unat (kg_next k + 1) = Suc (unat (kg_next k))" by (simp add: unat_word_ariths)
  let ?k = "k\<lparr>kg_next := kg_next k + 1\<rparr>"
  have p: "prepared ?k" using Suc.prems(1) by (simp add: prepared_def)
  have "unat (kg_next ?k) + n \<le> length (kg_values ?k)" using Suc.prems(2) u by simp
  moreover have "drop (unat (kg_next k)) (kg_values k) = kg_values k ! unat (kg_next k) # drop (Suc (unat (kg_next k))) (kg_values k)"
    by (rule Cons_nth_drop_Suc [OF lt, symmetric])
  ultimately show ?case
    using prepared_Next [OF Suc.prems(1), of gen g] lt Suc.IH [OF p] by (simp add: u add.assoc)
qed simp

lemma init_unique_length [simp]: "length (init_unique i vals) = length vals"
proof (induction i vals rule: init_unique.induct)
  case (1 i vals)
  then show ?case by (cases "i < length vals") (simp_all add: init_unique.simps [of i vals])
qed

lemma init_unique_eq: "i \<le> length vals \<Longrightarrow> init_unique i vals = take i vals @ map of_nat [i..<length vals]"
proof (induction i vals rule: init_unique.induct)
  case (1 i vals)
  show ?case
  proof (cases "i < length vals")
    case True
    then have "init_unique i vals = take (i + 1) (vals[i := of_nat i]) @ map of_nat [i + 1..<length vals]"
      using 1 by (subst init_unique.simps) simp
    with True show ?thesis by (simp add: take_Suc_conv_app_nth upt_conv_Cons)
  next
    case False
    then show ?thesis using 1(2) by (subst init_unique.simps) simp
  qed
qed

lemma word_mod_less: "n \<noteq> 0 \<Longrightarrow> x mod n < (n :: u64)"
  by (simp add: word_less_nat_alt unat_mod unat_gt_0)

lemma init_random_values:
  "i \<le> length vals \<Longrightarrow> num \<noteq> 0 \<Longrightarrow>
   length (fst (init_random gen num mn i vals g)) = length vals \<and>
   (\<forall>x \<in> set (fst (init_random gen num mn i vals g)). x \<in> set (take i vals) \<or> (\<exists>y. y < num \<and> x = y + mn))"
proof (induction gen num mn i vals g rule: init_random.induct)
  case (1 gen num mn i vals g)
  show ?case
  proof (cases "i < length vals")
    case True
    obtain x g' where x: "Random64_Next gen g = (x, g')" by (cases "Random64_Next gen g")
    let ?v = "vals[i := x mod num + mn]"
    have ih: "length (fst (init_random gen num mn (i + 1) ?v g')) = length ?v \<and>
      (\<forall>z \<in> set (fst (init_random gen num mn (i + 1) ?v g')). z \<in> set (take (i + 1) ?v) \<or> (\<exists>y. y < num \<and> z = y + mn))"
      using 1(1) [OF True] x True 1(3) by simp
    have "set (take (i + 1) ?v) = insert (x mod num + mn) (set (take i vals))"
      using True by (simp add: take_Suc_conv_app_nth)
    moreover have "init_random gen num mn i vals g = init_random gen num mn (i + 1) ?v g'"
      using True x by (subst init_random.simps) simp
    ultimately show ?thesis using ih word_mod_less [OF 1(3), of x] by auto
  next
    case False
    then show ?thesis using 1(2) by (subst (1 2) init_random.simps) simp
  qed
qed

section \<open>Properties\<close>

text \<open>
  C10: generated keys keep the order of the numbers. For a number of keys that is not 0 and a buffer of the key size, eight bytes or more,
  the key is exactly the number modulo the number of keys: byte \<open>i\<close> of the first eight is its digit of weight \<open>256 ^ (7 - i)\<close>,
  and the digit character \<open>0\<close> (48) follows up to the key size. The same bytes are left in the buffer, on machines of
  either byte order and whatever was in it before. Comparing two keys byte by byte gives the order of
  the numbers modulo the number of keys, so that different numbers below the number of keys get different keys.
\<close>

theorem generated_keys_keep_order:
  assumes "num \<noteq> 0" "8 \<le> key_size" "length m = key_size" "length m' = key_size"
  shows "\<exists>a b. GenerateKeyFromInt le v num (Some m) key_size = Inr (a, a) \<and>
    GenerateKeyFromInt le' w num (Some m') key_size = Inr (b, b) \<and>
    a = map (\<lambda>i. of_nat (unat (v mod num) div 256 ^ (7 - i))) [0..<8] @ replicate (key_size - 8) 48 \<and>
    b = map (\<lambda>i. of_nat (unat (w mod num) div 256 ^ (7 - i))) [0..<8] @ replicate (key_size - 8) 48 \<and>
    length a = key_size \<and> length b = key_size \<and>
    sgn (memcmp_bytes a b) = sgn (int (unat (v mod num)) - int (unat (w mod num))) \<and>
    (a = b \<longleftrightarrow> v mod num = w mod num)"
proof -
  let ?a = "key_bytes (v mod num) key_size" and ?b = "key_bytes (w mod num) key_size"
  have c: "sgn (memcmp_bytes ?a ?b) = sgn (int (unat (v mod num)) - int (unat (w mod num)))"
    by (rule memcmp_key_bytes)
  have len: "length ?a = key_size" "length ?b = key_size" using assms(2) by (simp_all add: key_bytes_def)
  have "?a = ?b \<longleftrightarrow> memcmp_bytes ?a ?b = 0" using len by (simp add: memcmp_bytes_eq_0)
  also have "\<dots> \<longleftrightarrow> int (unat (v mod num)) - int (unat (w mod num)) = 0" using c by (metis sgn_eq_0_iff)
  also have "\<dots> \<longleftrightarrow> v mod num = w mod num" unfolding word_unat_eq_iff by linarith
  finally have eq: "?a = ?b \<longleftrightarrow> v mod num = w mod num" .
  show ?thesis
    by (rule exI [of _ ?a], rule exI [of _ ?b])
      (intro conjI GenerateKeyFromInt_ok [OF assms(1,2,3)] GenerateKeyFromInt_ok [OF assms(1,2,4)] key_bytes_digits len c eq)
qed

theorem generated_keys_keep_order_witness:
  "\<exists>a b. GenerateKeyFromInt True 258 1000 (Some (replicate 8 0)) 8 = Inr (a, a) \<and>
     GenerateKeyFromInt False 513 1000 (Some (replicate 8 9)) 8 = Inr (b, b) \<and> memcmp_bytes a b < 0 \<and>
     a = [0, 0, 0, 0, 0, 0, 1, 2]"
proof -
  have "map (\<lambda>i. of_nat (unat ((258 :: u64) mod 1000) div 256 ^ (7 - i))) [0..<8] = [0, 0, 0, 0, 0, 0, 1, 2 :: byte]"
    by (simp add: upt_rec)
  moreover have "sgn (int (unat ((258 :: u64) mod 1000)) - int (unat ((513 :: u64) mod 1000))) = - 1" by simp
  ultimately show ?thesis
    using generated_keys_keep_order [of 1000 8 "replicate 8 0" "replicate 8 9" True 258 False 513]
    by (auto simp: sgn_if split: if_splits)
qed

text \<open>
  the generators with prepared values. With \<open>INCREMENTAL_RANDOM\<close> the first \<open>num\<close> draws succeed and
  are non-decreasing, each is 0 or a number below \<open>num\<close> plus \<open>min_value\<close>; with \<open>UNIQUE_RANDOM\<close> and
  \<open>min_value\<close> 0 they are a permutation of the numbers below \<open>num\<close>, given that \<open>std::shuffle\<close> permutes;
  in both modes the next draw fails the assertion.
\<close>

theorem prepared_generators:
  assumes "num \<noteq> 0" "unat mn \<le> unat num" and perm: "\<And>h xs. mset (shuffle h xs) = mset xs"
  shows "(let (k, g') = KeyGenerator_ctor gen eng shuffle junk g BaseGenerator INCREMENTAL_RANDOM num seed key_size mn in
      \<exists>xs k'. draws gen (unat num) k g' = Inr (xs, k', g') \<and> sorted xs \<and> length xs = unat num \<and>
        (\<forall>x \<in> set xs. x = 0 \<or> (\<exists>y. y < num \<and> x = y + mn)) \<and> dispatch_Next gen k' g' = Inl AssertFailed) \<and>
    (let (k, g') = KeyGenerator_ctor gen eng shuffle junk g BaseGenerator UNIQUE_RANDOM num seed key_size 0 in
      \<exists>xs k'. draws gen (unat num) k g' = Inr (xs, k', g') \<and> mset xs = mset (map of_nat [0..<unat num]) \<and>
        dispatch_Next gen k' g' = Inl AssertFailed)"
proof -
  have fin: "draws gen (unat num) k g' = Inr (kg_values k, k\<lparr>kg_next := num\<rparr>, g') \<and>
      dispatch_Next gen (k\<lparr>kg_next := num\<rparr>) g' = Inl AssertFailed"
    if "prepared k" "kg_next k = 0" "kg_distinct_num k = num" for k g'
    using that prepared_draws [OF that(1), of "unat num" gen g'] prepared_Next [of "k\<lparr>kg_next := num\<rparr>" gen g']
    by (simp add: prepared_def)
  obtain vals g' where v: "init_random gen num mn (unat mn) (replicate (unat num) 0) g = (vals, g')" by fastforce
  have vs: "length vals = unat num" "\<forall>x \<in> set vals. x = 0 \<or> (\<exists>y. y < num \<and> x = y + mn)"
    using init_random_values [of "unat mn" "replicate (unat num) 0" num gen mn g] assms(1,2) v by auto
  let ?k = "\<lparr>kg_class = BaseGenerator, kg_mode = INCREMENTAL_RANDOM, kg_min = mn, kg_distinct_num = num, kg_next = 0,
    kg_key_size = key_size, kg_values = sort vals, kg_key_mem = AllocateKey junk key_size\<rparr>"
  have 1: "KeyGenerator_ctor gen eng shuffle junk g BaseGenerator INCREMENTAL_RANDOM num seed key_size mn = (?k, g')"
    by (simp add: KeyGenerator_ctor_def v)
  let ?u = "\<lparr>kg_class = BaseGenerator, kg_mode = UNIQUE_RANDOM, kg_min = 0, kg_distinct_num = num, kg_next = 0,
    kg_key_size = key_size, kg_values = shuffle (eng (ucast seed)) (map of_nat [0..<unat num]),
    kg_key_mem = AllocateKey junk key_size\<rparr>"
  have 2: "KeyGenerator_ctor gen eng shuffle junk g BaseGenerator UNIQUE_RANDOM num seed key_size 0 = (?u, g)"
    by (simp add: KeyGenerator_ctor_def RandomShuffle_def init_unique_eq)
  have "length (shuffle h xs) = length xs" for h and xs :: "u64 list" using perm by (metis size_mset)
  then have "prepared ?u" by (simp add: prepared_def)
  moreover have "prepared ?k" using vs(1) by (simp add: prepared_def)
  ultimately show ?thesis using fin [of ?k] fin [of ?u] vs perm by (simp add: 1 2)
qed

theorem prepared_generators_witness:
  "\<exists>xs k'. draws (\<lambda>n. (7 * n, n + 1)) 3
     (fst (KeyGenerator_ctor (\<lambda>n. (7 * n, n + 1)) (\<lambda>s. ()) (\<lambda>h. rev) (\<lambda>i. 0) 5 BaseGenerator UNIQUE_RANDOM 3 0 8 0)) 5
     = Inr (xs, k', 5) \<and> mset xs = {#0, 1, 2#}"
proof -
  have m: "mset (map of_nat [0..<3]) = {#0, 1, 2 :: u64#}" by (simp add: upt_rec)
  have "snd (KeyGenerator_ctor (\<lambda>n. (7 * n, n + 1)) (\<lambda>s. ()) (\<lambda>h. rev) (\<lambda>i. 0) 5 BaseGenerator UNIQUE_RANDOM 3 0 8 0) = (5 :: u64)"
    by (simp add: KeyGenerator_ctor_def)
  then show ?thesis
    using prepared_generators [of 3 0 "\<lambda>(h :: unit). rev" "\<lambda>n. (7 * n, n + 1)" "\<lambda>s. ()" "\<lambda>i. 0" 5 0 8]
    by (simp add: m case_prod_beta del: mset_map mset_upt) blast
qed

text \<open>
  \<open>SeqKeyGenerator\<close> is meant to count up from \<open>min_value\<close>, but it takes the maximum with the largest
  64-bit number where it needs the minimum: every draw is that number, from every state, and every key
  it generates is the same.
\<close>

theorem seq_generator_is_constant:
  assumes "kg_class k = SeqGenerator"
  shows "\<exists>k'. dispatch_Next gen k g = Inr (- 1, k', g) \<and> kg_class k' = SeqGenerator \<and>
    kg_next k' = kg_next k + 1 \<and>
    (\<exists>ks. draws gen n k g = Inr (replicate n (- 1), ks, g))"
proof -
  have step: "dispatch_Next gen k g = Inr (- 1, k\<lparr>kg_next := kg_next k + 1\<rparr>, g)" if "kg_class k = SeqGenerator" for k
    using that by (simp add: dispatch_Next_def SeqKeyGenerator_Next_def max_def word_order.extremum_uniqueI)
  have "\<exists>ks. draws gen n k g = Inr (replicate n (- 1), ks, g)" using assms
  proof (induction n arbitrary: k)
    case (Suc n)
    then obtain ks where "draws gen n (k\<lparr>kg_next := kg_next k + 1\<rparr>) g = Inr (replicate n (- 1), ks, g)" by fastforce
    then show ?case by (simp add: step [OF Suc.prems])
  qed simp
  with step [OF assms] assms show ?thesis by simp
qed

theorem seq_generator_is_constant_witness:
  "\<exists>ks. draws (\<lambda>g. (0, g)) 3 (SeqKeyGenerator_ctor (\<lambda>i. 0) 10) () = Inr ([- 1, - 1, - 1], ks, ())"
proof -
  have "kg_class (SeqKeyGenerator_ctor (\<lambda>i. 0) 10) = SeqGenerator"
    by (simp add: SeqKeyGenerator_ctor_def KeyGenerator_ctor_def)
  moreover have "replicate 3 (- 1 :: u64) = [- 1, - 1, - 1]" by (simp add: numeral_eq_Suc)
  ultimately show ?thesis
    using seq_generator_is_constant [of "SeqKeyGenerator_ctor (\<lambda>i. 0) 10" "\<lambda>g. (0, g)" "()" 3] by metis
qed

section \<open>The content of a spanning generator\<close>

lemma map_emplace_new:
  assumes "\<And>a b. lt a b \<or> lt b a \<or> a = b" "k \<notin> fst ` set xs"
  shows "mset (map_emplace lt k v xs) = add_mset (k, v) (mset xs)"
  using assms(2)
proof (induction xs)
  case (Cons e xs)
  obtain k' v' where e: "e = (k', v')" by (cases e)
  with Cons.prems assms(1) have "lt k k' \<or> lt k' k" by fastforce
  with e Cons show ?case by auto
qed simp

lemma set_map_emplace: "set (map_emplace lt k v xs) \<subseteq> insert (k, v) (set xs)"
  by (induction xs) (auto split: if_splits)

lemma map_emplace_sorted:
  assumes "\<And>a b c. lt a b \<Longrightarrow> lt b c \<Longrightarrow> lt a c" "sorted_wrt (\<lambda>a b. lt (fst a) (fst b)) xs"
  shows "sorted_wrt (\<lambda>a b. lt (fst a) (fst b)) (map_emplace lt k v xs)"
  using assms(2)
proof (induction xs)
  case (Cons e xs)
  obtain k' v' where e: "e = (k', v')" by (cases e)
  have "lt k k' \<Longrightarrow> \<forall>x \<in> set xs. lt k (fst x)" using Cons.prems assms(1) by (fastforce simp: e)
  moreover have "lt k' k \<Longrightarrow> \<forall>x \<in> set (map_emplace lt k v xs). lt k' (fst x)"
    using Cons.prems set_map_emplace [of lt k v xs] by (fastforce simp: e)
  ultimately show ?case using Cons by (simp add: e)
qed simp

text \<open>The entries, in the order of generation: sequence numbers go up in steps of two.\<close>

fun span_entries :: "u64 \<Rightarrow> nat \<Rightarrow> SequenceNumber \<Rightarrow> u64 list \<Rightarrow> (byte list \<times> byte list) list" where
  "span_entries num key_size seqno [] = []"
| "span_entries num key_size seqno (x # xs) =
     (ikey_bytes \<lparr>pik_user_key = key_bytes (x mod num) key_size, pik_sequence = seqno + 1, pik_type = kTypeValue\<rparr>,
      bytes_of_string ''1234567890'') # span_entries num key_size (seqno + 2) xs"

definition span_ikey :: "u64 \<Rightarrow> nat \<Rightarrow> SequenceNumber \<Rightarrow> u64 list \<Rightarrow> nat \<Rightarrow> ParsedInternalKey" where
  "span_ikey num key_size seqno xs i =
     \<lparr>pik_user_key = key_bytes (xs ! i mod num) key_size, pik_sequence = seqno + 2 * of_nat i + 1, pik_type = kTypeValue\<rparr>"

lemma span_entries_eq:
  "span_entries num key_size seqno xs =
     map (\<lambda>i. (ikey_bytes (span_ikey num key_size seqno xs i), bytes_of_string ''1234567890'')) [0..<length xs]"
proof (induction xs arbitrary: seqno)
  case (Cons x xs)
  have "map f [0..<length (x # xs)] = f 0 # map (\<lambda>i. f (Suc i)) [0..<length xs]" for f :: "nat \<Rightarrow> byte list \<times> byte list"
    by (simp add: upt_conv_Cons map_Suc_upt [symmetric] comp_def del: upt_Suc)
  then show ?case by (simp add: Cons span_ikey_def algebra_simps del: upt_Suc)
qed simp

text \<open>The keys collected so far have sequence numbers up to \<open>seqno\<close>.\<close>

definition upto_seqno :: "SequenceNumber \<Rightarrow> (byte list \<times> byte list) list \<Rightarrow> bool" where
  "upto_seqno seqno content \<longleftrightarrow>
     (\<forall>e \<in> set content. \<exists>p. pik_ok p \<and> fst e = ikey_bytes p \<and> pik_sequence p \<le> seqno)"

lemma upto_seqno_new:
  assumes "upto_seqno s content" "pik_ok p" "s < pik_sequence p"
  shows "ikey_bytes p \<notin> fst ` set content"
proof
  assume "ikey_bytes p \<in> fst ` set content"
  then obtain e where e: "ikey_bytes p = fst e" "e \<in> set content" by (rule imageE)
  from bspec [OF assms(1) [unfolded upto_seqno_def] e(2)]
  obtain q where q: "pik_ok q" "fst e = ikey_bytes q" "pik_sequence q \<le> s" by blast
  have "ikey_bytes p = ikey_bytes q" using e(1) q(2) by (rule trans)
  then have "ikey_parsed (ikey_bytes p) = ikey_parsed (ikey_bytes q)" by (rule arg_cong)
  then have "p = q" unfolding ikey_parsed_bytes [OF assms(2)] ikey_parsed_bytes [OF q(1)] .
  with q(3) assms(3) show False by simp
qed

lemma upto_seqno_insert:
  assumes "upto_seqno s content" "s \<le> s'" "pik_ok p" "pik_sequence p \<le> s'"
    "set content' = insert (ikey_bytes p, v) (set content)"
  shows "upto_seqno s' content'"
  unfolding upto_seqno_def
proof
  fix e assume "e \<in> set content'"
  then consider "e = (ikey_bytes p, v)" | "e \<in> set content" using assms(5) by blast
  then show "\<exists>p. pik_ok p \<and> fst e = ikey_bytes p \<and> pik_sequence p \<le> s'"
  proof cases
    case 1
    with assms(3,4) show ?thesis by auto
  next
    case 2
    from bspec [OF assms(1) [unfolded upto_seqno_def] 2] assms(2) show ?thesis by (blast intro: order_trans)
  qed
qed

lemma kTypeValue_ok: "IsExtendedValueType kTypeValue"
  by code_simp

lemma content_loop_ok:
  assumes "\<And>a b. LessOfComparator cmp a b \<or> LessOfComparator cmp b a \<or> a = b"
    and "kg_distinct_num k \<noteq> 0" "8 \<le> kg_key_size k" "length (kg_key_mem k) = kg_key_size k"
    and "unat seqno + 2 * length keys \<le> unat kMaxSequenceNumber" "upto_seqno seqno content"
  shows "\<exists>content' k'. content_loop le cmp keys k seqno content = Inr (content', k', seqno + 2 * of_nat (length keys)) \<and>
    mset content' = mset content + mset (span_entries (kg_distinct_num k) (kg_key_size k) seqno keys)"
  using assms(2-6)
proof (induction keys arbitrary: k seqno content)
  case (Cons x keys)
  let ?b = "key_bytes (x mod kg_distinct_num k) (kg_key_size k)"
  let ?p = "\<lparr>pik_user_key = ?b, pik_sequence = seqno + 1, pik_type = kTypeValue\<rparr>"
  let ?k = "k\<lparr>kg_key_mem := ?b\<rparr>"
  let ?c = "map_emplace (LessOfComparator cmp) (ikey_bytes ?p) (bytes_of_string ''1234567890'') content"
  have u: "unat (seqno + 1) = unat seqno + 1" "unat (seqno + 2) = unat seqno + 2"
    using Cons.prems(4) by (simp_all add: unat_word_ariths unat_kMaxSequenceNumber)
  have ok: "pik_ok ?p" using u Cons.prems(4) by (simp add: pik_ok_def word_le_nat_alt kTypeValue_ok)
  have gen: "kg_GenerateKeyFromInt le k x = Inr (?b, ?k)"
    using GenerateKeyFromInt_ok [OF Cons.prems(1-3)] by (simp add: kg_GenerateKeyFromInt_def)
  have enc: "InternalKey_ctor le ?b (seqno + 1) kTypeValue = Inr \<lparr>ik_rep = ikey_bytes ?p\<rparr>"
    "ik_Encode \<lparr>ik_rep = ikey_bytes ?p\<rparr> = Inr (ikey_bytes ?p)"
    using AppendInternalKey_ok [OF ok, of le "[]"] length_ikey_bytes [of ?p]
    by (auto simp: InternalKey_ctor_def ik_Encode_def require_def simp del: length_ikey_bytes)
  have new: "ikey_bytes ?p \<notin> fst ` set content"
    by (rule upto_seqno_new [OF Cons.prems(5) ok]) (simp add: word_less_nat_alt u)
  note ce = map_emplace_new [OF assms(1) new, of "bytes_of_string ''1234567890''"]
  have up: "upto_seqno (seqno + 2) ?c"
    by (rule upto_seqno_insert [OF Cons.prems(5) _ ok]) (use ce in \<open>simp_all add: word_le_nat_alt u flip: set_mset_mset\<close>)
  have "length ?b = kg_key_size k" using Cons.prems(2) by (simp add: key_bytes_def)
  then obtain content' k' where "content_loop le cmp keys ?k (seqno + 2) ?c = Inr (content', k', seqno + 2 + 2 * of_nat (length keys))"
    "mset content' = mset ?c + mset (span_entries (kg_distinct_num k) (kg_key_size k) (seqno + 2) keys)"
    using Cons.IH [of ?k "seqno + 2" ?c] Cons.prems(1-4) u(2) up by auto
  then show ?case
    using gen enc ce by (simp add: add.assoc)
qed simp

lemma content_loop_sorted:
  assumes "\<And>a b c. LessOfComparator cmp a b \<Longrightarrow> LessOfComparator cmp b c \<Longrightarrow> LessOfComparator cmp a c"
  shows "content_loop le cmp keys k seqno content = Inr (content', r) \<Longrightarrow>
    sorted_wrt (\<lambda>a b. LessOfComparator cmp (fst a) (fst b)) content \<Longrightarrow>
    sorted_wrt (\<lambda>a b. LessOfComparator cmp (fst a) (fst b)) content'"
proof (induction keys arbitrary: k seqno content)
  case (Cons key keys)
  from Cons.prems(1) obtain e k' where loop: "content_loop le cmp keys k' (seqno + 1 + 1)
      (map_emplace (LessOfComparator cmp) e (bytes_of_string ''1234567890'') content) = Inr (content', r)"
    by (auto simp: res_bind_def split: sum.splits)
  show ?case by (rule Cons.IH [OF loop]) (rule map_emplace_sorted [OF _ Cons.prems(2)], rule assms)
qed simp

text \<open>The numbers that the distribution gives one after the other, and the set of them.\<close>

fun uniform_draws :: "(u64 \<Rightarrow> u64 \<Rightarrow> 'g \<Rightarrow> u64 \<times> 'g) \<Rightarrow> u64 \<Rightarrow> u64 \<Rightarrow> nat \<Rightarrow> 'g \<Rightarrow> u64 list" where
  "uniform_draws dist lower upper 0 g = []"
| "uniform_draws dist lower upper (Suc n) g = fst (dist lower upper g) # uniform_draws dist lower upper n (snd (dist lower upper g))"

lemma length_uniform_draws [simp]: "length (uniform_draws dist lower upper n g) = n"
  by (induction n arbitrary: g) simp_all

lemma set_insert_sorted: "sorted xs \<Longrightarrow> distinct xs \<Longrightarrow> sorted (set_insert x xs) \<and> distinct (set_insert x xs) \<and> set (set_insert x xs) = insert x (set xs)"
  by (simp add: set_insert_def sorted_insort distinct_insort set_insort_key insert_absorb)

lemma spanning_draws_sorted:
  "sorted xs \<Longrightarrow> distinct xs \<Longrightarrow>
   sorted (spanning_draws dist lower upper n xs g) \<and> distinct (spanning_draws dist lower upper n xs g) \<and>
   set (spanning_draws dist lower upper n xs g) = set xs \<union> set (uniform_draws dist lower upper n g)"
  by (induction n arbitrary: xs g) (simp_all add: case_prod_unfold Let_def set_insert_sorted)

lemma spanning_draws_length: "length (spanning_draws dist lower upper n [] g) \<le> n"
proof -
  let ?xs = "spanning_draws dist lower upper n [] g"
  have "length ?xs = card (set (uniform_draws dist lower upper n g))"
    using spanning_draws_sorted [of "[]" dist lower upper n g] distinct_card [of ?xs] by simp
  then show ?thesis using card_length [of "uniform_draws dist lower upper n g"] by simp
qed

text \<open>
  C5: from random numbers to the entries of a table. The numbers are drawn from a distribution between bounds in order; the comparator of the
  map keeps the documented laws and tells different strings apart, as the bytewise one does; the key generator has a number of keys
  that is not 0 and a buffer of its key size, eight bytes or more; and there are sequence numbers left for two per number. Then the
  constructor keeps exactly the numbers drawn, each once and in ascending order, and \<open>GenerateContent\<close> returns without a fault one entry for each of them,
  in the order of the comparator. The key of the entry of the \<open>i\<close>-th number parses, on a machine of either byte order, to the number modulo the number of keys
  as a generated key, the type of a value and the sequence number \<open>2 i + 1\<close> above the given one: both increments of the loop count. The value is the ten digits,
  and the sequence number variable ends two per number later.
\<close>

theorem spanning_content_roundtrip:
  assumes "user_comparator cmp" "\<And>a b. cmp_Compare cmp a b = 0 \<Longrightarrow> a = b"
    and "lower < upper" "kg_distinct_num k \<noteq> 0" "8 \<le> kg_key_size k" "length (kg_key_mem k) = kg_key_size k"
    and "unat seqno + 2 * nat num_keys \<le> unat kMaxSequenceNumber"
  shows "\<exists>sp content k'. SpanningKeyGenerator_ctor dist g lower upper num_keys kUniform = Inr sp \<and>
    sorted (sp_result_list sp) \<and> distinct (sp_result_list sp) \<and>
    set (sp_result_list sp) = set (uniform_draws dist lower upper (nat num_keys) g) \<and>
    GenerateContent le cmp sp k seqno = Inr (content, k', seqno + 2 * of_nat (length (sp_result_list sp))) \<and>
    sorted_wrt (\<lambda>a b. cmp_Compare cmp (fst a) (fst b) < 0) content \<and>
    mset (map (\<lambda>(key, value). (ParseInternalKey le' key, value)) content) =
      mset (map (\<lambda>i. (Inr (True, Some \<lparr>pik_user_key = key_bytes (sp_result_list sp ! i mod kg_distinct_num k) (kg_key_size k),
          pik_sequence = seqno + 2 * of_nat i + 1, pik_type = kTypeValue\<rparr>), bytes_of_string ''1234567890''))
        [0..<length (sp_result_list sp)])"
proof -
  let ?xs = "spanning_draws dist lower upper (nat num_keys) [] g"
  define sp where "sp = \<lparr>sp_lower_bound = lower, sp_upper_bound = upper, sp_result_list = ?xs\<rparr>"
  have ctor: "SpanningKeyGenerator_ctor dist g lower upper num_keys kUniform = Inr sp"
    using assms(3) by (simp add: SpanningKeyGenerator_ctor_def sp_def)
  have room: "unat seqno + 2 * length ?xs \<le> unat kMaxSequenceNumber"
    using assms(7) spanning_draws_length [of dist lower upper "nat num_keys" g] by linarith
  have three: "three_way UNIV (cmp_Compare cmp)" using assms(1) by (simp add: user_comparator_def)
  have total: "LessOfComparator cmp a b \<or> LessOfComparator cmp b a \<or> a = b" for a b
    using three_way.flip_less [OF three, of a b] assms(2) [of a b] by (auto simp: LessOfComparator_def)
  have trans: "LessOfComparator cmp a c" if "LessOfComparator cmp a b" "LessOfComparator cmp b c" for a b c
    using three_way.strict_weak_order(3) [OF three, of a b c] that by (simp add: LessOfComparator_def)
  obtain content k' where c: "GenerateContent le cmp sp k seqno = Inr (content, k', seqno + 2 * of_nat (length ?xs))"
    "mset content = mset (span_entries (kg_distinct_num k) (kg_key_size k) seqno ?xs)"
    using content_loop_ok [OF total assms(4-6) room, of "[]" le] by (auto simp: GenerateContent_def sp_def upto_seqno_def)
  have "sorted_wrt (\<lambda>a b. cmp_Compare cmp (fst a) (fst b) < 0) content"
    using content_loop_sorted [OF trans c(1) [unfolded GenerateContent_def]] by (simp add: LessOfComparator_def)
  moreover have "ParseInternalKey le' (ikey_bytes (span_ikey (kg_distinct_num k) (kg_key_size k) seqno ?xs i)) =
      Inr (True, Some (span_ikey (kg_distinct_num k) (kg_key_size k) seqno ?xs i))" if "i < length ?xs" for i
  proof -
    have "seqno + 2 * of_nat i + 1 = of_nat (unat seqno + 2 * i + 1)" by simp
    moreover have "unat seqno + 2 * i + 1 < 2 ^ 64" "unat seqno + 2 * i + 1 \<le> unat kMaxSequenceNumber"
      using room that by (simp_all add: unat_kMaxSequenceNumber)
    ultimately have "unat (seqno + 2 * of_nat i + 1) \<le> unat kMaxSequenceNumber" by (simp only: unat_of_nat) simp
    then have "pik_ok (span_ikey (kg_distinct_num k) (kg_key_size k) seqno ?xs i)"
      by (simp add: pik_ok_def span_ikey_def word_le_nat_alt kTypeValue_ok)
    then show ?thesis by (simp add: ParseInternalKey_eq ikey_parsed_bytes) (simp add: pik_ok_def)
  qed
  then have "mset (map (\<lambda>(key, value). (ParseInternalKey le' key, value)) content) =
      mset (map (\<lambda>i. (Inr (True, Some (span_ikey (kg_distinct_num k) (kg_key_size k) seqno ?xs i)), bytes_of_string ''1234567890'')) [0..<length ?xs])"
    unfolding mset_map c(2) span_entries_eq image_mset.compositionality by (intro image_mset_cong) simp
  ultimately show ?thesis
    using ctor c(1) spanning_draws_sorted [of "[]" dist lower upper "nat num_keys" g]
    by (intro exI [of _ sp] exI [of _ content] exI [of _ k']) (simp add: sp_def span_ikey_def)
qed

text \<open>Three draws, two of them equal, and keys modulo 100.\<close>

theorem spanning_content_roundtrip_witness:
  "\<exists>sp content k'. SpanningKeyGenerator_ctor (\<lambda>lower upper n. (lower + n mod 2, n + 1)) (4 :: u64) 300 310 3 kUniform = Inr sp \<and>
    sp_result_list sp = [300, 301] \<and>
    GenerateContent True slice_order_comparator sp
      \<lparr>kg_class = BaseGenerator, kg_mode = SEQUENTIAL, kg_min = 0, kg_distinct_num = 100, kg_next = 0,
       kg_key_size = 8, kg_values = [], kg_key_mem = replicate 8 0\<rparr> 10 = Inr (content, k', 14) \<and> length content = 2"
proof -
  let ?dist = "\<lambda>(lower :: u64) (upper :: u64) (n :: u64). (lower + n mod 2, n + 1)"
  let ?k = "\<lparr>kg_class = BaseGenerator, kg_mode = SEQUENTIAL, kg_min = 0, kg_distinct_num = 100, kg_next = 0,
       kg_key_size = 8, kg_values = [], kg_key_mem = replicate 8 0\<rparr>"
  have eq: "cmp_Compare slice_order_comparator a b = 0 \<Longrightarrow> a = b" for a b
    by (simp add: slice_order_comparator_def Comparator_defaults_def)
  have ctor: "SpanningKeyGenerator_ctor ?dist 4 300 310 3 kUniform =
      Inr \<lparr>sp_lower_bound = 300, sp_upper_bound = 310, sp_result_list = [300, 301]\<rparr>"
  proof -
    have "nat 3 = Suc (Suc (Suc 0))" by simp
    then show ?thesis by (simp only: SpanningKeyGenerator_ctor_def spanning_draws.simps DISTRIBUTION_TYPE.case) (simp add: set_insert_def)
  qed
  have k: "(300 :: u64) < 310" "kg_distinct_num ?k \<noteq> 0" "8 \<le> kg_key_size ?k" "length (kg_key_mem ?k) = kg_key_size ?k"
    "unat (10 :: u64) + 2 * nat 3 \<le> unat kMaxSequenceNumber" by (simp_all add: unat_kMaxSequenceNumber)
  from spanning_content_roundtrip [where dist = ?dist, OF slice_order.user_comparator_axioms eq k, of 4 True False]
  obtain sp content k' where r: "SpanningKeyGenerator_ctor ?dist 4 300 310 3 kUniform = Inr sp"
    "GenerateContent True slice_order_comparator sp ?k 10 = Inr (content, k', 10 + 2 * of_nat (length (sp_result_list sp)))"
    "mset (map (\<lambda>(key, value). (ParseInternalKey False key, value)) content) =
      mset (map (\<lambda>i. (Inr (True, Some \<lparr>pik_user_key = key_bytes (sp_result_list sp ! i mod kg_distinct_num ?k) (kg_key_size ?k),
          pik_sequence = 10 + 2 * of_nat i + 1, pik_type = kTypeValue\<rparr>), bytes_of_string ''1234567890''))
        [0..<length (sp_result_list sp)])" by blast
  have sp: "sp_result_list sp = [300, 301]" using r(1) ctor by auto
  have "length content = 2" using arg_cong [OF r(3), of size] unfolding size_mset length_map by (simp add: sp)
  with r(1,2) sp show ?thesis by auto
qed

end
