(* ===== verification/Blocks.thy ===== *)
theory Blocks
  imports Coding
begin

text \<open>
  \<open>db_format/on_board_format.h\<close>, \<open>db_format/on_board_fomat.cc\<close> and the class \<open>GearBlock\<close> of
  \<open>tables/gear_table/gear_table.cc\<close>: the 8 KiB block with a 64-byte header, the values growing
  from the front and the keys, last one first, at the back.

  \<open>OnBoardBlock\<close> and \<open>GearBlock\<close> have the same members and the same \<open>AddBlock\<close>; they differ in
  \<open>ComposeResults\<close>. An \<open>int\<close> member is a 32-bit word. The macros are expanded as text:
  \<open>BLOCK_SIZE\<close> is \<open>8*1024\<close>, \<open>FULL_KEY_LENGTH\<close> is \<open>8 + 8\<close> without parentheses, so that
  \<open>entry_posi * FULL_KEY_LENGTH\<close> is \<open>entry_posi * 8 + 8\<close>.
\<close>

section \<open>Blocks\<close>

definition BLOCK_SIZE :: nat where "BLOCK_SIZE = 8 * 1024"
definition HEADER_LENGTH :: nat where "HEADER_LENGTH = 64"
definition KEY_CONTENT_LENGTH :: nat where "KEY_CONTENT_LENGTH = 8"
definition KEY_SUFFIX_LENGTH :: nat where "KEY_SUFFIX_LENGTH = 8"
definition VALUE_LENGTH :: nat where "VALUE_LENGTH = 10"
definition MAX_ENTRY_IN_BLOCK :: nat where "MAX_ENTRY_IN_BLOCK = 312"

lemmas block_consts = BLOCK_SIZE_def HEADER_LENGTH_def KEY_CONTENT_LENGTH_def KEY_SUFFIX_LENGTH_def
  VALUE_LENGTH_def MAX_ENTRY_IN_BLOCK_def

record Block =
  blk_content_block :: "byte list"
  blk_key_content :: "byte list"
  blk_value_content :: "byte list"
  blk_num_of_entries :: u32
  blk_block_id :: u32

definition Block_ctor :: "u32 \<Rightarrow> Block" where
  "Block_ctor block_id =
     \<lparr>blk_content_block = [], blk_key_content = [], blk_value_content = [],
      blk_num_of_entries = 0, blk_block_id = block_id\<rparr>"

text \<open>Indexing a vector: out of range is a fault.\<close>

definition vec_at :: "'a list \<Rightarrow> nat \<Rightarrow> 'a res" where
  "vec_at v i = (if i < length v then Inr (v ! i) else Inl OutOfBounds)"

text \<open>The loop of \<open>AddBlock\<close> from \<open>i\<close> up to \<open>n = num_of_entries\<close>.\<close>

function AddBlock_loop :: "Slice list \<Rightarrow> Slice list \<Rightarrow> nat \<Rightarrow> nat \<Rightarrow> Block \<Rightarrow> Block res" where
  "AddBlock_loop keys vals n i b =
     (if i < n then
        res_bind (vec_at keys (n - i - 1)) (\<lambda>k. res_bind (slice_read k) (\<lambda>kb.
        res_bind (vec_at vals i) (\<lambda>v. res_bind (slice_read v) (\<lambda>vb.
          AddBlock_loop keys vals n (i + 1)
            (b\<lparr>blk_key_content := blk_key_content b @ kb,
               blk_value_content := blk_value_content b @ vb\<rparr>)))))
      else Inr b)"
  by pat_completeness auto
termination
  by (relation "measure (\<lambda>(keys, vals, n, i, b). n - i)") auto

declare AddBlock_loop.simps [simp del]

text \<open>The part of \<open>ComposeResults\<close> the two classes share: the placeholder length and the header.\<close>

definition placeholder_length :: "Block \<Rightarrow> u32" where
  "placeholder_length b =
     of_nat BLOCK_SIZE - of_nat (HEADER_LENGTH + length (blk_key_content b) + length (blk_value_content b))"

definition put_header :: "bool \<Rightarrow> Block \<Rightarrow> byte list" where
  "put_header le b =
     (let c = blk_content_block b;
          c = PutFixed32 le c (blk_block_id b);
          c = PutFixed32 le c (blk_num_of_entries b);
          c = PutFixed32 le c (of_nat (length (blk_key_content b)));
          c = PutFixed32 le c (of_nat (length (blk_value_content b)));
          c = PutFixed32 le c (placeholder_length b);
          c = PutFixed32 le c 0;
          c = PutFixed32 le c 0;
          c = PutFixed32 le c 0;
          c = PutFixed32 le c 0;
          c = PutFixed32 le c 0;
          c = PutFixed32 le c 0;
          c = PutFixed32 le c 0;
          c = PutFixed32 le c 0;
          c = PutFixed32 le c 0;
          c = PutFixed32 le c 0;
          c = PutFixed32 le c 0 in c)"

text \<open>\<open>GearBlock\<close> pads with the letter h; the value returned is the size of the block.\<close>

definition GearBlock_ComposeResults :: "bool \<Rightarrow> Block \<Rightarrow> nat \<times> Block" where
  "GearBlock_ComposeResults le b =
     (let c = put_header le b;
          c = c @ blk_value_content b;
          placeholder = replicate (unat (placeholder_length b)) 104;
          c = c @ placeholder;
          c = c @ blk_key_content b in
      (length c, b\<lparr>blk_content_block := c\<rparr>))"

text \<open>\<open>OnBoardBlock\<close> builds the placeholder string and does not append it.\<close>

definition OnBoardBlock_ComposeResults :: "bool \<Rightarrow> Block \<Rightarrow> nat \<times> Block" where
  "OnBoardBlock_ComposeResults le b =
     (let c = put_header le b;
          c = c @ blk_value_content b;
          placeholder = replicate (unat (placeholder_length b)) (104 :: byte);
          c = c @ blk_key_content b in
      (0, b\<lparr>blk_content_block := c\<rparr>))"

definition GearBlock_AddBlock :: "bool \<Rightarrow> Block \<Rightarrow> Slice list \<Rightarrow> Slice list \<Rightarrow> (u32 \<times> Block) res" where
  "GearBlock_AddBlock le b keys vals =
     require (length keys = length vals)
       (let b = b\<lparr>blk_num_of_entries := of_nat (length keys)\<rparr> in
        res_bind (AddBlock_loop keys vals (nat (sint (blk_num_of_entries b))) 0 b) (\<lambda>b.
          let b = snd (GearBlock_ComposeResults le b) in
          Inr (blk_num_of_entries b, b)))"

definition OnBoardBlock_AddBlock :: "bool \<Rightarrow> Block \<Rightarrow> Slice list \<Rightarrow> Slice list \<Rightarrow> (u32 \<times> Block) res" where
  "OnBoardBlock_AddBlock le b keys vals =
     require (length keys = length vals)
       (let b = b\<lparr>blk_num_of_entries := of_nat (length keys)\<rparr> in
        res_bind (AddBlock_loop keys vals (nat (sint (blk_num_of_entries b))) 0 b) (\<lambda>b.
          let b = snd (OnBoardBlock_ComposeResults le b) in
          Inr (blk_num_of_entries b, b)))"

text \<open>
  \<open>AppendToFile\<close> hands \<open>BLOCK_SIZE\<close> bytes from \<open>c_str()\<close> to \<open>write\<close>: the bytes passed, and the
  result, which is what \<open>write\<close> returned (\<open>assert(-1)\<close> never fails).
\<close>

definition OnBoardBlock_AppendToFile :: "Block \<Rightarrow> int \<Rightarrow> (byte list \<times> int) res" where
  "OnBoardBlock_AppendToFile b append_result =
     res_bind (read_bytes (blk_content_block b @ [0]) 0 BLOCK_SIZE) (\<lambda>bs. Inr (bs, append_result))"

section \<open>Lists of entries to blocks\<close>

text \<open>The slice of a vector that \<open>sub_key\<close> and \<open>sub_value\<close> copy.\<close>

definition end_posi :: "nat \<Rightarrow> nat \<Rightarrow> nat" where
  "end_posi i sz = (if i + MAX_ENTRY_IN_BLOCK > sz then sz else i + MAX_ENTRY_IN_BLOCK)"

function ComposeOnBoard_loop ::
  "bool \<Rightarrow> Slice list \<Rightarrow> Slice list \<Rightarrow> u32 \<Rightarrow> nat \<Rightarrow> Block list \<Rightarrow> Block list res" where
  "ComposeOnBoard_loop le keys vals block_id i block_list =
     (if i < length keys then
        require (length keys = length vals)
          (let e = end_posi i (length keys);
               sub_key = take (e - i) (drop i keys);
               sub_value = take (e - i) (drop i vals) in
           res_bind (OnBoardBlock_AddBlock le (Block_ctor block_id) sub_key sub_value) (\<lambda>(n, b).
             ComposeOnBoard_loop le keys vals block_id (i + MAX_ENTRY_IN_BLOCK) (block_list @ [b])))
      else Inr block_list)"
  by pat_completeness auto
termination
  by (relation "measure (\<lambda>(le, keys, vals, block_id, i, block_list). length keys - i)")
    (auto simp: MAX_ENTRY_IN_BLOCK_def)

declare ComposeOnBoard_loop.simps [simp del]

definition ComposeOnBoardBlock :: "bool \<Rightarrow> Slice list \<Rightarrow> Slice list \<Rightarrow> Block list \<Rightarrow> Block list res" where
  "ComposeOnBoardBlock le keys vals block_list = ComposeOnBoard_loop le keys vals 0 0 block_list"

section \<open>Blocks to lists of entries\<close>

text \<open>
  \<open>GetFixed32(&s, &v)\<close> with the result ignored: the new slice and the value, or the old value of
  the variable when the slice is too short.
\<close>

definition get32 :: "bool \<Rightarrow> Slice \<Rightarrow> u32 \<Rightarrow> (Slice \<times> u32) res" where
  "get32 le s v = res_bind (GetFixed32 le s) (\<lambda>r. Inr (case r of None \<Rightarrow> (s, v) | Some sv \<Rightarrow> sv))"

text \<open>
  The loop over the entries of one block, whose data now starts behind what was read of the header.
  The key pointer is \<open>data + 8*1024 - e * 8 + 8\<close>; a pointer before the object is a fault. The
  products are 32-bit; the counter stays below a 32-bit bound, so it is a natural number.
\<close>

function ComposeEntry_entries ::
  "Slice \<Rightarrow> nat \<Rightarrow> nat \<Rightarrow> Slice list \<Rightarrow> Slice list \<Rightarrow> (Slice list \<times> Slice list) res" where
  "ComposeEntry_entries blk block_entries entry_posi ks vs =
     (if entry_posi < block_entries then
        let back = unat (of_nat entry_posi * of_nat KEY_CONTENT_LENGTH :: u32);
            forth = unat (of_nat entry_posi * of_nat VALUE_LENGTH :: u32) in
        if back \<le> sl_data blk + BLOCK_SIZE then
          ComposeEntry_entries blk block_entries (entry_posi + 1)
            (ks @ [Slice_ptr (sl_base blk) (sl_data blk + BLOCK_SIZE - back + KEY_SUFFIX_LENGTH)
                    (KEY_CONTENT_LENGTH + KEY_SUFFIX_LENGTH)])
            (vs @ [Slice_ptr (sl_base blk) (sl_data blk + forth) VALUE_LENGTH])
        else Inl OutOfBounds
      else Inr (ks, vs))"
  by pat_completeness auto
termination
  by (relation "measure (\<lambda>(blk, n, e, ks, vs). n - e)") auto

declare ComposeEntry_entries.simps [simp del]

text \<open>
  The twelve reads of the header: 48 of its 64 bytes. The result is the advanced slice and
  \<open>block_entries\<close>, which keeps its indeterminate value \<open>u\<close> when nothing can be read.
\<close>

definition ComposeEntry_header :: "bool \<Rightarrow> Slice \<Rightarrow> u32 \<Rightarrow> (Slice \<times> u32) res" where
  "ComposeEntry_header le s u =
     res_bind (get32 le s u) (\<lambda>(s, block_id).
     res_bind (get32 le s u) (\<lambda>(s, block_entries).
     res_bind (get32 le s u) (\<lambda>(s, key_content_size).
     res_bind (get32 le s u) (\<lambda>(s, value_content_size).
     res_bind (get32 le s u) (\<lambda>(s, placeholder_length).
     res_bind (get32 le s u) (\<lambda>(s, useless).
     res_bind (get32 le s u) (\<lambda>(s, useless).
     res_bind (get32 le s u) (\<lambda>(s, useless).
     res_bind (get32 le s u) (\<lambda>(s, placeholder_length).
     res_bind (get32 le s u) (\<lambda>(s, useless).
     res_bind (get32 le s u) (\<lambda>(s, useless).
     res_bind (get32 le s u) (\<lambda>(s, useless).
       Inr (s, block_entries)))))))))))))"

function ComposeEntry_blocks ::
  "bool \<Rightarrow> Slice \<Rightarrow> u32 \<Rightarrow> nat \<Rightarrow> u32 \<Rightarrow> Slice list \<Rightarrow> Slice list \<Rightarrow> (u32 \<times> Slice list \<times> Slice list) res" where
  "ComposeEntry_blocks le input_blocks u i total_entries ks vs =
     (if i < sl_size input_blocks then
        let current_block = Slice_ptr (sl_base input_blocks) (sl_data input_blocks + i) BLOCK_SIZE in
        res_bind (ComposeEntry_header le current_block u) (\<lambda>(current_block, block_entries).
        res_bind (ComposeEntry_entries current_block (unat block_entries) 0 ks vs) (\<lambda>(ks, vs).
          ComposeEntry_blocks le input_blocks u (i + BLOCK_SIZE) (total_entries + block_entries) ks vs))
      else Inr (total_entries, ks, vs))"
  by pat_completeness auto
termination
  by (relation "measure (\<lambda>(le, input_blocks, u, i, total_entries, ks, vs). sl_size input_blocks - i)")
    (auto simp: BLOCK_SIZE_def)

declare ComposeEntry_blocks.simps [simp del]

text \<open>
  \<open>total_entries\<close> is declared without an initial value: \<open>u\<close> stands for what the uninitialised
  variables hold. The assertion compares the number of keys with the sum.
\<close>

definition ComposeEntryVector ::
  "bool \<Rightarrow> u32 \<Rightarrow> Slice list \<Rightarrow> Slice list \<Rightarrow> Slice \<Rightarrow> (Slice list \<times> Slice list) res" where
  "ComposeEntryVector le u key_array value_array input_blocks =
     res_bind (ComposeEntry_blocks le input_blocks u 0 u key_array value_array) (\<lambda>(total, ks, vs).
       require (length ks = unat total) (Inr (ks, vs)))"

section \<open>The bytes of a block\<close>

text \<open>
  The header as one list of bytes, and the two block images: with and without the padding.
\<close>

definition header_bytes :: "u32 \<Rightarrow> nat \<Rightarrow> nat \<Rightarrow> nat \<Rightarrow> byte list" where
  "header_bytes block_id n klen vlen =
     le_bytes 4 block_id @ le_bytes 4 (of_nat n :: u32) @ le_bytes 4 (of_nat klen :: u32) @
     le_bytes 4 (of_nat vlen :: u32) @
     le_bytes 4 (of_nat BLOCK_SIZE - of_nat (HEADER_LENGTH + klen + vlen) :: u32) @ replicate 44 0"

lemma le_bytes_zero [simp]: "le_bytes n (0 :: 'a::len word) = replicate n 0"
  by (rule nth_equalityI) (simp_all add: nth_le_bytes)

lemma length_header_bytes [simp]: "length (header_bytes block_id n klen vlen) = 64"
  by (simp add: header_bytes_def)

lemma put_header_bytes:
  "put_header le b = blk_content_block b @ header_bytes (blk_block_id b) (unat (blk_num_of_entries b))
     (length (blk_key_content b)) (length (blk_value_content b))"
  by (simp add: put_header_def codec_simps header_bytes_def placeholder_length_def Let_def
      numeral_eq_Suc)

definition entries_bytes :: "Slice list \<Rightarrow> byte list" where
  "entries_bytes ss = concat (map slice_bytes ss)"

lemma vec_at_ok [simp]: "i < length v \<Longrightarrow> vec_at v i = Inr (v ! i)"
  by (simp add: vec_at_def)

lemma AddBlock_loop_ok:
  assumes "length keys = n" "length vals = n" "\<forall>s \<in> set keys \<union> set vals. slice_wf s" "i \<le> n"
  shows "AddBlock_loop keys vals n i b =
    Inr (b\<lparr>blk_key_content := blk_key_content b @ entries_bytes (rev (take (n - i) keys)),
           blk_value_content := blk_value_content b @ entries_bytes (drop i vals)\<rparr>)"
  using assms
proof (induction keys vals n i b rule: AddBlock_loop.induct)
  case (1 keys vals n i b)
  show ?case
  proof (cases "i < n")
    case True
    then obtain j where j: "n - i = Suc j" "n - i - 1 = j" "n - (i + 1) = j" "j < n"
      by (cases "n - i") auto
    have wf: "slice_wf (keys ! j)" "slice_wf (vals ! i)"
      using True j(4) 1(2-4) nth_mem [of j keys] nth_mem [of i vals] by auto
    have "drop i vals = vals ! i # drop (i + 1) vals"
      using True 1(3) by (simp add: Cons_nth_drop_Suc)
    moreover have "rev (take (n - i) keys) = keys ! j # rev (take j keys)"
      using j 1(2) by (simp add: take_Suc_conv_app_nth)
    ultimately show ?thesis
      using True j wf 1(1) [OF True] 1(2-4)
      by (simp add: AddBlock_loop.simps [of keys vals n i] slice_simps entries_bytes_def)
  next
    case False
    with 1(2-5) show ?thesis
      by (simp add: AddBlock_loop.simps [of keys vals n n] entries_bytes_def)
  qed
qed

lemma sint_of_nat_u32: "n < 2 ^ 31 \<Longrightarrow> nat (sint (of_nat n :: u32)) = n"
  by (simp add: signed_of_nat signed_take_bit_int_eq_self)

text \<open>What both classes have after a call of \<open>AddBlock\<close> on a fresh block.\<close>

definition gear_block_bytes :: "u32 \<Rightarrow> Slice list \<Rightarrow> Slice list \<Rightarrow> byte list" where
  "gear_block_bytes block_id keys vals =
     (let kc = entries_bytes (rev keys); vc = entries_bytes vals in
      header_bytes block_id (length keys) (length kc) (length vc) @ vc @
      replicate (unat (of_nat BLOCK_SIZE - of_nat (HEADER_LENGTH + length kc + length vc) :: u32)) 104 @ kc)"

definition onboard_block_bytes :: "u32 \<Rightarrow> Slice list \<Rightarrow> Slice list \<Rightarrow> byte list" where
  "onboard_block_bytes block_id keys vals =
     (let kc = entries_bytes (rev keys); vc = entries_bytes vals in
      header_bytes block_id (length keys) (length kc) (length vc) @ vc @ kc)"

lemma unat_of_nat_u32: "n < 2 ^ 31 \<Longrightarrow> unat (of_nat n :: u32) = n"
  by (simp add: unat_of_nat take_bit_nat_eq_self_iff)

lemma AddBlock_fresh:
  fixes block_id :: u32
  assumes "length keys = length vals" "\<forall>s \<in> set keys \<union> set vals. slice_wf s" "length keys < 2 ^ 31"
  defines "b \<equiv> (Block_ctor block_id)\<lparr>blk_num_of_entries := of_nat (length keys)\<rparr>"
  shows "AddBlock_loop keys vals (nat (sint (blk_num_of_entries b))) 0 b =
    Inr (b\<lparr>blk_key_content := entries_bytes (rev keys), blk_value_content := entries_bytes vals\<rparr>)"
proof -
  have n: "nat (sint (blk_num_of_entries b)) = length keys"
    using sint_of_nat_u32 [OF assms(3)] by (simp add: b_def)
  show ?thesis
    unfolding n using AddBlock_loop_ok [OF refl _ assms(2), of 0 b] assms(1)
    by (simp add: b_def Block_ctor_def)
qed

lemma GearBlock_AddBlock_ok:
  assumes "length keys = length vals" "\<forall>s \<in> set keys \<union> set vals. slice_wf s" "length keys < 2 ^ 31"
  shows "\<exists>b. GearBlock_AddBlock le (Block_ctor block_id) keys vals = Inr (of_nat (length keys), b) \<and>
    blk_content_block b = gear_block_bytes block_id keys vals"
  unfolding GearBlock_AddBlock_def Let_def AddBlock_fresh [OF assms] unfolding assms(1)
  using unat_of_nat_u32 [OF assms(3)] assms(1)
  by (simp add: GearBlock_ComposeResults_def Block_ctor_def Let_def put_header_bytes
      gear_block_bytes_def placeholder_length_def)

lemma OnBoardBlock_AddBlock_ok:
  assumes "length keys = length vals" "\<forall>s \<in> set keys \<union> set vals. slice_wf s" "length keys < 2 ^ 31"
  shows "\<exists>b. OnBoardBlock_AddBlock le (Block_ctor block_id) keys vals = Inr (of_nat (length keys), b) \<and>
    blk_content_block b = onboard_block_bytes block_id keys vals"
  unfolding OnBoardBlock_AddBlock_def Let_def AddBlock_fresh [OF assms] unfolding assms(1)
  using unat_of_nat_u32 [OF assms(3)] assms(1)
  by (simp add: OnBoardBlock_ComposeResults_def Block_ctor_def Let_def put_header_bytes
      onboard_block_bytes_def placeholder_length_def)

section \<open>Reading a block back\<close>

text \<open>
  The reference decoder of the layout: entry \<open>j\<close> has its value \<open>j\<close> places behind the header and
  its key \<open>j + 1\<close> places before the end.
\<close>

definition block_count :: "byte list \<Rightarrow> nat" where
  "block_count c = unat (of_le_bytes (take 4 (drop 4 c)) :: u32)"

definition block_entry :: "byte list \<Rightarrow> nat \<Rightarrow> byte list \<times> byte list" where
  "block_entry c j =
     (take (KEY_CONTENT_LENGTH + KEY_SUFFIX_LENGTH)
        (drop (BLOCK_SIZE - (KEY_CONTENT_LENGTH + KEY_SUFFIX_LENGTH) * Suc j) c),
      take VALUE_LENGTH (drop (HEADER_LENGTH + VALUE_LENGTH * j) c))"

definition block_entries_of :: "byte list \<Rightarrow> (byte list \<times> byte list) list" where
  "block_entries_of c = map (block_entry c) [0..<block_count c]"

lemma length_concat_fixed: "\<forall>x \<in> set xs. length x = m \<Longrightarrow> length (concat xs) = m * length xs"
  by (induction xs) auto

lemma nth_concat_fixed:
  "\<forall>x \<in> set xs. length x = m \<Longrightarrow> j < length xs \<Longrightarrow> take m (drop (m * j) (concat xs)) = xs ! j"
proof (induction xs arbitrary: j)
  case (Cons x xs)
  then show ?case by (cases j) simp_all
qed simp

text \<open>The same, counted from the end of the reversed list.\<close>

lemma nth_concat_fixed_rev:
  assumes "\<forall>x \<in> set xs. length x = m" "j < length xs"
  shows "take m (drop (m * length xs - m * Suc j) (concat (rev xs))) = xs ! j"
proof -
  have "m * length xs - m * Suc j = m * (length xs - Suc j)" by (simp add: diff_mult_distrib2)
  with nth_concat_fixed [of "rev xs" m "length xs - Suc j"] assms show ?thesis
    by (simp add: rev_nth)
qed

text \<open>What a well-formed list of entries for the gear format is.\<close>

definition gear_entries :: "Slice list \<Rightarrow> Slice list \<Rightarrow> bool" where
  "gear_entries keys vals \<longleftrightarrow> length keys = length vals \<and>
     (\<forall>s \<in> set keys. slice_wf s \<and> sl_size s = KEY_CONTENT_LENGTH + KEY_SUFFIX_LENGTH) \<and>
     (\<forall>s \<in> set vals. slice_wf s \<and> sl_size s = VALUE_LENGTH)"

lemma gear_entries_lengths:
  assumes "gear_entries keys vals"
  shows "length (entries_bytes (rev keys)) = 16 * length keys"
    and "length (entries_bytes vals) = 10 * length keys"
  using assms length_concat_fixed [of "map slice_bytes (rev keys)" 16]
    length_concat_fixed [of "map slice_bytes vals" 10]
  by (simp_all add: gear_entries_def entries_bytes_def block_consts)

lemma length_gear_block:
  assumes "HEADER_LENGTH + length (entries_bytes (rev keys)) + length (entries_bytes vals) \<le> BLOCK_SIZE"
  shows "length (gear_block_bytes block_id keys vals) = BLOCK_SIZE"
proof -
  have "(of_nat BLOCK_SIZE - of_nat (HEADER_LENGTH + length (entries_bytes (rev keys)) +
      length (entries_bytes vals)) :: u32) =
      of_nat (BLOCK_SIZE - (HEADER_LENGTH + length (entries_bytes (rev keys)) + length (entries_bytes vals)))"
    using assms by (simp add: of_nat_diff)
  with assms show ?thesis
    by (simp add: gear_block_bytes_def Let_def unat_of_nat_u32 block_consts del: of_nat_diff of_nat_add)
qed

lemma block_count_header:
  "n < 2 ^ 31 \<Longrightarrow> block_count (header_bytes block_id n k v @ rest) = n"
  by (simp add: block_count_def header_bytes_def unat_of_nat_u32)

lemma gear_block_roundtrip_lemma:
  assumes e: "gear_entries keys vals" and n: "length keys \<le> MAX_ENTRY_IN_BLOCK"
  shows "block_entries_of (gear_block_bytes block_id keys vals)
    = zip (map slice_bytes keys) (map slice_bytes vals)"
proof -
  let ?c = "gear_block_bytes block_id keys vals" and ?n = "length keys"
  let ?kc = "entries_bytes (rev keys)" and ?vc = "entries_bytes vals"
  note len = gear_entries_lengths [OF e]
  have vals: "length vals = ?n" using e by (simp add: gear_entries_def)
  have cl: "length ?c = 8192"
    using length_gear_block [of keys vals block_id] len n by (simp add: block_consts)
  obtain h p where c: "?c = h @ ?vc @ p @ ?kc" and h: "length h = 64"
    and cnt: "block_count ?c = ?n"
    using n by (simp add: gear_block_bytes_def Let_def block_count_header block_consts)
  have key: "take 16 (drop (8192 - 16 * Suc j) ?c) = slice_bytes (keys ! j)" if "j < ?n" for j
  proof -
    have "drop (8192 - 16 * Suc j) ?c = drop (16 * ?n - 16 * Suc j) ?kc"
    proof -
      have "8192 - 16 * Suc j = length h + length ?vc + length p + (16 * ?n - 16 * Suc j)"
        using arg_cong [OF c, of length] cl len h that by simp
      then show ?thesis unfolding c by simp
    qed
    also have "take 16 \<dots> = map slice_bytes keys ! j"
      using nth_concat_fixed_rev [of "map slice_bytes keys" 16 j] e that
      by (simp add: entries_bytes_def gear_entries_def block_consts rev_map)
    finally show ?thesis using that by simp
  qed
  have val: "take 10 (drop (64 + 10 * j) ?c) = slice_bytes (vals ! j)" if "j < ?n" for j
  proof -
    have "take 10 (drop (64 + 10 * j) ?c) = take 10 (drop (10 * j) ?vc)"
      using len h that unfolding c by simp
    also have "\<dots> = map slice_bytes vals ! j"
      using nth_concat_fixed [of "map slice_bytes vals" 10 j] e that vals
      by (simp add: entries_bytes_def gear_entries_def block_consts)
    finally show ?thesis using that vals by simp
  qed
  show ?thesis
    using key val vals cnt
    by (intro nth_equalityI) (simp_all add: block_entries_of_def block_entry_def block_consts)
qed

lemma header_drops:
  "\<exists>r. drop 0 (header_bytes block_id n k v @ rest) = le_bytes 4 block_id @ r"
  "\<exists>r. drop 4 (header_bytes block_id n k v @ rest) = le_bytes 4 (of_nat n :: u32) @ r"
  "\<exists>r. drop 8 (header_bytes block_id n k v @ rest) = le_bytes 4 (of_nat k :: u32) @ r"
  "\<exists>r. drop 12 (header_bytes block_id n k v @ rest) = le_bytes 4 (of_nat v :: u32) @ r"
  "\<exists>r. drop 16 (header_bytes block_id n k v @ rest) =
     le_bytes 4 (of_nat BLOCK_SIZE - of_nat (HEADER_LENGTH + k + v) :: u32) @ r"
  by (simp_all add: header_bytes_def)

lemma header_decode:
  "DecodeFixed32 le (header_bytes block_id n k v @ rest) 0 = Inr block_id"
  "DecodeFixed32 le (header_bytes block_id n k v @ rest) 4 = Inr (of_nat n)"
  "DecodeFixed32 le (header_bytes block_id n k v @ rest) 8 = Inr (of_nat k)"
  "DecodeFixed32 le (header_bytes block_id n k v @ rest) 12 = Inr (of_nat v)"
  "DecodeFixed32 le (header_bytes block_id n k v @ rest) 16 =
     Inr (of_nat BLOCK_SIZE - of_nat (HEADER_LENGTH + k + v))"
  by (rule exE [OF header_drops(1)], erule DecodeFixed_at(2))
    (rule exE [OF header_drops(2)], erule DecodeFixed_at(2),
     rule exE [OF header_drops(3)], erule DecodeFixed_at(2),
     rule exE [OF header_drops(4)], erule DecodeFixed_at(2),
     rule exE [OF header_drops(5)], erule DecodeFixed_at(2))

section \<open>Properties\<close>

text \<open>
  \<open>GearBlock::AddBlock\<close> produces one 8192-byte block whenever header, keys and values fit. Its
  header gives the block id, the number of entries, the lengths of the two regions and of the
  padding; the values stand behind the header and the keys, last one first, at the end.
\<close>

theorem gear_block_layout:
  assumes "length keys = length vals" "\<forall>s \<in> set keys \<union> set vals. slice_wf s" "length keys < 2 ^ 31"
    and fits: "HEADER_LENGTH + length (entries_bytes (rev keys)) + length (entries_bytes vals) \<le> BLOCK_SIZE"
  shows "\<exists>b c. GearBlock_AddBlock le (Block_ctor block_id) keys vals = Inr (of_nat (length keys), b) \<and>
    c = blk_content_block b \<and> length c = BLOCK_SIZE \<and>
    DecodeFixed32 le' c 0 = Inr block_id \<and>
    DecodeFixed32 le' c 4 = Inr (of_nat (length keys)) \<and>
    DecodeFixed32 le' c 8 = Inr (of_nat (length (entries_bytes (rev keys)))) \<and>
    DecodeFixed32 le' c 12 = Inr (of_nat (length (entries_bytes vals))) \<and>
    DecodeFixed32 le' c 16 = Inr (of_nat BLOCK_SIZE -
      of_nat (HEADER_LENGTH + length (entries_bytes (rev keys)) + length (entries_bytes vals))) \<and>
    take (length (entries_bytes vals)) (drop HEADER_LENGTH c) = entries_bytes vals \<and>
    drop (BLOCK_SIZE - length (entries_bytes (rev keys))) c = entries_bytes (rev keys)"
proof -
  let ?c = "gear_block_bytes block_id keys vals"
  obtain b where b: "GearBlock_AddBlock le (Block_ctor block_id) keys vals = Inr (of_nat (length keys), b)"
    "blk_content_block b = ?c"
    using GearBlock_AddBlock_ok [OF assms(1-3)] by blast
  have len: "length ?c = BLOCK_SIZE" by (rule length_gear_block [OF fits])
  obtain p where c: "?c = header_bytes block_id (length keys) (length (entries_bytes (rev keys)))
      (length (entries_bytes vals)) @ entries_bytes vals @ p @ entries_bytes (rev keys)"
    by (simp add: gear_block_bytes_def Let_def)
  have "drop (BLOCK_SIZE - length (entries_bytes (rev keys))) ?c = entries_bytes (rev keys)"
    unfolding len [symmetric] unfolding c by simp
  moreover have "take (length (entries_bytes vals)) (drop HEADER_LENGTH ?c) = entries_bytes vals"
    unfolding c by (simp add: HEADER_LENGTH_def)
  moreover have "DecodeFixed32 le' ?c 0 = Inr block_id"
    "DecodeFixed32 le' ?c 4 = Inr (of_nat (length keys))"
    "DecodeFixed32 le' ?c 8 = Inr (of_nat (length (entries_bytes (rev keys))))"
    "DecodeFixed32 le' ?c 12 = Inr (of_nat (length (entries_bytes vals)))"
    "DecodeFixed32 le' ?c 16 = Inr (of_nat BLOCK_SIZE -
      of_nat (HEADER_LENGTH + length (entries_bytes (rev keys)) + length (entries_bytes vals)))"
    by (simp_all only: c header_decode)
  ultimately show ?thesis using b len by (intro exI [of _ b] exI [of _ ?c]) simp
qed

theorem gear_block_layout_witness:
  "\<exists>b. GearBlock_AddBlock True (Block_ctor 0) [Slice_string (replicate 16 1)] [Slice_string (replicate 10 2)]
    = Inr (1, b) \<and> length (blk_content_block b) = BLOCK_SIZE"
  using gear_block_layout [of "[Slice_string (replicate 16 1)]" "[Slice_string (replicate 10 2)]" True 0 True]
  by (auto simp: entries_bytes_def block_consts)

text \<open>
  C12: a gear block of at most 312 entries with 16-byte keys and 10-byte values is lossless: the
  reference decoder returns the entries in their order. 312 is the largest number that fits.
\<close>

theorem gear_block_roundtrip:
  assumes "gear_entries keys vals" "length keys \<le> MAX_ENTRY_IN_BLOCK"
  shows "\<exists>b. GearBlock_AddBlock le (Block_ctor block_id) keys vals = Inr (of_nat (length keys), b) \<and>
    length (blk_content_block b) = BLOCK_SIZE \<and>
    block_entries_of (blk_content_block b) = zip (map slice_bytes keys) (map slice_bytes vals) \<and>
    HEADER_LENGTH + (KEY_CONTENT_LENGTH + KEY_SUFFIX_LENGTH + VALUE_LENGTH) * MAX_ENTRY_IN_BLOCK \<le> BLOCK_SIZE \<and>
    BLOCK_SIZE < HEADER_LENGTH + (KEY_CONTENT_LENGTH + KEY_SUFFIX_LENGTH + VALUE_LENGTH) * Suc MAX_ENTRY_IN_BLOCK"
proof -
  have "length keys = length vals" "\<forall>s \<in> set keys \<union> set vals. slice_wf s" "length keys < 2 ^ 31"
    using assms by (auto simp: gear_entries_def block_consts)
  from GearBlock_AddBlock_ok [OF this, of le block_id] show ?thesis
    using gear_block_roundtrip_lemma [OF assms] length_gear_block [of keys vals block_id]
      gear_entries_lengths [OF assms(1)] assms(2)
    by (auto simp: block_consts)
qed

theorem gear_block_roundtrip_witness:
  "\<exists>b. GearBlock_AddBlock True (Block_ctor 0) [Slice_string (replicate 16 1)] [Slice_string (replicate 10 2)]
    = Inr (1, b) \<and> block_entries_of (blk_content_block b) = [(replicate 16 1, replicate 10 2)]"
  using gear_block_roundtrip [of "[Slice_string (replicate 16 1)]" "[Slice_string (replicate 10 2)]" True 0]
  by (auto simp: gear_entries_def block_consts Slice_string_def [of "replicate _ _"] slice_wf_def
      slice_bytes_def)

text \<open>
  \<open>OnBoardBlock::ComposeResults\<close> announces a padding in the header that it never writes: the
  content has the length of header, values and keys, and \<open>AppendToFile\<close>, which always passes 8192
  bytes to \<open>write\<close>, reads past the end of the string unless that length is at least 8191.
\<close>

theorem onboard_block_unpadded:
  assumes "length keys = length vals" "\<forall>s \<in> set keys \<union> set vals. slice_wf s" "length keys < 2 ^ 31"
  shows "\<exists>b. OnBoardBlock_AddBlock le (Block_ctor block_id) keys vals = Inr (of_nat (length keys), b) \<and>
    length (blk_content_block b) =
      HEADER_LENGTH + length (entries_bytes (rev keys)) + length (entries_bytes vals) \<and>
    (length (blk_content_block b) + 1 < BLOCK_SIZE \<longrightarrow>
      OnBoardBlock_AppendToFile b w = Inl OutOfBounds)"
proof -
  obtain b where b: "OnBoardBlock_AddBlock le (Block_ctor block_id) keys vals = Inr (of_nat (length keys), b)"
    "blk_content_block b = onboard_block_bytes block_id keys vals"
    using OnBoardBlock_AddBlock_ok [OF assms] by blast
  have "length (blk_content_block b) =
      HEADER_LENGTH + length (entries_bytes (rev keys)) + length (entries_bytes vals)"
    by (simp add: b(2) onboard_block_bytes_def Let_def HEADER_LENGTH_def)
  moreover have "OnBoardBlock_AppendToFile b w = Inl OutOfBounds"
    if "length (blk_content_block b) + 1 < BLOCK_SIZE"
    using that by (simp add: OnBoardBlock_AppendToFile_def read_bytes_def)
  ultimately show ?thesis using b(1) by blast
qed

theorem onboard_block_unpadded_witness:
  "\<exists>b. OnBoardBlock_AddBlock True (Block_ctor 0) [Slice_string (replicate 16 1)] [Slice_string (replicate 10 2)]
    = Inr (1, b) \<and> OnBoardBlock_AppendToFile b 8192 = Inl OutOfBounds"
  using onboard_block_unpadded [of "[Slice_string (replicate 16 1)]" "[Slice_string (replicate 10 2)]" True 0 8192]
  by (auto simp: entries_bytes_def block_consts)

end
