(* ===== verification/Tables.thy ===== *)
theory Tables
  imports Blocks
begin

text \<open>
  \<open>include/tables/*.h\<close>, \<open>tables/table_builder.cc\<close> and the four table classes: a table holds two
  vectors of slices and a file descriptor, and converts between the vectors and its disk format.

  The open file is its content and the descriptor's offset. What the kernel decides is an argument:
  whether \<open>open\<close> succeeds, how many bytes \<open>read\<close> and \<open>write\<close> transfer (-1 for an error), and what
  an uninitialised buffer holds. \<open>fsync\<close> and \<open>fdatasync\<close> do not change the content.
\<close>

section \<open>The base class\<close>

datatype TableKind = GearTable | PlainTable | BlockBasedTable | CuckooTable

record Table =
  tb_kind :: TableKind
  tb_key_list :: "Slice list"
  tb_value_list :: "Slice list"
  tb_file :: "byte list"
  tb_offset :: nat
  tb_writable :: bool
  tb_file_name :: "byte list"
  tb_num_of_blocks :: u32

text \<open>
  \<open>fs\<close> is the content of the existing files. Opening for writing creates a missing file and, without
  \<open>O_TRUNC\<close>, keeps the content of an existing one.
\<close>

definition Table_ctor ::
  "(byte list \<Rightarrow> byte list option) \<Rightarrow> bool \<Rightarrow> TableKind \<Rightarrow> byte list \<Rightarrow> bool \<Rightarrow> Table res" where
  "Table_ctor fs permitted kind fname read =
     (let opened = (if read then fs fname else Some (case fs fname of None \<Rightarrow> [] | Some c \<Rightarrow> c)) in
      case (if permitted then opened else None) of
        None \<Rightarrow> Inl AssertFailed
      | Some content \<Rightarrow>
          Inr \<lparr>tb_kind = kind, tb_key_list = [], tb_value_list = [], tb_file = content, tb_offset = 0,
               tb_writable = (\<not> read), tb_file_name = fname, tb_num_of_blocks = 0\<rparr>)"

text \<open>\<open>BlockBasedTable\<close> drops its flag: it always opens for writing.\<close>

definition new_table ::
  "(byte list \<Rightarrow> byte list option) \<Rightarrow> bool \<Rightarrow> TableKind \<Rightarrow> byte list \<Rightarrow> bool \<Rightarrow> Table res" where
  "new_table fs permitted kind fname b =
     (case kind of
        BlockBasedTable \<Rightarrow> Table_ctor fs permitted kind fname False
      | _ \<Rightarrow> Table_ctor fs permitted kind fname b)"

text \<open>\<open>w\<close> is what \<open>write\<close> returns; it transfers that many bytes at the offset. The count is returned as an \<open>int\<close>.\<close>

definition WriteToDisk :: "Table \<Rightarrow> byte list \<Rightarrow> int \<Rightarrow> (int \<times> Table) res" where
  "WriteToDisk t data_pack w =
     require (w \<noteq> -1)
       (let bs = take (nat w) data_pack;
            file = take (tb_offset t) (tb_file t) @ bs @ drop (tb_offset t + length bs) (tb_file t) in
        Inr (sint (word_of_int w :: u32), t\<lparr>tb_file := file, tb_offset := tb_offset t + length bs\<rparr>))"

text \<open>
  \<open>r\<close> is what \<open>read\<close> returns. The buffer of \<open>file_length\<close> bytes is not initialised (\<open>junk\<close>), and
  the result string always has \<open>file_length\<close> bytes.
\<close>

definition ReadFromDisk :: "Table \<Rightarrow> nat \<Rightarrow> byte list \<Rightarrow> int \<Rightarrow> (nat \<times> byte list \<times> Table) res" where
  "ReadFromDisk t file_length junk r =
     (let bs = take (nat r) (drop (tb_offset t) (tb_file t));
          buffer = bs @ drop (length bs) (take file_length junk) in
      require (r \<noteq> -1)
        (Inr (nat r, buffer, t\<lparr>tb_offset := tb_offset t + length bs\<rparr>)))"

section \<open>Reading blocks\<close>

text \<open>
  The loop over the entries of a block. Keys and values are taken relative to \<open>data_pack\<close>, not to
  the current block: key \<open>j\<close> from \<open>data + 8*1024 - j * 16\<close>, value \<open>j\<close> from \<open>data + j * 10\<close>, with
  32-bit products.
\<close>

function FromOnBoard_entries :: "Slice \<Rightarrow> nat \<Rightarrow> nat \<Rightarrow> Table \<Rightarrow> Table res" where
  "FromOnBoard_entries data_pack last_count j t =
     (if j < last_count then
        let back = unat (of_nat j * of_nat (KEY_CONTENT_LENGTH + KEY_SUFFIX_LENGTH) :: u32);
            forth = unat (of_nat j * of_nat VALUE_LENGTH :: u32) in
        if back \<le> sl_data data_pack + BLOCK_SIZE then
          let key = Slice_ptr (sl_base data_pack) (sl_data data_pack + BLOCK_SIZE - back)
                      (KEY_SUFFIX_LENGTH + KEY_CONTENT_LENGTH);
              val = Slice_ptr (sl_base data_pack) (sl_data data_pack + forth) VALUE_LENGTH in
          FromOnBoard_entries data_pack last_count (j + 1)
            (t\<lparr>tb_key_list := tb_key_list t @ [key], tb_value_list := tb_value_list t @ [val]\<rparr>)
        else Inl OutOfBounds
      else Inr t)"
  by pat_completeness auto
termination
  by (relation "measure (\<lambda>(data_pack, last_count, j, t). last_count - j)") auto

declare FromOnBoard_entries.simps [simp del]

text \<open>\<open>last_count\<close> is the variable the caller passes by pointer.\<close>

function FromOnBoard_blocks ::
  "bool \<Rightarrow> Slice \<Rightarrow> nat \<Rightarrow> u32 \<Rightarrow> u64 \<Rightarrow> Table \<Rightarrow> (u64 \<times> u32 \<times> Table) res" where
  "FromOnBoard_blocks le data_pack i last_count num_entries t =
     (if i < sl_size data_pack then
        let temp = Slice_ptr (sl_base data_pack) (sl_data data_pack + i) BLOCK_SIZE;
            t = t\<lparr>tb_num_of_blocks := tb_num_of_blocks t + 1\<rparr> in
        res_bind (get32 le temp 0) (\<lambda>(temp, fixed_32_read_pos).
        res_bind (get32 le temp last_count) (\<lambda>(temp, last_count).
        res_bind (get32 le temp 0) (\<lambda>(temp, key_length).
        res_bind (get32 le temp 0) (\<lambda>(temp, value_length).
        res_bind (get32 le temp 0) (\<lambda>(temp, placeholder_length).
        res_bind (FromOnBoard_entries data_pack (unat last_count) 0 t) (\<lambda>t.
          FromOnBoard_blocks le data_pack (i + BLOCK_SIZE) last_count (num_entries + ucast last_count) t))))))
      else Inr (num_entries, last_count, t))"
  by pat_completeness auto
termination
  by (relation "measure (\<lambda>(le, data_pack, i, last_count, num_entries, t). sl_size data_pack - i)")
    (auto simp: BLOCK_SIZE_def)

declare FromOnBoard_blocks.simps [simp del]

definition FromOnBoardBlocks :: "bool \<Rightarrow> Table \<Rightarrow> Slice \<Rightarrow> u32 \<Rightarrow> (u64 \<times> u32 \<times> Table) res" where
  "FromOnBoardBlocks le t data_pack last_count =
     FromOnBoard_blocks le data_pack 0 last_count 0 (t\<lparr>tb_num_of_blocks := 0\<rparr>)"

section \<open>Writing blocks\<close>

text \<open>\<open>None\<close> is a null \<open>result_buffer\<close>.\<close>

definition ToOnBoardFormat :: "bool \<Rightarrow> Table \<Rightarrow> byte list option \<Rightarrow> byte list res" where
  "ToOnBoardFormat le t result_buffer =
     (case result_buffer of
        None \<Rightarrow> Inl AssertFailed
      | Some buf \<Rightarrow>
          res_bind (ComposeOnBoardBlock le (tb_key_list t) (tb_value_list t) []) (\<lambda>result_list.
            Inr (foldl (\<lambda>buf blk. buf @ blk_content_block blk) buf result_list)))"

function Gear_ToDisk_loop ::
  "bool \<Rightarrow> Slice list \<Rightarrow> Slice list \<Rightarrow> u32 \<Rightarrow> nat \<Rightarrow> byte list \<Rightarrow> byte list res" where
  "Gear_ToDisk_loop le keys vals block_id i buf =
     (if i < length keys then
        require (length keys = length vals)
          (let e = end_posi i (length keys);
               sub_key = take (e - i) (drop i keys);
               sub_value = take (e - i) (drop i vals) in
           res_bind (GearBlock_AddBlock le (Block_ctor block_id) sub_key sub_value) (\<lambda>(n, temp).
             Gear_ToDisk_loop le keys vals block_id (i + MAX_ENTRY_IN_BLOCK) (buf @ blk_content_block temp)))
      else Inr buf)"
  by pat_completeness auto
termination
  by (relation "measure (\<lambda>(le, keys, vals, block_id, i, buf). length keys - i)")
    (auto simp: MAX_ENTRY_IN_BLOCK_def)

declare Gear_ToDisk_loop.simps [simp del]

definition GearTable_ToDiskFormat :: "bool \<Rightarrow> Table \<Rightarrow> byte list \<Rightarrow> (u32 \<times> byte list) res" where
  "GearTable_ToDiskFormat le t buf =
     res_bind (Gear_ToDisk_loop le (tb_key_list t) (tb_value_list t) 0 0 buf) (\<lambda>buf.
       Inr (of_nat (length buf), buf))"

function Plain_ToDisk_loop :: "Slice list \<Rightarrow> Slice list \<Rightarrow> nat \<Rightarrow> byte list \<Rightarrow> byte list res" where
  "Plain_ToDisk_loop keys vals i buf =
     (if i < length keys then
        res_bind (vec_at keys i) (\<lambda>k. res_bind (slice_read k) (\<lambda>kb.
        res_bind (vec_at vals i) (\<lambda>v. res_bind (slice_read v) (\<lambda>vb.
          Plain_ToDisk_loop keys vals (i + 1) (buf @ kb @ vb)))))
      else Inr buf)"
  by pat_completeness auto
termination
  by (relation "measure (\<lambda>(keys, vals, i, buf). length keys - i)") auto

declare Plain_ToDisk_loop.simps [simp del]

definition PlainTable_ToDiskFormat :: "Table \<Rightarrow> byte list \<Rightarrow> (u32 \<times> byte list) res" where
  "PlainTable_ToDiskFormat t buf =
     res_bind (Plain_ToDisk_loop (tb_key_list t) (tb_value_list t) 0 buf) (\<lambda>buf. Inr (0, buf))"

text \<open>The virtual calls. The block-based and cuckoo tables do nothing, and no class reads.\<close>

definition ToDiskFormat :: "bool \<Rightarrow> Table \<Rightarrow> byte list \<Rightarrow> (u32 \<times> byte list) res" where
  "ToDiskFormat le t buf =
     (case tb_kind t of
        GearTable \<Rightarrow> GearTable_ToDiskFormat le t buf
      | PlainTable \<Rightarrow> PlainTable_ToDiskFormat t buf
      | BlockBasedTable \<Rightarrow> Inr (0, buf)
      | CuckooTable \<Rightarrow> Inr (0, buf))"

definition FromDiskFormat :: "Table \<Rightarrow> Slice \<Rightarrow> u32 \<Rightarrow> (u32 \<times> u32 \<times> Table)" where
  "FromDiskFormat t data_pack last_entry_count = (0, last_entry_count, t)"

section \<open>Lemmas\<close>

text \<open>The reference decoder of a gear file: its blocks, one after the other.\<close>

function gear_decode :: "byte list \<Rightarrow> (byte list \<times> byte list) list" where
  "gear_decode c =
     (if length c < BLOCK_SIZE then []
      else block_entries_of (take BLOCK_SIZE c) @ gear_decode (drop BLOCK_SIZE c))"
  by pat_completeness auto
termination
  by (relation "measure length") (auto simp: BLOCK_SIZE_def)

declare gear_decode.simps [simp del]

lemma gear_decode_Nil [simp]: "gear_decode [] = []"
  by (subst gear_decode.simps) (simp add: BLOCK_SIZE_def)

lemma gear_decode_block:
  "length b = BLOCK_SIZE \<Longrightarrow> gear_decode (b @ c) = block_entries_of b @ gear_decode c"
  by (subst gear_decode.simps) simp

text \<open>The number of blocks for \<open>n\<close> entries.\<close>

definition blocks_for :: "nat \<Rightarrow> nat" where
  "blocks_for n = (n + (MAX_ENTRY_IN_BLOCK - 1)) div MAX_ENTRY_IN_BLOCK"

lemma blocks_for_step: "0 < n \<Longrightarrow> blocks_for n = Suc (blocks_for (n - MAX_ENTRY_IN_BLOCK))"
proof -
  assume "0 < n"
  then have "n + 311 = 312 + (n - 312 + 311) \<or> n \<le> 312" by linarith
  then show ?thesis
  proof
    assume "n + 311 = 312 + (n - 312 + 311)"
    then show ?thesis by (simp add: blocks_for_def MAX_ENTRY_IN_BLOCK_def)
  next
    assume "n \<le> 312"
    then have "(n + 311) div 312 = 1" using \<open>0 < n\<close> by (intro div_nat_eqI) simp_all
    with \<open>n \<le> 312\<close> show ?thesis by (simp add: blocks_for_def MAX_ENTRY_IN_BLOCK_def)
  qed
qed

lemma gear_entries_take: "gear_entries keys vals \<Longrightarrow> gear_entries (take n keys) (take n vals)"
  by (auto simp: gear_entries_def dest: in_set_takeD)

lemma gear_entries_drop: "gear_entries keys vals \<Longrightarrow> gear_entries (drop n keys) (drop n vals)"
  by (auto simp: gear_entries_def dest: in_set_dropD)

text \<open>One turn of the loops that cut the entries into blocks.\<close>

lemma take_end_posi:
  "i < length xs \<Longrightarrow> take (end_posi i (length xs) - i) (drop i xs) = take MAX_ENTRY_IN_BLOCK (drop i xs)"
  by (auto simp: end_posi_def)

lemma zip_take_drop: "zip (take m xs) (take m ys) @ zip (drop m xs) (drop m ys) = zip xs ys"
  by (metis append_take_drop_id drop_zip take_zip)

lemma Gear_ToDisk_loop_ok:
  assumes "gear_entries keys vals"
  shows "\<exists>out. Gear_ToDisk_loop le keys vals block_id i buf = Inr (buf @ out) \<and>
    length out = BLOCK_SIZE * blocks_for (length keys - i) \<and>
    gear_decode out = zip (map slice_bytes (drop i keys)) (map slice_bytes (drop i vals))"
  using assms
proof (induction le keys vals block_id i buf rule: Gear_ToDisk_loop.induct)
  case (1 le keys vals block_id i buf)
  have len: "length vals = length keys" using 1(2) by (simp add: gear_entries_def)
  show ?case
  proof (cases "i < length keys")
    case True
    let ?k = "take MAX_ENTRY_IN_BLOCK (drop i keys)" and ?v = "take MAX_ENTRY_IN_BLOCK (drop i vals)"
    have sub: "take (end_posi i (length keys) - i) (drop i keys) = ?k"
      "take (end_posi i (length keys) - i) (drop i vals) = ?v"
      using True len take_end_posi [of i keys] take_end_posi [of i vals] by simp_all
    have e: "gear_entries ?k ?v" using gear_entries_take [OF gear_entries_drop [OF 1(2)]] .
    have m: "length ?k \<le> MAX_ENTRY_IN_BLOCK" by simp
    have "length ?k = length ?v" "\<forall>s \<in> set ?k \<union> set ?v. slice_wf s" "length ?k < 2 ^ 31"
      using e m by (auto simp: gear_entries_def MAX_ENTRY_IN_BLOCK_def)
    from GearBlock_AddBlock_ok [OF this, of le block_id] obtain b where
      b: "GearBlock_AddBlock le (Block_ctor block_id) ?k ?v = Inr (of_nat (length ?k), b)"
        "blk_content_block b = gear_block_bytes block_id ?k ?v" by blast
    have bl: "length (blk_content_block b) = BLOCK_SIZE"
      using length_gear_block [of ?k ?v block_id] gear_entries_lengths [OF e] m b(2)
      by (simp add: block_consts)
    have bd: "block_entries_of (blk_content_block b) = zip (map slice_bytes ?k) (map slice_bytes ?v)"
      unfolding b(2) by (rule gear_block_roundtrip_lemma [OF e m])
    from 1(1) [OF True refl refl refl, unfolded sub, OF b(1) refl 1(2)]
    obtain out where out: "Gear_ToDisk_loop le keys vals block_id (i + MAX_ENTRY_IN_BLOCK)
        (buf @ blk_content_block b) = Inr ((buf @ blk_content_block b) @ out)"
      "length out = BLOCK_SIZE * blocks_for (length keys - (i + MAX_ENTRY_IN_BLOCK))"
      "gear_decode out = zip (map slice_bytes (drop (i + MAX_ENTRY_IN_BLOCK) keys))
        (map slice_bytes (drop (i + MAX_ENTRY_IN_BLOCK) vals))" by blast
    have "Gear_ToDisk_loop le keys vals block_id i buf = Inr (buf @ blk_content_block b @ out)"
      using True len b(1) out(1) by (simp add: Gear_ToDisk_loop.simps [of le keys vals block_id i] Let_def sub)
    moreover have "length (blk_content_block b @ out) = BLOCK_SIZE * blocks_for (length keys - i)"
      using bl out(2) True blocks_for_step [of "length keys - i"] by simp
    moreover have "gear_decode (blk_content_block b @ out)
        = zip (map slice_bytes (drop i keys)) (map slice_bytes (drop i vals))"
      unfolding gear_decode_block [OF bl] bd out(3)
      using zip_take_drop [of MAX_ENTRY_IN_BLOCK "map slice_bytes (drop i keys)" "map slice_bytes (drop i vals)"]
      by (simp add: take_map drop_map add.commute)
    ultimately show ?thesis by blast
  next
    case False
    then show ?thesis using len
      by (simp add: Gear_ToDisk_loop.simps [of le keys vals block_id i] blocks_for_def MAX_ENTRY_IN_BLOCK_def)
  qed
qed

lemma Plain_ToDisk_loop_ok:
  assumes "length keys = length vals" "\<forall>s \<in> set keys \<union> set vals. slice_wf s"
  shows "Plain_ToDisk_loop keys vals i buf =
    Inr (buf @ concat (map (\<lambda>(k, v). slice_bytes k @ slice_bytes v) (drop i (zip keys vals))))"
  using assms
proof (induction keys vals i buf rule: Plain_ToDisk_loop.induct)
  case (1 keys vals i buf)
  show ?case
  proof (cases "i < length keys")
    case True
    then have "drop i (zip keys vals) = (keys ! i, vals ! i) # drop (i + 1) (zip keys vals)"
      using 1(2) by (simp add: Cons_nth_drop_Suc [symmetric])
    moreover have "slice_wf (keys ! i)" "slice_wf (vals ! i)"
      using True 1(2,3) nth_mem [of i keys] nth_mem [of i vals] by auto
    ultimately show ?thesis
      using True 1 by (simp add: Plain_ToDisk_loop.simps [of keys vals i] slice_simps)
  next
    case False
    then show ?thesis by (simp add: Plain_ToDisk_loop.simps [of keys vals i])
  qed
qed

lemma FromOnBoard_entries_ok:
  assumes "last_count \<le> MAX_ENTRY_IN_BLOCK" "j \<le> last_count"
  shows "FromOnBoard_entries data_pack last_count j t = Inr (t
    \<lparr>tb_key_list := tb_key_list t @ map (\<lambda>j. Slice_ptr (sl_base data_pack)
        (sl_data data_pack + BLOCK_SIZE - j * 16) 16) [j..<last_count],
     tb_value_list := tb_value_list t @ map (\<lambda>j. Slice_ptr (sl_base data_pack)
        (sl_data data_pack + j * 10) 10) [j..<last_count]\<rparr>)"
  using assms
proof (induction data_pack last_count j t rule: FromOnBoard_entries.induct)
  case (1 data_pack last_count j t)
  show ?case
  proof (cases "j < last_count")
    case True
    then have j: "j < 312" using 1(2) by (simp add: MAX_ENTRY_IN_BLOCK_def)
    then have "unat (of_nat j * 16 :: u32) = j * 16" "unat (of_nat j * 10 :: u32) = j * 10"
      using unat_of_nat_u32 [of "j * 16"] unat_of_nat_u32 [of "j * 10"] by simp_all
    with True j 1(2) show ?thesis
      using 1(1) [OF True refl refl _ refl refl]
      by (simp add: FromOnBoard_entries.simps [of data_pack last_count j] block_consts upt_conv_Cons Let_def
          del: upt_Suc)
  next
    case False
    with 1(3) show ?thesis by (simp add: FromOnBoard_entries.simps [of data_pack last_count last_count])
  qed
qed

lemma get32_ok:
  "DecodeFixed32 le m p = Inr w \<Longrightarrow> 4 \<le> n \<Longrightarrow>
   get32 le (Slice_ptr m p n) v = Inr (Slice_ptr m (p + 4) (n - 4), w)"
  by (simp add: get32_def GetFixed32_def Slice_ptr_def remove_prefix_ok)

text \<open>What the reader makes of a pack that is exactly one gear block.\<close>

lemma FromOnBoardBlocks_one_block:
  assumes "length keys \<le> MAX_ENTRY_IN_BLOCK" and len: "length (gear_block_bytes block_id keys vals) = BLOCK_SIZE"
  defines "m \<equiv> gear_block_bytes block_id keys vals @ [0]"
  shows "FromOnBoardBlocks le t (Slice_string (gear_block_bytes block_id keys vals)) last_count =
    Inr (of_nat (length keys), of_nat (length keys), t
      \<lparr>tb_num_of_blocks := 1,
       tb_key_list := tb_key_list t @ map (\<lambda>j. Slice_ptr m (BLOCK_SIZE - j * 16) 16) [0..<length keys],
       tb_value_list := tb_value_list t @ map (\<lambda>j. Slice_ptr m (j * 10) 10) [0..<length keys]\<rparr>)"
proof -
  let ?s = "Slice_string (gear_block_bytes block_id keys vals)"
  have s: "sl_base ?s = m" "sl_data ?s = 0" "sl_size ?s = BLOCK_SIZE"
    using len by (simp_all add: Slice_string_def m_def)
  have n: "unat (of_nat (length keys) :: u32) = length keys"
    using assms(1) by (intro unat_of_nat_u32) (simp add: MAX_ENTRY_IN_BLOCK_def)
  have n64: "(ucast (of_nat (length keys) :: u32) :: u64) = of_nat (length keys)"
    using assms(1) unat_ucast_u32_u64 [of "of_nat (length keys)"] n
    by (simp add: word_unat_eq_iff unat_of_nat take_bit_nat_eq_self_iff MAX_ENTRY_IN_BLOCK_def)
  obtain h w k v where m: "m = header_bytes block_id (length keys) h w @ k @ v"
    by (simp add: m_def gear_block_bytes_def Let_def)
  note dec = header_decode [of le block_id "length keys" h w "k @ v", folded m]
  have g: "get32 le (Slice_ptr m 0 BLOCK_SIZE) x = Inr (Slice_ptr m 4 (BLOCK_SIZE - 4), block_id)"
    "get32 le (Slice_ptr m 4 (BLOCK_SIZE - 4)) x = Inr (Slice_ptr m 8 (BLOCK_SIZE - 8), of_nat (length keys))"
    "get32 le (Slice_ptr m 8 (BLOCK_SIZE - 8)) x = Inr (Slice_ptr m 12 (BLOCK_SIZE - 12), of_nat h)"
    "get32 le (Slice_ptr m 12 (BLOCK_SIZE - 12)) x = Inr (Slice_ptr m 16 (BLOCK_SIZE - 16), of_nat w)"
    "get32 le (Slice_ptr m 16 (BLOCK_SIZE - 16)) x = Inr (Slice_ptr m 20 (BLOCK_SIZE - 20),
       of_nat BLOCK_SIZE - of_nat (HEADER_LENGTH + h + w))" for x
    using get32_ok [OF dec(1), of BLOCK_SIZE x] get32_ok [OF dec(2), of "BLOCK_SIZE - 4" x]
      get32_ok [OF dec(3), of "BLOCK_SIZE - 8" x] get32_ok [OF dec(4), of "BLOCK_SIZE - 12" x]
      get32_ok [OF dec(5), of "BLOCK_SIZE - 16" x]
    by (simp_all add: BLOCK_SIZE_def)
  have stop: "FromOnBoard_blocks le ?s BLOCK_SIZE l e t = Inr (e, l, t)" for l e t
    by (subst FromOnBoard_blocks.simps) (simp add: s)
  have entries: "FromOnBoard_entries ?s (length keys) 0 t' = Inr (t'
    \<lparr>tb_key_list := tb_key_list t' @ map (\<lambda>j. Slice_ptr m (BLOCK_SIZE - j * 16) 16) [0..<length keys],
     tb_value_list := tb_value_list t' @ map (\<lambda>j. Slice_ptr m (j * 10) 10) [0..<length keys]\<rparr>)" for t'
    using FromOnBoard_entries_ok [OF assms(1), of 0 ?s t'] by (simp add: s)
  show ?thesis
    unfolding FromOnBoardBlocks_def
    by (subst FromOnBoard_blocks.simps) (simp add: s g entries n n64 stop, simp add: BLOCK_SIZE_def)
qed

section \<open>Properties\<close>

text \<open>
  C4: the disk format of a gear table is lossless. For entries with 16-byte keys and 10-byte values
  \<open>GearTable::ToDiskFormat\<close> appends one 8192-byte block per 312 entries, and decoding the blocks in
  order gives back exactly the entries, in order, whatever their number.
\<close>

theorem gear_table_roundtrip:
  assumes "tb_kind t = GearTable" "gear_entries (tb_key_list t) (tb_value_list t)"
  shows "\<exists>out. ToDiskFormat le t buf = Inr (of_nat (length (buf @ out)), buf @ out) \<and>
    length out = BLOCK_SIZE * blocks_for (length (tb_key_list t)) \<and>
    gear_decode out = zip (map slice_bytes (tb_key_list t)) (map slice_bytes (tb_value_list t))"
  using Gear_ToDisk_loop_ok [OF assms(2), of le 0 0 buf] assms(1)
  by (auto simp: ToDiskFormat_def GearTable_ToDiskFormat_def)

definition sample_table :: "TableKind \<Rightarrow> Table" where
  "sample_table kind =
     \<lparr>tb_kind = kind, tb_key_list = [Slice_string (replicate 16 1), Slice_string (replicate 16 2)],
      tb_value_list = [Slice_string (replicate 10 3), Slice_string (replicate 10 4)], tb_file = [],
      tb_offset = 0, tb_writable = True, tb_file_name = [], tb_num_of_blocks = 0\<rparr>"

lemma sample_entries: "gear_entries (tb_key_list (sample_table k)) (tb_value_list (sample_table k))"
  by (simp add: sample_table_def gear_entries_def block_consts) (simp add: Slice_string_def)

theorem gear_table_roundtrip_witness:
  "\<exists>out. ToDiskFormat True (sample_table GearTable) [] = Inr (of_nat (length out), out) \<and>
    gear_decode out = [(replicate 16 1, replicate 10 3), (replicate 16 2, replicate 10 4)]"
  using gear_table_roundtrip [OF _ sample_entries, of GearTable True "[]"]
  by (auto simp: sample_table_def)

text \<open>
  C28: \<open>Table::FromOnBoardBlocks\<close> does not read back what \<open>GearTable::ToDiskFormat\<close> writes. On a
  pack of one gear block it reports the right number of entries and one block, but its key \<open>j\<close> is
  key \<open>j - 1\<close> of the table: the first slice starts where the pack ends, the last key is lost; and
  its value \<open>j\<close> is counted from the start of the header instead of its end.
\<close>

theorem reader_shifts_entries:
  assumes "tb_kind t = GearTable" "gear_entries (tb_key_list t) (tb_value_list t)"
    and "0 < length (tb_key_list t)" "length (tb_key_list t) \<le> MAX_ENTRY_IN_BLOCK"
    and "tb_key_list r = []" "tb_value_list r = []"
  shows "\<exists>out n r'. ToDiskFormat le t [] = Inr (of_nat BLOCK_SIZE, out) \<and>
    FromOnBoardBlocks le r (Slice_string out) last_count = Inr (n, of_nat (length (tb_key_list t)), r') \<and>
    n = of_nat (length (tb_key_list t)) \<and> tb_num_of_blocks r' = 1 \<and>
    length (tb_key_list r') = length (tb_key_list t) \<and>
    \<not> slice_wf (tb_key_list r' ! 0) \<and>
    (\<forall>j < length (tb_key_list t). 0 < j \<longrightarrow>
      slice_bytes (tb_key_list r' ! j) = slice_bytes (tb_key_list t ! (j - 1))) \<and>
    (\<forall>j < length (tb_key_list t).
      slice_bytes (tb_value_list r' ! j) = take VALUE_LENGTH (drop (VALUE_LENGTH * j) out))"
proof -
  let ?k = "tb_key_list t" and ?v = "tb_value_list t" and ?n = "length (tb_key_list t)"
  let ?c = "gear_block_bytes 0 ?k ?v"
  have all: "take MAX_ENTRY_IN_BLOCK ?k = ?k" "take MAX_ENTRY_IN_BLOCK ?v = ?v"
    using assms(2,4) by (simp_all add: gear_entries_def)
  have len: "length ?c = BLOCK_SIZE"
    using length_gear_block [of ?k ?v 0] gear_entries_lengths [OF assms(2)] assms(4)
    by (simp add: block_consts)
  have "length ?k = length ?v" "\<forall>s \<in> set ?k \<union> set ?v. slice_wf s" "length ?k < 2 ^ 31"
    using assms(2,4) by (auto simp: gear_entries_def MAX_ENTRY_IN_BLOCK_def)
  from GearBlock_AddBlock_ok [OF this, of le 0] obtain b where
    b: "GearBlock_AddBlock le (Block_ctor 0) ?k ?v = Inr (of_nat ?n, b)" "blk_content_block b = ?c" by blast
  have stop: "Gear_ToDisk_loop le ?k ?v 0 MAX_ENTRY_IN_BLOCK buf = Inr buf" for buf
    using assms(4) by (subst Gear_ToDisk_loop.simps) simp
  have w: "ToDiskFormat le t [] = Inr (of_nat BLOCK_SIZE, ?c)"
    using assms(1-4) b all len stop take_end_posi [of 0 ?k] take_end_posi [of 0 ?v]
    by (simp add: ToDiskFormat_def GearTable_ToDiskFormat_def Gear_ToDisk_loop.simps [of le ?k ?v 0 0]
        gear_entries_def)
  have dec: "block_entries_of ?c = zip (map slice_bytes ?k) (map slice_bytes ?v)"
    by (rule gear_block_roundtrip_lemma [OF assms(2,4)])
  have cnt: "block_count ?c = ?n"
    using arg_cong [OF dec, of length] assms(2) by (simp add: block_entries_of_def gear_entries_def)
  have key: "slice_bytes (Slice_ptr (?c @ [0]) (BLOCK_SIZE - j * 16) 16) = slice_bytes (?k ! (j - 1))"
    if "j < ?n" "0 < j" for j
  proof -
    have "slice_bytes (?k ! (j - 1)) = fst (block_entries_of ?c ! (j - 1))"
      using that assms(2) unfolding dec by (simp add: gear_entries_def)
    also have "\<dots> = take 16 (drop (BLOCK_SIZE - 16 * j) ?c)"
      using that cnt by (simp add: block_entries_of_def block_entry_def block_consts)
    finally show ?thesis
      using that len assms(4) by (simp add: mult.commute block_consts)
  qed
  show ?thesis
    using w FromOnBoardBlocks_one_block [OF assms(4) len, of le r last_count] key len assms(3-6)
    by (auto simp: block_consts mult.commute)
qed

theorem reader_shifts_entries_witness:
  "\<exists>out n r' l. ToDiskFormat True (sample_table GearTable) [] = Inr (of_nat BLOCK_SIZE, out) \<and>
    FromOnBoardBlocks True (sample_table GearTable\<lparr>tb_key_list := [], tb_value_list := []\<rparr>)
      (Slice_string out) 0 = Inr (n, l, r') \<and> slice_bytes (tb_key_list r' ! 1) = replicate 16 1"
  using reader_shifts_entries [OF _ sample_entries, of GearTable
      "sample_table GearTable\<lparr>tb_key_list := [], tb_value_list := []\<rparr>" True 0]
  by (auto simp: sample_table_def block_consts)

text \<open>
  a plain table writes every entry, key then value, in order, and returns 0; the block-based
  and cuckoo tables write nothing.
\<close>

theorem plain_table_format:
  assumes "length (tb_key_list t) = length (tb_value_list t)"
    and "\<forall>s \<in> set (tb_key_list t) \<union> set (tb_value_list t). slice_wf s"
  shows "ToDiskFormat le (t\<lparr>tb_kind := PlainTable\<rparr>) buf =
      Inr (0, buf @ concat (map (\<lambda>(k, v). slice_bytes k @ slice_bytes v)
        (zip (tb_key_list t) (tb_value_list t)))) \<and>
    ToDiskFormat le (t\<lparr>tb_kind := BlockBasedTable\<rparr>) buf = Inr (0, buf) \<and>
    ToDiskFormat le (t\<lparr>tb_kind := CuckooTable\<rparr>) buf = Inr (0, buf)"
  using Plain_ToDisk_loop_ok [OF assms, of 0 buf]
  by (simp add: ToDiskFormat_def PlainTable_ToDiskFormat_def)

theorem plain_table_format_witness:
  "ToDiskFormat True (sample_table GearTable\<lparr>tb_kind := PlainTable\<rparr>) [9] =
    Inr (0, [9] @ replicate 16 1 @ replicate 10 3 @ replicate 16 2 @ replicate 10 4)"
  using plain_table_format [of "sample_table GearTable" True "[9]"] by (simp add: sample_table_def)

text \<open>
  C31: what a fresh table writes completely is what a reading table gets: the file holds the data
  pack, followed, when the file existed and was longer, by the rest of its old content, because the
  file is opened without truncation.
\<close>

theorem write_then_read:
  assumes "new_table fs True kind fname False = Inr t"
    and "WriteToDisk t data_pack (int (length data_pack)) = Inr (w, t')"
    and "Table_ctor (fs(fname := Some (tb_file t'))) True kind' fname True = Inr r"
  shows "tb_file t' = data_pack @ (case fs fname of None \<Rightarrow> [] | Some c \<Rightarrow> drop (length data_pack) c) \<and>
    ReadFromDisk r (length data_pack) junk (int (length data_pack)) =
      Inr (length data_pack, data_pack, r\<lparr>tb_offset := length data_pack\<rparr>)"
proof -
  have t: "tb_file t = (case fs fname of None \<Rightarrow> [] | Some c \<Rightarrow> c)" "tb_offset t = 0"
    using assms(1) by (auto simp: new_table_def Table_ctor_def Let_def split: TableKind.splits option.splits)
  then have f: "tb_file t' = data_pack @ (case fs fname of None \<Rightarrow> [] | Some c \<Rightarrow> drop (length data_pack) c)"
    using assms(2) by (auto simp: WriteToDisk_def Let_def require_eq_Inr split: option.splits)
  moreover have "tb_file r = tb_file t'" "tb_offset r = 0"
    using assms(3) by (auto simp: Table_ctor_def Let_def)
  ultimately show ?thesis by (simp add: ReadFromDisk_def Let_def)
qed

theorem write_then_read_witness:
  "\<exists>t t' r w. new_table (\<lambda>_. None) True PlainTable [97] False = Inr t \<and>
    WriteToDisk t [1, 2, 3] 3 = Inr (w, t') \<and>
    ReadFromDisk r 3 [] 3 = Inr (3, [1, 2, 3], r\<lparr>tb_offset := 3\<rparr>)"
proof -
  obtain t where t: "new_table (\<lambda>_. None) True PlainTable [97] False = Inr t"
    by (simp add: new_table_def Table_ctor_def)
  obtain w t' where w: "WriteToDisk t [1, 2, 3] (int (length [1, 2, 3 :: byte])) = Inr (w, t')"
    by (simp add: WriteToDisk_def Let_def)
  obtain r where r: "Table_ctor ((\<lambda>_. None)([97] := Some (tb_file t'))) True PlainTable [97] True = Inr r"
    by (simp add: Table_ctor_def)
  from write_then_read [OF t w r, of "[]"] t w show ?thesis by (auto simp: numeral_3_eq_3)
qed

end
