(* ===== verification/StdHeap.thy ===== *)
theory StdHeap
  imports DBFormat "HOL-Library.Multiset"
begin

text \<open>
  \<open>std::priority_queue\<close> over a vector, as the mergers use it: the binary heap of the standard
  library with its hole-moving \<open>push_heap\<close> and \<open>pop_heap\<close>. The comparator \<open>lt\<close> is what the C++
  call returns, converted to \<open>bool\<close>.

  Whatever \<open>lt\<close> is, the operations are safe and keep the elements (\<open>mset_pq_push\<close>,
  \<open>mset_pq_pop\<close>). If \<open>lt\<close> is a strict weak order, which the standard requires, the top is a
  maximal element and draining the queue sorts it; these lemmas live in the locale
  \<open>strict_weak\<close> and are instantiated for the comparators of the repository that are one.
\<close>

section \<open>The algorithms\<close>

text \<open>\<open>push_heap lt xs hole value\<close> moves the hole up from \<open>hole\<close> and puts \<open>value\<close> into it.\<close>

function push_heap :: "('a \<Rightarrow> 'a \<Rightarrow> bool) \<Rightarrow> 'a list \<Rightarrow> nat \<Rightarrow> 'a \<Rightarrow> 'a list" where
  "push_heap lt xs hole val =
     (let parent = (hole - 1) div 2 in
      if hole > 0 \<and> lt (xs ! parent) val then push_heap lt (xs[hole := xs ! parent]) parent val
      else xs[hole := val])"
  by pat_completeness auto
termination
  by (relation "measure (\<lambda>(lt, xs, hole, val). hole)") auto

declare push_heap.simps [simp del]

text \<open>
  The first half of \<open>adjust_heap\<close>: the hole moves down to a leaf, the larger child moving up. The
  length counts the elements in the heap.
\<close>

function hole_down :: "('a \<Rightarrow> 'a \<Rightarrow> bool) \<Rightarrow> 'a list \<Rightarrow> nat \<Rightarrow> 'a list \<times> nat" where
  "hole_down lt xs hole =
     (if hole < (length xs - 1) div 2 then
        let second = 2 * (hole + 1);
            child = (if lt (xs ! second) (xs ! (second - 1)) then second - 1 else second) in
        hole_down lt (xs[hole := xs ! child]) child
      else if length xs mod 2 = 0 \<and> 2 \<le> length xs \<and> hole = (length xs - 2) div 2 then
        let second = 2 * (hole + 1) in (xs[hole := xs ! (second - 1)], second - 1)
      else (xs, hole))"
  by pat_completeness auto
termination
  by (relation "measure (\<lambda>(lt, xs, hole). length xs - hole)") (auto split: if_splits)

declare hole_down.simps [simp del]

definition adjust_heap :: "('a \<Rightarrow> 'a \<Rightarrow> bool) \<Rightarrow> 'a list \<Rightarrow> nat \<Rightarrow> 'a \<Rightarrow> 'a list" where
  "adjust_heap lt xs hole val = (case hole_down lt xs hole of (ys, leaf) \<Rightarrow> push_heap lt ys leaf val)"

definition pq_push :: "('a \<Rightarrow> 'a \<Rightarrow> bool) \<Rightarrow> 'a list \<Rightarrow> 'a \<Rightarrow> 'a list" where
  "pq_push lt c x = push_heap lt (c @ [x]) (length c) x"

definition pq_top :: "'a list \<Rightarrow> 'a res" where
  "pq_top c = (if c = [] then Inl EmptyContainer else Inr (hd c))"

definition pq_pop :: "('a \<Rightarrow> 'a \<Rightarrow> bool) \<Rightarrow> 'a list \<Rightarrow> 'a list res" where
  "pq_pop lt c =
     (if c = [] then Inl EmptyContainer
      else if length c > 1 then Inr (adjust_heap lt (butlast c) 0 (last c))
      else Inr [])"

section \<open>Elements\<close>

lemma mset_move:
  assumes "h < length xs" "p < length xs" "p \<noteq> h"
  shows "mset ((xs[h := xs ! p])[p := v]) = mset (xs[h := v])"
proof -
  let ?ys = "xs[h := v]"
  have "mset (?ys[h := ?ys ! p, p := ?ys ! h]) = mset ?ys"
    using assms by (intro mset_swap) simp_all
  moreover have "?ys[h := ?ys ! p, p := ?ys ! h] = (xs[h := xs ! p])[p := v]"
    using assms by simp
  ultimately show ?thesis by simp
qed

lemma mset_push_heap: "hole < length xs \<Longrightarrow> mset (push_heap lt xs hole v) = mset (xs[hole := v])"
proof (induction lt xs hole v rule: push_heap.induct)
  case (1 lt xs hole v)
  let ?p = "(hole - 1) div 2"
  show ?case
  proof (cases "hole > 0 \<and> lt (xs ! ?p) v")
    case True
    then have p: "?p < hole" by auto
    with True 1 show ?thesis
      using mset_move [of hole xs ?p v] by (simp add: push_heap.simps [of lt xs hole] Let_def)
  next
    case False
    then show ?thesis by (auto simp: push_heap.simps [of lt xs hole] Let_def)
  qed
qed

lemma hole_down_last:
  "length xs = 2 * hole + 2 \<Longrightarrow> hole_down lt xs hole = (xs[hole := xs ! (2 * hole + 1)], 2 * hole + 1)"
  by (subst hole_down.simps) simp

lemma hole_down_leaf:
  "\<not> hole < (length xs - 1) div 2 \<Longrightarrow>
   \<not> (length xs mod 2 = 0 \<and> 2 \<le> length xs \<and> hole = (length xs - 2) div 2) \<Longrightarrow>
   hole_down lt xs hole = (xs, hole)"
  by (subst hole_down.simps) (simp only: if_False)

lemma hole_down_mset:
  assumes "hole < length xs" "hole_down lt xs hole = (ys, leaf)"
  shows "length ys = length xs \<and> leaf < length ys \<and> mset (ys[leaf := v]) = mset (xs[hole := v])"
  using assms
proof (induction lt xs hole arbitrary: ys leaf rule: hole_down.induct)
  case (1 lt xs hole)
  define child where "child = (if lt (xs ! (2 * (hole + 1))) (xs ! (2 * (hole + 1) - 1))
    then 2 * (hole + 1) - 1 else 2 * (hole + 1))"
  consider (down) "hole < (length xs - 1) div 2"
    | (last) "\<not> hole < (length xs - 1) div 2" "length xs mod 2 = 0" "2 \<le> length xs" "hole = (length xs - 2) div 2"
    | (leaf) "\<not> hole < (length xs - 1) div 2"
      "\<not> (length xs mod 2 = 0 \<and> 2 \<le> length xs \<and> hole = (length xs - 2) div 2)" by metis
  then show ?case
  proof cases
    case down
    then have c: "child < length xs" "child \<noteq> hole" by (auto simp: child_def)
    have "hole_down lt (xs[hole := xs ! child]) child = (ys, leaf)"
      using 1(3) down by (simp add: hole_down.simps [of lt xs hole] child_def Let_def split: if_splits)
    then show ?thesis
      using 1(1) [OF down refl refl, folded child_def, of ys leaf] c 1(2)
        mset_move [of hole xs child v] by simp
  next
    case last
    then have n: "length xs = 2 * hole + 2" by auto
    then have c: "2 * hole + 1 < length xs" by simp
    have "ys = xs[hole := xs ! (2 * hole + 1)]" "leaf = 2 * hole + 1"
      using 1(3) hole_down_last [OF n, of lt] by auto
    then show ?thesis using c 1(2) mset_move [of hole xs "2 * hole + 1" v] by simp
  next
    case leaf
    then have "ys = xs" "leaf = hole" using 1(3) hole_down_leaf [OF leaf, of lt] by simp_all
    then show ?thesis using 1(2) by simp
  qed
qed

lemma mset_adjust_heap:
  assumes "hole < length xs"
  shows "mset (adjust_heap lt xs hole v) = mset (xs[hole := v])"
proof -
  obtain ys leaf where hd: "hole_down lt xs hole = (ys, leaf)" by fastforce
  from hole_down_mset [OF assms hd, of v] show ?thesis
    by (simp add: adjust_heap_def hd mset_push_heap)
qed

lemma mset_pq_push [simp]: "mset (pq_push lt c x) = add_mset x (mset c)"
  by (simp add: pq_push_def mset_push_heap)

lemma mset_pq_pop:
  assumes "c \<noteq> []"
  shows "\<exists>c'. pq_pop lt c = Inr c' \<and> mset c = add_mset (hd c) (mset c')"
proof (cases "length c > 1")
  case True
  then obtain x ys y where c: "c = x # ys @ [y]"
    by (cases c; cases "tl c" rule: rev_cases) auto
  have "mset (adjust_heap lt (x # ys) 0 y) = mset (y # ys)"
    by (simp add: mset_adjust_heap)
  with c show ?thesis by (simp add: pq_pop_def butlast_append)
next
  case False
  with assms obtain x where "c = [x]" by (cases c) auto
  then show ?thesis by (simp add: pq_pop_def)
qed

lemma length_pq_pop: "pq_pop lt c = Inr c' \<Longrightarrow> length c = Suc (length c')"
  using mset_pq_pop [of c lt] by (cases "c = []") (auto simp: pq_pop_def size_mset [symmetric] simp del: size_mset)

text \<open>Taking the top until the queue is empty.\<close>

function drain :: "('a \<Rightarrow> 'a \<Rightarrow> bool) \<Rightarrow> 'a list \<Rightarrow> 'a list" where
  "drain lt c = (case pq_pop lt c of Inl _ \<Rightarrow> [] | Inr c' \<Rightarrow> hd c # drain lt c')"
  by pat_completeness auto
termination
  by (relation "measure (\<lambda>(lt, c). length c)") (auto dest: length_pq_pop)

declare drain.simps [simp del]

lemma drain_Nil [simp]: "drain lt [] = []"
  by (subst drain.simps) (simp add: pq_pop_def)

lemma mset_drain: "mset (drain lt c) = mset c"
proof (induction lt c rule: drain.induct)
  case (1 lt c)
  show ?case
  proof (cases "c = []")
    case False
    from mset_pq_pop [OF False] obtain c' where "pq_pop lt c = Inr c'" "mset c = add_mset (hd c) (mset c')"
      by blast
    with 1 show ?thesis by (simp add: drain.simps [of lt c])
  qed simp
qed

section \<open>Order\<close>

definition is_heap :: "('a \<Rightarrow> 'a \<Rightarrow> bool) \<Rightarrow> 'a list \<Rightarrow> bool" where
  "is_heap lt xs \<longleftrightarrow> (\<forall>i < length xs. 0 < i \<longrightarrow> \<not> lt (xs ! ((i - 1) div 2)) (xs ! i))"

locale strict_weak =
  fixes lt :: "'a \<Rightarrow> 'a \<Rightarrow> bool"
  assumes irrefl: "\<not> lt x x"
    and trans: "lt x y \<Longrightarrow> lt y z \<Longrightarrow> lt x z"
    and neg_trans: "\<not> lt x y \<Longrightarrow> \<not> lt y z \<Longrightarrow> \<not> lt x z"
begin

lemma asym: "lt x y \<Longrightarrow> \<not> lt y x"
  using irrefl trans by blast

text \<open>
  The hole at \<open>h\<close> filled with \<open>v\<close> may only be wrong against its parent; its children are in order
  with the parent too.
\<close>

definition almost_heap :: "'a list \<Rightarrow> nat \<Rightarrow> 'a \<Rightarrow> bool" where
  "almost_heap xs h v \<longleftrightarrow> h < length xs \<and>
     (\<forall>i < length xs. 0 < i \<and> i \<noteq> h \<longrightarrow> \<not> lt ((xs[h := v]) ! ((i - 1) div 2)) (xs ! i)) \<and>
     (\<forall>i < length xs. 0 < i \<and> (i - 1) div 2 = h \<and> 0 < h \<longrightarrow> \<not> lt (xs ! ((h - 1) div 2)) (xs ! i))"

lemma almost_heap_up:
  assumes a: "almost_heap xs h v" and h: "0 < h" and lt: "lt (xs ! ((h - 1) div 2)) v"
  shows "almost_heap (xs[h := xs ! ((h - 1) div 2)]) ((h - 1) div 2) v"
proof -
  let ?p = "(h - 1) div 2"
  have p: "?p < h" "h < length xs" using h a by (auto simp: almost_heap_def)
  have A: "\<not> lt ((xs[h := v]) ! ((i - 1) div 2)) (xs ! i)" if "i < length xs" "0 < i" "i \<noteq> h" for i
    using a that by (simp add: almost_heap_def)
  have B: "\<not> lt (xs ! ?p) (xs ! i)" if "i < length xs" "0 < i" "(i - 1) div 2 = h" for i
    using a that h by (simp add: almost_heap_def)
  have sib: "\<not> lt (xs ! ?p) (xs ! i)" if "i < length xs" "0 < i" "i \<noteq> h" "(i - 1) div 2 = ?p" for i
    using A [OF that(1-3)] that(4) p by simp
  have pp: "\<not> lt (xs ! ((?p - 1) div 2)) (xs ! ?p)" if "0 < ?p"
  proof -
    have "(?p - 1) div 2 \<noteq> h" using p by linarith
    then show ?thesis using A [of ?p] that p by simp
  qed
  show ?thesis
    unfolding almost_heap_def
  proof (intro conjI allI impI)
    show "?p < length (xs[h := xs ! ?p])" using p by simp
  next
    fix i assume i: "i < length (xs[h := xs ! ?p])" "0 < i \<and> i \<noteq> ?p"
    show "\<not> lt ((xs[h := xs ! ?p])[?p := v] ! ((i - 1) div 2)) (xs[h := xs ! ?p] ! i)"
    proof (cases "i = h")
      case True
      then show ?thesis using asym [OF lt] p by simp
    next
      case False
      consider "(i - 1) div 2 = ?p" | "(i - 1) div 2 = h" | "(i - 1) div 2 \<noteq> ?p" "(i - 1) div 2 \<noteq> h" by blast
      then show ?thesis
      proof cases
        case 1
        then show ?thesis using sib [of i] False i lt trans p by (auto simp: nth_list_update)
      next
        case 2
        then show ?thesis using B [of i] False i p by (simp add: nth_list_update)
      next
        case 3
        then show ?thesis using A [of i] False i p by (simp add: nth_list_update)
      qed
    qed
  next
    fix i assume i: "i < length (xs[h := xs ! ?p])" "0 < i \<and> (i - 1) div 2 = ?p \<and> 0 < ?p"
    have "(?p - 1) div 2 \<noteq> h" using p by linarith
    moreover have "\<not> lt (xs ! ((?p - 1) div 2)) (xs ! i)" if "i \<noteq> h"
      using neg_trans [OF pp sib [of i]] that i by simp
    ultimately show "\<not> lt (xs[h := xs ! ?p] ! ((?p - 1) div 2)) (xs[h := xs ! ?p] ! i)"
      using pp i p by (cases "i = h") simp_all
  qed
qed

lemma push_heap_heap: "almost_heap xs h v \<Longrightarrow> is_heap lt (push_heap lt xs h v)"
proof (induction "h" arbitrary: xs rule: less_induct)
  case (less h)
  let ?p = "(h - 1) div 2"
  show ?case
  proof (cases "h > 0 \<and> lt (xs ! ?p) v")
    case True
    then have "?p < h" by auto
    with less(1) [OF this almost_heap_up [OF less(2)]] True show ?thesis
      by (simp add: push_heap.simps [of lt xs h] Let_def)
  next
    case False
    have "is_heap lt (xs[h := v])"
      unfolding is_heap_def
    proof (intro allI impI)
      fix i assume "i < length (xs[h := v])" "0 < i"
      then show "\<not> lt (xs[h := v] ! ((i - 1) div 2)) (xs[h := v] ! i)"
        using False less(2) by (cases "i = h") (auto simp: almost_heap_def nth_list_update)
    qed
    then show ?thesis using False by (auto simp: push_heap.simps [of lt xs h] Let_def)
  qed
qed

text \<open>Moving the larger child up keeps the heap, with the old value left in the hole.\<close>

lemma is_heap_child_up:
  assumes hp: "is_heap lt xs" and c: "c < length xs" "0 < c" "(c - 1) div 2 = h"
    and sib: "\<And>i. i < length xs \<Longrightarrow> 0 < i \<Longrightarrow> (i - 1) div 2 = h \<Longrightarrow> \<not> lt (xs ! c) (xs ! i)"
  shows "is_heap lt (xs[h := xs ! c])"
  unfolding is_heap_def
proof (intro allI impI)
  fix i assume i: "i < length (xs[h := xs ! c])" "0 < i"
  have H: "\<not> lt (xs ! ((j - 1) div 2)) (xs ! j)" if "j < length xs" "0 < j" for j
    using hp that by (simp add: is_heap_def)
  have h: "h < c" "h < length xs" using c by auto
  show "\<not> lt (xs[h := xs ! c] ! ((i - 1) div 2)) (xs[h := xs ! c] ! i)"
  proof (cases "i = h")
    case True
    have "(h - 1) div 2 \<noteq> h" using True i by linarith
    moreover have "\<not> lt (xs ! ((h - 1) div 2)) (xs ! c)"
      using neg_trans [of "xs ! ((h - 1) div 2)" "xs ! h" "xs ! c"] H [of h] H [of c] True i c h by simp
    ultimately show ?thesis using True h by simp
  next
    case False
    then show ?thesis using sib [of i] H [of i] i h by (cases "(i - 1) div 2 = h") simp_all
  qed
qed

lemma hole_down_heap:
  assumes "is_heap lt xs" "hole < length xs" "hole_down lt xs hole = (ys, leaf)"
  shows "is_heap lt ys \<and> (\<forall>i < length ys. 0 < i \<longrightarrow> (i - 1) div 2 \<noteq> leaf)"
  using assms
proof (induction "length xs - hole" arbitrary: xs hole rule: less_induct)
  case less
  define child where "child = (if lt (xs ! (2 * (hole + 1))) (xs ! (2 * (hole + 1) - 1))
    then 2 * (hole + 1) - 1 else 2 * (hole + 1))"
  consider (down) "hole < (length xs - 1) div 2"
    | (last) "\<not> hole < (length xs - 1) div 2" "length xs mod 2 = 0" "2 \<le> length xs" "hole = (length xs - 2) div 2"
    | (leaf) "\<not> hole < (length xs - 1) div 2"
      "\<not> (length xs mod 2 = 0 \<and> 2 \<le> length xs \<and> hole = (length xs - 2) div 2)" by metis
  then show ?case
  proof cases
    case down
    have c: "child < length xs" "0 < child" "(child - 1) div 2 = hole" "hole < child"
      using down by (auto simp: child_def)
    have "\<not> lt (xs ! child) (xs ! i)" if "i < length xs" "0 < i" "(i - 1) div 2 = hole" for i
    proof -
      have "i = 2 * (hole + 1) \<or> i = 2 * (hole + 1) - 1" using that by presburger
      then show ?thesis using irrefl asym by (auto simp: child_def)
    qed
    from is_heap_child_up [OF less(2) c(1-3) this] have "is_heap lt (xs[hole := xs ! child])" by simp
    moreover have "hole_down lt (xs[hole := xs ! child]) child = (ys, leaf)"
      using less(4) down by (simp add: hole_down.simps [of lt xs hole] child_def Let_def split: if_splits)
    ultimately show ?thesis using less(1) [of "xs[hole := xs ! child]" child] c by simp
  next
    case last
    then have c: "2 * hole + 1 < length xs" "0 < 2 * hole + 1" "(2 * hole + 1 - 1) div 2 = hole"
      and n: "length xs = 2 * hole + 2" by auto
    have "\<not> lt (xs ! (2 * hole + 1)) (xs ! i)" if "i < length xs" "0 < i" "(i - 1) div 2 = hole" for i
    proof -
      have "i = 2 * hole + 1" using that n by linarith
      then show ?thesis using irrefl by simp
    qed
    from is_heap_child_up [OF less(2) c this] have "is_heap lt (xs[hole := xs ! (2 * hole + 1)])" .
    moreover have "ys = xs[hole := xs ! (2 * hole + 1)]" "leaf = 2 * hole + 1"
      using less(4) hole_down_last [OF n, of lt] by auto
    ultimately show ?thesis using n by auto
  next
    case leaf
    have "(i - 1) div 2 \<noteq> hole" if "i < length xs" "0 < i" for i
    proof
      assume "(i - 1) div 2 = hole"
      then have "2 * hole + 1 \<le> i" using that by linarith
      with that have "2 * hole + 2 \<le> length xs" by linarith
      moreover from leaf(1) have "length xs \<le> 2 * hole + 2" by linarith
      ultimately have "length xs = 2 * hole + 2" by simp
      with leaf(2) show False by simp
    qed
    moreover have "ys = xs" "leaf = hole" using less(4) hole_down_leaf [OF leaf, of lt] by simp_all
    ultimately show ?thesis using less(2) by simp
  qed
qed

lemma adjust_heap_heap:
  assumes "is_heap lt xs" "0 < length xs"
  shows "is_heap lt (adjust_heap lt xs 0 v)"
proof -
  obtain ys leaf where d: "hole_down lt xs 0 = (ys, leaf)" by fastforce
  from hole_down_heap [OF assms(1) _ d] assms(2)
  have h: "is_heap lt ys" "\<forall>i < length ys. 0 < i \<longrightarrow> (i - 1) div 2 \<noteq> leaf" by simp_all
  from hole_down_mset [OF assms(2) d, of v] have "leaf < length ys" by simp
  with h have "almost_heap ys leaf v" by (auto simp: almost_heap_def is_heap_def)
  from push_heap_heap [OF this] show ?thesis by (simp add: adjust_heap_def d)
qed

lemma is_heap_push: "is_heap lt c \<Longrightarrow> is_heap lt (pq_push lt c x)"
  unfolding pq_push_def
proof (rule push_heap_heap)
  assume h: "is_heap lt c"
  show "almost_heap (c @ [x]) (length c) x"
    unfolding almost_heap_def
  proof (intro conjI allI impI)
    fix i assume i: "i < length (c @ [x])" "0 < i \<and> i \<noteq> length c"
    then have "i < length c" "(i - 1) div 2 < length c" by auto
    with h i show "\<not> lt ((c @ [x])[length c := x] ! ((i - 1) div 2)) ((c @ [x]) ! i)"
      by (simp add: is_heap_def nth_append)
  next
    fix i assume i: "i < length (c @ [x])" "0 < i \<and> (i - 1) div 2 = length c \<and> 0 < length c"
    then have False by auto
    then show "\<not> lt ((c @ [x]) ! ((length c - 1) div 2)) ((c @ [x]) ! i)" ..
  qed simp
qed

lemma is_heap_butlast: "is_heap lt c \<Longrightarrow> is_heap lt (butlast c)"
proof -
  assume h: "is_heap lt c"
  have "(i - 1) div 2 < length c - 1" if "i < length c - 1" for i using that by auto
  with h show ?thesis by (simp add: is_heap_def nth_butlast)
qed

lemma is_heap_pop: "is_heap lt c \<Longrightarrow> pq_pop lt c = Inr c' \<Longrightarrow> is_heap lt c'"
proof -
  assume h: "is_heap lt c" and p: "pq_pop lt c = Inr c'"
  show ?thesis
  proof (cases "length c > 1")
    case True
    then show ?thesis using p adjust_heap_heap [OF is_heap_butlast [OF h], of "last c"]
      by (auto simp: pq_pop_def split: if_splits)
  next
    case False
    with p have "c' = []" by (auto simp: pq_pop_def split: if_splits)
    then show ?thesis by (simp add: is_heap_def)
  qed
qed

lemma heap_top_index: "is_heap lt c \<Longrightarrow> i < length c \<Longrightarrow> \<not> lt (c ! 0) (c ! i)"
proof (induction i rule: less_induct)
  case (less i)
  show ?case
  proof (cases "i = 0")
    case False
    then have "(i - 1) div 2 < i" by auto
    from less(1) [OF this less(2)] less(3) have "\<not> lt (c ! 0) (c ! ((i - 1) div 2))"
      using \<open>(i - 1) div 2 < i\<close> by simp
    moreover have "\<not> lt (c ! ((i - 1) div 2)) (c ! i)"
      using False less(2,3) by (simp add: is_heap_def)
    ultimately show ?thesis by (rule neg_trans)
  qed (simp add: irrefl)
qed

lemma heap_top: "is_heap lt c \<Longrightarrow> x \<in> set c \<Longrightarrow> \<not> lt (hd c) x"
  using heap_top_index by (metis hd_conv_nth in_set_conv_nth list.size(3) not_less_zero)

lemma drain_sorted: "is_heap lt c \<Longrightarrow> sorted_wrt (\<lambda>a b. \<not> lt a b) (drain lt c)"
proof (induction "length c" arbitrary: c rule: less_induct)
  case less
  show ?case
  proof (cases "c = []")
    case False
    from mset_pq_pop [OF False] obtain c' where c': "pq_pop lt c = Inr c'" by blast
    have "set (drain lt c') = set c'" by (metis mset_drain set_mset_mset)
    moreover have "set c' \<subseteq> set c"
      using mset_pq_pop [OF False, of lt] c' by (metis Inr_inject insert_iff set_mset_add_mset_insert set_mset_mset subsetI)
    ultimately have "\<forall>x \<in> set (drain lt c'). \<not> lt (hd c) x" using heap_top [OF less(2)] by blast
    moreover have "sorted_wrt (\<lambda>a b. \<not> lt a b) (drain lt c')"
      using less(1) [of c'] length_pq_pop [OF c'] is_heap_pop [OF less(2) c'] by simp
    ultimately show ?thesis using c' by (simp add: drain.simps [of lt c])
  qed simp
qed

lemma push_all_heap: "is_heap lt c \<Longrightarrow> is_heap lt (foldl (pq_push lt) c xs)"
  by (induction xs arbitrary: c) (simp_all add: is_heap_push)

text \<open>Pushing everything and popping everything sorts.\<close>

lemma heap_sort:
  "sorted_wrt (\<lambda>a b. \<not> lt a b) (drain lt (foldl (pq_push lt) [] xs))"
  by (intro drain_sorted push_all_heap) (simp add: is_heap_def)

end

lemma mset_push_all: "mset (foldl (pq_push lt) c xs) = mset c + mset xs"
  by (induction xs arbitrary: c) simp_all

section \<open>Instances\<close>

lemma strict_weak_of_three_way:
  assumes "three_way UNIV compare"
  shows "strict_weak (\<lambda>a b. compare a b < 0)"
proof
  fix x y z
  note order = three_way.strict_weak_order [OF assms, of x y z, simplified]
  show "\<not> compare x x < 0" by (rule order(1))
  show "compare x y < 0 \<Longrightarrow> compare y z < 0 \<Longrightarrow> compare x z < 0" by (rule order(3))
  show "\<not> compare x y < 0 \<Longrightarrow> \<not> compare y z < 0 \<Longrightarrow> \<not> compare x z < 0"
    using order(4) by (simp add: not_less)
qed

interpretation key_less: strict_weak "LessOfComparator slice_order_comparator"
  using strict_weak_of_three_way [OF slice_order.three_way_axioms]
  by (simp add: LessOfComparator_def [abs_def])

interpretation parsed_less: strict_weak "ParsedInternalKeyComparator slice_order_comparator"
  using strict_weak_of_three_way [OF parsed_lex.three_way_axioms]
  by (simp add: ParsedInternalKeyComparator_def [abs_def])

end
