(* ===== verification/Mergers.thy ===== *)
theory Mergers
  imports Tables StdHeap
begin

text \<open>
  \<open>include/merger.h\<close> and \<open>include/merger.cc\<close>: file names, the heap of entries of all input files,
  and the three filters of the base class \<open>Merger\<close>.

  The pairs of slice pointers in the queue point into the input tables, which do not change while
  they are there; a pair is the byte strings the two slices denote. The state of a merger is a
  record of its members.
\<close>

section \<open>Data\<close>

datatype FilterLogic = kRemoveRedundant | kDeletePrefix | kDeleteVersion
datatype TableFormat = kGear | kBlockBased | kPlain | kCuckoo

record FileNameCreator =
  fnc_file_number :: u32 \<comment> \<open>\<open>std::atomic<int>\<close>\<close>
  fnc_base_dir :: "byte list"

definition FileNameCreator_ctor :: "byte list \<Rightarrow> FileNameCreator" where
  "FileNameCreator_ctor dir_name = \<lparr>fnc_file_number = 0, fnc_base_dir = dir_name\<rparr>"

text \<open>\<open>setfill('0') << setw(8)\<close> pads on the left; \<open>fetch_add\<close> wraps around.\<close>

definition setw8 :: "byte list \<Rightarrow> byte list" where
  "setw8 s = replicate (8 - length s) 48 @ s"

definition NextFileName :: "FileNameCreator \<Rightarrow> byte list \<times> FileNameCreator" where
  "NextFileName c =
     (fnc_base_dir c @ bytes_of_string ''/'' @ setw8 (show_int (sint (fnc_file_number c))) @
        bytes_of_string ''.sst'',
      c\<lparr>fnc_file_number := fnc_file_number c + 1\<rparr>)"

record FilterArgs =
  fa_seq :: SequenceNumber
  fa_prefix :: "byte list"

type_synonym kv_pair = "byte list \<times> byte list"

record Merger =
  mg_input_files :: "Table list"
  mg_result_keys :: "byte list list"
  mg_result_values :: "byte list list"
  mg_abandoned_values :: "kv_pair list"
  mg_redundant_user_keys :: "kv_pair list"
  mg_pq :: "kv_pair list" \<comment> \<open>the vector under the priority queue\<close>
  mg_logic :: FilterLogic
  mg_bound :: FilterArgs
  mg_format :: TableFormat

section \<open>The comparator of the heap\<close>

text \<open>
  A default-constructed \<open>ParsedInternalKey\<close>: the type is not initialised and holds \<open>u\<close>. A parse of
  a key shorter than eight bytes leaves it as it is.
\<close>

definition pik_default :: "ValueType \<Rightarrow> ParsedInternalKey" where
  "pik_default u = \<lparr>pik_user_key = [], pik_sequence = kMaxSequenceNumber, pik_type = u\<rparr>"

definition parse_into :: "bool \<Rightarrow> byte list \<Rightarrow> ParsedInternalKey \<Rightarrow> ParsedInternalKey" where
  "parse_into le k old =
     (case ParseInternalKey le k of Inr (ok, Some p) \<Rightarrow> p | _ \<Rightarrow> old)"

definition heap_KeyComparor :: "bool \<Rightarrow> ValueType \<Rightarrow> kv_pair \<Rightarrow> kv_pair \<Rightarrow> int" where
  "heap_KeyComparor le u p1 p2 =
     (let p1_key = parse_into le (fst p1) (pik_default u);
          p2_key = parse_into le (fst p2) (pik_default u);
          r = bytes_compare (pik_user_key p1_key) (pik_user_key p2_key) in
      if r = 0 then
        if pik_sequence p1_key > pik_sequence p2_key then -1
        else if pik_sequence p1_key < pik_sequence p2_key then 1
        else if pik_type p1_key > pik_type p2_key then -1
        else if pik_type p1_key < pik_type p2_key then 1
        else r
      else r)"

text \<open>The queue uses the \<open>int\<close> as a \<open>bool\<close>.\<close>

definition heap_less :: "bool \<Rightarrow> ValueType \<Rightarrow> kv_pair \<Rightarrow> kv_pair \<Rightarrow> bool" where
  "heap_less le u p1 p2 \<longleftrightarrow> heap_KeyComparor le u p1 p2 \<noteq> 0"

section \<open>Merging\<close>

text \<open>\<open>file->key_list.data() + i\<close> and \<open>file->value_list.data() + i\<close>, with what they point to.\<close>

definition table_entry :: "Table \<Rightarrow> nat \<Rightarrow> kv_pair res" where
  "table_entry file i =
     res_bind (vec_at (tb_key_list file) i) (\<lambda>k. res_bind (slice_read k) (\<lambda>kb.
     res_bind (vec_at (tb_value_list file) i) (\<lambda>v. res_bind (slice_read v) (\<lambda>vb. Inr (kb, vb)))))"

function merge_file ::
  "(kv_pair \<Rightarrow> kv_pair \<Rightarrow> bool) \<Rightarrow> Table \<Rightarrow> nat \<Rightarrow> kv_pair list \<Rightarrow> kv_pair list res" where
  "merge_file lt file i pq =
     (if i < length (tb_key_list file)
      then res_bind (table_entry file i) (\<lambda>e. merge_file lt file (i + 1) (pq_push lt pq e))
      else Inr pq)"
  by pat_completeness auto
termination
  by (relation "measure (\<lambda>(lt, file, i, pq). length (tb_key_list file) - i)") auto

declare merge_file.simps [simp del]

fun merge_by_min_heap ::
  "(kv_pair \<Rightarrow> kv_pair \<Rightarrow> bool) \<Rightarrow> Table list \<Rightarrow> kv_pair list \<Rightarrow> kv_pair list res" where
  "merge_by_min_heap lt [] pq = Inr pq"
| "merge_by_min_heap lt (file # files) pq =
     res_bind (merge_file lt file 0 pq) (\<lambda>pq. merge_by_min_heap lt files pq)"

definition MergeEntries :: "bool \<Rightarrow> ValueType \<Rightarrow> Merger \<Rightarrow> (u64 \<times> Merger) res" where
  "MergeEntries le u m =
     (let m = m\<lparr>mg_result_keys := [], mg_result_values := []\<rparr> in
      res_bind (merge_by_min_heap (heap_less le u) (mg_input_files m) (mg_pq m)) (\<lambda>pq.
        Inr (0, m\<lparr>mg_pq := pq\<rparr>)))"

definition CreateFilePointerFromName ::
  "(byte list \<Rightarrow> byte list option) \<Rightarrow> bool \<Rightarrow> TableFormat \<Rightarrow> byte list \<Rightarrow> Table res" where
  "CreateFilePointerFromName fs permitted format fname =
     (case format of
        kGear \<Rightarrow> new_table fs permitted GearTable fname True
      | kBlockBased \<Rightarrow> new_table fs permitted BlockBasedTable fname True
      | kPlain \<Rightarrow> new_table fs permitted PlainTable fname True
      | kCuckoo \<Rightarrow> new_table fs permitted CuckooTable fname True)"

fun open_inputs ::
  "(byte list \<Rightarrow> byte list option) \<Rightarrow> bool \<Rightarrow> TableFormat \<Rightarrow> byte list list \<Rightarrow> Table list \<Rightarrow> Table list res" where
  "open_inputs fs permitted format [] files = Inr files"
| "open_inputs fs permitted format (fname # fnames) files =
     res_bind (CreateFilePointerFromName fs permitted format fname) (\<lambda>t.
       open_inputs fs permitted format fnames (files @ [t]))"

text \<open>The constructor; \<open>logic_\<close> and \<open>bound_\<close> are whatever \<open>l\<close> and \<open>a\<close> the memory holds.\<close>

definition Merger_ctor ::
  "(byte list \<Rightarrow> byte list option) \<Rightarrow> bool \<Rightarrow> FilterLogic \<Rightarrow> FilterArgs \<Rightarrow> byte list list \<Rightarrow> TableFormat \<Rightarrow> Merger res"
  where
  "Merger_ctor fs permitted l a input_fnames tableFormat =
     res_bind (open_inputs fs permitted tableFormat input_fnames []) (\<lambda>files.
       Inr \<lparr>mg_input_files = files, mg_result_keys = [], mg_result_values = [],
            mg_abandoned_values = [], mg_redundant_user_keys = [], mg_pq = [], mg_logic = l,
            mg_bound = a, mg_format = tableFormat\<rparr>)"

definition GenerateFilterArgs :: "Merger \<Rightarrow> FilterLogic \<Rightarrow> FilterArgs \<Rightarrow> Merger" where
  "GenerateFilterArgs m judgement_logic judgement_arg =
     m\<lparr>mg_logic := judgement_logic, mg_bound := judgement_arg\<rparr>"

section \<open>Filtering\<close>

definition vec_back :: "'a list \<Rightarrow> 'a res" where
  "vec_back v = (if v = [] then Inl EmptyContainer else Inr (last v))"

definition vec_pop_back :: "'a list \<Rightarrow> 'a list res" where
  "vec_pop_back v = (if v = [] then Inl EmptyContainer else Inr (butlast v))"

text \<open>
  The second call of \<open>ParseInternalKey\<close> stores into \<open>parsed_current\<close> too, so that \<open>parsed_last\<close>
  keeps its default-constructed, empty user key.
\<close>

definition DropRedundantKeys ::
  "bool \<Rightarrow> ValueType \<Rightarrow> Merger \<Rightarrow> kv_pair \<Rightarrow> byte list \<Rightarrow> Merger res" where
  "DropRedundantKeys le u m current_pair last_key =
     (let parsed_current = pik_default u; parsed_last = pik_default u;
          parsed_current = parse_into le (fst current_pair) parsed_current;
          parsed_current = parse_into le last_key parsed_current in
      res_bind
        (if pik_user_key parsed_current = pik_user_key parsed_last then
           res_bind (vec_back (mg_result_keys m)) (\<lambda>k.
           res_bind (vec_back (mg_result_values m)) (\<lambda>v.
           res_bind (vec_pop_back (mg_result_keys m)) (\<lambda>ks.
           res_bind (vec_pop_back (mg_result_values m)) (\<lambda>vs.
             Inr (m\<lparr>mg_abandoned_values := mg_abandoned_values m @ [(k, v)],
                    mg_result_keys := ks, mg_result_values := vs\<rparr>)))))
         else Inr m) (\<lambda>m.
        Inr (m\<lparr>mg_result_keys := mg_result_keys m @ [fst current_pair],
               mg_result_values := mg_result_values m @ [snd current_pair]\<rparr>)))"

definition DropWithPrefix :: "bool \<Rightarrow> ValueType \<Rightarrow> Merger \<Rightarrow> kv_pair \<Rightarrow> Merger" where
  "DropWithPrefix le u m current_pair =
     (let parsed_current = parse_into le (fst current_pair) (pik_default u) in
      if prefix (fa_prefix (mg_bound m)) (pik_user_key parsed_current)
      then m\<lparr>mg_abandoned_values := mg_abandoned_values m @ [current_pair]\<rparr>
      else m)"

definition PickUniqueVersion ::
  "bool \<Rightarrow> ValueType \<Rightarrow> Merger \<Rightarrow> kv_pair \<Rightarrow> byte list \<Rightarrow> Merger res" where
  "PickUniqueVersion le u m current_pair last_key =
     (let parsed_current = pik_default u;
          parsed_current = parse_into le (fst current_pair) parsed_current;
          parsed_current = parse_into le last_key parsed_current in
      res_bind
        (if prefix (fa_prefix (mg_bound m)) (pik_user_key parsed_current) \<and>
            pik_sequence parsed_current \<le> fa_seq (mg_bound m) then
           res_bind (vec_back (mg_redundant_user_keys m)) (\<lambda>red.
           res_bind
             (if fst red = pik_user_key parsed_current then
                res_bind (vec_pop_back (mg_redundant_user_keys m)) (\<lambda>reds.
                  Inr (m\<lparr>mg_abandoned_values := mg_abandoned_values m @ [red],
                         mg_redundant_user_keys := reds\<rparr>))
              else Inr m) (\<lambda>m.
           res_bind (vec_back (mg_result_keys m)) (\<lambda>k.
           res_bind (vec_back (mg_result_values m)) (\<lambda>v.
           res_bind (vec_pop_back (mg_result_keys m)) (\<lambda>ks.
           res_bind (vec_pop_back (mg_result_values m)) (\<lambda>vs.
             Inr (m\<lparr>mg_redundant_user_keys := mg_redundant_user_keys m @ [(k, v)],
                    mg_result_keys := ks, mg_result_values := vs\<rparr>)))))))
         else Inr m) (\<lambda>m.
        Inr (m\<lparr>mg_result_keys := mg_result_keys m @ [fst current_pair],
               mg_result_values := mg_result_values m @ [snd current_pair]\<rparr>)))"

definition filter_step :: "bool \<Rightarrow> ValueType \<Rightarrow> Merger \<Rightarrow> kv_pair \<Rightarrow> byte list \<Rightarrow> Merger res" where
  "filter_step le u m current_pair last_pair =
     (case mg_logic m of
        kRemoveRedundant \<Rightarrow> DropRedundantKeys le u m current_pair last_pair
      | kDeletePrefix \<Rightarrow> Inr (DropWithPrefix le u m current_pair)
      | kDeleteVersion \<Rightarrow> PickUniqueVersion le u m current_pair last_pair)"

lemma filter_step_pq: "filter_step le u m e l = Inr m' \<Longrightarrow> mg_pq m' = mg_pq m"
  by (auto simp: filter_step_def DropRedundantKeys_def DropWithPrefix_def PickUniqueVersion_def Let_def
      res_bind_eq_Inr split: FilterLogic.splits if_splits)

text \<open>The loop of \<open>DoFilter\<close>: top, back, filter, pop.\<close>

function DoFilter :: "bool \<Rightarrow> ValueType \<Rightarrow> Merger \<Rightarrow> (u64 \<times> Merger) res" where
  "DoFilter le u m =
     (if mg_pq m = [] then Inr (0, m)
      else res_bind (pq_top (mg_pq m)) (\<lambda>current_pair.
           res_bind (vec_back (mg_result_keys m)) (\<lambda>last_pair.
           case filter_step le u m current_pair last_pair of
             Inl e \<Rightarrow> Inl e
           | Inr m' \<Rightarrow>
             (case pq_pop (heap_less le u) (mg_pq m') of
                Inl e \<Rightarrow> Inl e
              | Inr pq \<Rightarrow> DoFilter le u (m'\<lparr>mg_pq := pq\<rparr>)))))"
  by pat_completeness auto
termination
  by (relation "measure (\<lambda>(le, u, m). length (mg_pq m))") (auto dest!: filter_step_pq length_pq_pop)

declare DoFilter.simps [simp del]

text \<open>The base class's \<open>DoCompaction\<close>, with the two pure virtual steps as arguments.\<close>

definition Merger_DoCompaction ::
  "(Merger \<Rightarrow> Merger res) \<Rightarrow> (Merger \<Rightarrow> Merger res) \<Rightarrow> bool \<Rightarrow> ValueType \<Rightarrow> Merger \<Rightarrow> (u64 \<times> Merger) res" where
  "Merger_DoCompaction PrepareFiles WriteOutResult le u m =
     res_bind (PrepareFiles m) (\<lambda>m.
     res_bind (MergeEntries le u m) (\<lambda>(_, m).
     res_bind (DoFilter le u m) (\<lambda>(_, m).
     res_bind (WriteOutResult m) (\<lambda>m. Inr (0, m)))))"

section \<open>Lemmas\<close>

lemma parse_into_eq: "parse_into le k old = (if length k < 8 then old else ikey_parsed k)"
  by (simp add: parse_into_def ParseInternalKey_eq)

text \<open>On proper internal keys the comparator is the comparison of parsed keys.\<close>

lemma heap_KeyComparor_parsed:
  assumes "8 \<le> length (fst p1)" "8 \<le> length (fst p2)"
  shows "heap_KeyComparor le u p1 p2
    = Compare_parsed slice_order_comparator (ikey_parsed (fst p1)) (ikey_parsed (fst p2))"
  using assms
  by (simp add: heap_KeyComparor_def parse_into_eq Compare_parsed_def Let_def
      slice_order_comparator_def Comparator_defaults_def)

lemma cmp_slice_order: "cmp_Compare slice_order_comparator = bytes_compare"
  by (simp add: slice_order_comparator_def Comparator_defaults_def)

lemma seq_type_compare_0:
  "seq_type_compare a b = 0 \<longleftrightarrow> pik_sequence a = pik_sequence b \<and> pik_type a = pik_type b"
  by (auto simp: seq_type_compare_def)

lemma Compare_parsed_slice_order_0:
  "Compare_parsed slice_order_comparator a b = 0 \<longleftrightarrow> a = b"
proof
  assume "Compare_parsed slice_order_comparator a b = 0"
  then have "bytes_compare (pik_user_key a) (pik_user_key b) = 0" "seq_type_compare a b = 0"
    unfolding Compare_parsed_alt cmp_slice_order by (metis (full_types))+
  then show "a = b" by (intro ParsedInternalKey.equality) (simp_all add: seq_type_compare_0)
next
  assume "a = b"
  then show "Compare_parsed slice_order_comparator a b = 0"
    using seq_type_compare_0 [of b b] unfolding Compare_parsed_alt cmp_slice_order by simp
qed

lemma heap_less_iff:
  assumes "8 \<le> length (fst p1)" "8 \<le> length (fst p2)"
  shows "heap_less le u p1 p2 \<longleftrightarrow> fst p1 \<noteq> fst p2"
  unfolding heap_less_def heap_KeyComparor_parsed [OF assms] Compare_parsed_slice_order_0
  using ikey_bytes_parsed [OF assms(1)] ikey_bytes_parsed [OF assms(2)] by metis

definition table_ok :: "Table \<Rightarrow> bool" where
  "table_ok t \<longleftrightarrow> length (tb_key_list t) = length (tb_value_list t) \<and>
     (\<forall>s \<in> set (tb_key_list t) \<union> set (tb_value_list t). slice_wf s)"

definition table_entries :: "Table \<Rightarrow> kv_pair list" where
  "table_entries t = zip (map slice_bytes (tb_key_list t)) (map slice_bytes (tb_value_list t))"

lemma merge_file_ok:
  assumes "table_ok t"
  shows "merge_file lt t i pq = Inr (foldl (pq_push lt) pq (drop i (table_entries t)))"
  using assms
proof (induction lt t i pq rule: merge_file.induct)
  case (1 lt t i pq)
  show ?case
  proof (cases "i < length (tb_key_list t)")
    case True
    let ?e = "(slice_bytes (tb_key_list t ! i), slice_bytes (tb_value_list t ! i))"
    have "slice_wf (tb_key_list t ! i)" "slice_wf (tb_value_list t ! i)" "i < length (tb_value_list t)"
      using True 1(2) nth_mem [of i "tb_key_list t"] nth_mem [of i "tb_value_list t"]
      by (auto simp: table_ok_def)
    then have e: "table_entry t i = Inr ?e" using True by (simp add: table_entry_def slice_simps)
    have "drop i (table_entries t) = ?e # drop (i + 1) (table_entries t)"
      using True \<open>i < length (tb_value_list t)\<close>
      by (simp add: table_entries_def Cons_nth_drop_Suc [symmetric])
    then show ?thesis
      using 1(1) [OF True e 1(2)] True e by (simp add: merge_file.simps [of lt t i])
  next
    case False
    with 1(2) show ?thesis
      by (simp add: merge_file.simps [of lt t i] table_entries_def)
  qed
qed

lemma merge_by_min_heap_ok:
  "\<forall>t \<in> set files. table_ok t \<Longrightarrow>
   merge_by_min_heap lt files pq = Inr (foldl (pq_push lt) pq (concat (map table_entries files)))"
  by (induction files arbitrary: pq) (simp_all add: merge_file_ok)

text \<open>All the entries a merger holds outside the queue.\<close>

definition held :: "Merger \<Rightarrow> kv_pair multiset" where
  "held m = mset (zip (mg_result_keys m) (mg_result_values m)) + mset (mg_abandoned_values m) +
     mset (mg_redundant_user_keys m)"

definition result_ok :: "Merger \<Rightarrow> bool" where
  "result_ok m \<longleftrightarrow> length (mg_result_keys m) = length (mg_result_values m) \<and> mg_result_keys m \<noteq> []"

lemma zip_back:
  assumes "length ks = length vs" "ks \<noteq> []"
  shows "mset (zip ks vs) = add_mset (last ks, last vs) (mset (zip (butlast ks) (butlast vs)))"
proof -
  from assms obtain ks' k vs' v where "ks = ks' @ [k]" "vs = vs' @ [v]" "length ks' = length vs'"
    by (cases ks rule: rev_cases; cases vs rule: rev_cases) auto
  then show ?thesis by simp
qed

text \<open>
  The contract of a filter logic, for the loop of \<open>DoFilter\<close>: on an admissible entry a step succeeds, keeps the
  invariant and collects the entry, or not, as \<open>keep\<close> says.
\<close>

locale entry_filter =
  fixes le :: bool and u :: ValueType and logic :: FilterLogic and inv :: "Merger \<Rightarrow> bool"
    and acc :: "Merger \<Rightarrow> kv_pair multiset" and keep :: "kv_pair \<Rightarrow> bool" and ok :: "kv_pair \<Rightarrow> bool"
  assumes inv_pq: "inv (m\<lparr>mg_pq := pq\<rparr>) = inv m" and acc_pq: "acc (m\<lparr>mg_pq := pq\<rparr>) = acc m"
    and inv_back: "inv m \<Longrightarrow> mg_result_keys m \<noteq> []"
    and step_ok: "inv m \<Longrightarrow> mg_logic m = logic \<Longrightarrow> ok e \<Longrightarrow>
      \<exists>m1. filter_step le u m e (last (mg_result_keys m)) = Inr m1 \<and> mg_logic m1 = logic \<and> inv m1 \<and>
        acc m1 = acc m + (if keep e then {#e#} else {#})"
begin

lemma DoFilter_collects:
  assumes "inv m" "mg_logic m = logic" "\<forall>e \<in># mset (mg_pq m). ok e"
  shows "\<exists>m'. DoFilter le u m = Inr (0, m') \<and> mg_pq m' = [] \<and> inv m' \<and> acc m' = acc m + filter_mset keep (mset (mg_pq m))"
  using assms
proof (induction "length (mg_pq m)" arbitrary: m rule: less_induct)
  case less
  show ?case
  proof (cases "mg_pq m = []")
    case True
    then show ?thesis using less by (simp add: DoFilter.simps [of le u m])
  next
    case False
    let ?e = "hd (mg_pq m)"
    have "ok ?e" using less(4) False by simp
    from step_ok [OF less(2,3) this] obtain m1 where
      m1: "filter_step le u m ?e (last (mg_result_keys m)) = Inr m1" "mg_logic m1 = logic" "inv m1"
        "acc m1 = acc m + (if keep ?e then {#?e#} else {#})" by blast
    have pq1: "mg_pq m1 = mg_pq m" using filter_step_pq [OF m1(1)] .
    from mset_pq_pop [OF False, of "heap_less le u"] obtain pq where
      pq: "pq_pop (heap_less le u) (mg_pq m) = Inr pq" "mset (mg_pq m) = add_mset ?e (mset pq)" by blast
    have "DoFilter le u m = DoFilter le u (m1\<lparr>mg_pq := pq\<rparr>)"
      using False inv_back [OF less(2)] m1(1) pq1 pq(1) by (simp add: DoFilter.simps [of le u m] pq_top_def vec_back_def)
    moreover have "\<exists>m'. DoFilter le u (m1\<lparr>mg_pq := pq\<rparr>) = Inr (0, m') \<and> mg_pq m' = [] \<and> inv m' \<and>
        acc m' = acc (m1\<lparr>mg_pq := pq\<rparr>) + filter_mset keep (mset (mg_pq (m1\<lparr>mg_pq := pq\<rparr>)))"
      using length_pq_pop [OF pq(1)] m1(2,3) less(4) pq(2) by (intro less(1)) (simp_all add: inv_pq)
    ultimately show ?thesis using m1(4) pq(2) by (auto simp: acc_pq)
  qed
qed

end

text \<open>The user key by which the filters decide: of a key shorter than its trailer they see the empty string.\<close>

definition filter_user_key :: "kv_pair \<Rightarrow> byte list" where
  "filter_user_key e = take (length (fst e) - 8) (fst e)"

lemma parsed_user_key: "pik_user_key (parse_into le (fst e) (pik_default u)) = filter_user_key e"
  by (simp add: parse_into_eq filter_user_key_def ikey_parsed_def pik_default_def)

lemma result_ok_back:
  assumes "result_ok m"
  shows "vec_back (mg_result_keys m) = Inr (last (mg_result_keys m))" "vec_back (mg_result_values m) = Inr (last (mg_result_values m))"
    "vec_pop_back (mg_result_keys m) = Inr (butlast (mg_result_keys m))"
    "vec_pop_back (mg_result_values m) = Inr (butlast (mg_result_values m))"
    "mset (zip (mg_result_keys m) (mg_result_values m)) = add_mset (last (mg_result_keys m), last (mg_result_values m))
       (mset (zip (butlast (mg_result_keys m)) (butlast (mg_result_values m))))"
  using assms zip_back [of "mg_result_keys m" "mg_result_values m"]
  by (auto simp: result_ok_def vec_back_def vec_pop_back_def)

text \<open>
  What the redundancy filter keeps: the redundant keys \<open>rd\<close> as they are, and beyond the entries \<open>ab\<close> only such abandoned ones as
  have no user key.
\<close>

definition redundant_inv :: "kv_pair list \<Rightarrow> kv_pair multiset \<Rightarrow> Merger \<Rightarrow> bool" where
  "redundant_inv rd ab m \<longleftrightarrow> result_ok m \<and> mg_redundant_user_keys m = rd \<and>
     (\<exists>X. mset (mg_abandoned_values m) = ab + X \<and> (\<forall>e \<in># X. length (fst e) \<le> 8))"

definition kept :: "Merger \<Rightarrow> kv_pair multiset" where
  "kept m = mset (zip (mg_result_keys m) (mg_result_values m)) + mset (mg_abandoned_values m)"

lemma DropRedundantKeys_kept:
  assumes "redundant_inv rd ab m"
  shows "\<exists>m'. DropRedundantKeys le u m e (last (mg_result_keys m)) = Inr m' \<and> redundant_inv rd ab m' \<and> kept m' = add_mset e (kept m) \<and>
    mg_logic m' = mg_logic m"
proof -
  let ?l = "last (mg_result_keys m)"
  define pk where "pk = parse_into le ?l (parse_into le (fst e) (pik_default u))"
  have ok: "result_ok m" and len: "length (mg_result_keys m) = length (mg_result_values m)"
    using assms by (simp_all add: redundant_inv_def result_ok_def)
  obtain X where X: "mset (mg_abandoned_values m) = ab + X" "\<forall>e \<in># X. length (fst e) \<le> 8"
    using assms by (auto simp: redundant_inv_def)
  show ?thesis
  proof (cases "pik_user_key pk = pik_user_key (pik_default u)")
    case True
    let ?a = "(?l, last (mg_result_values m))"
    let ?m = "m\<lparr>mg_abandoned_values := mg_abandoned_values m @ [?a],
      mg_result_keys := butlast (mg_result_keys m) @ [fst e], mg_result_values := butlast (mg_result_values m) @ [snd e]\<rparr>"
    have "length ?l \<le> 8" using True by (auto simp: pk_def parse_into_eq ikey_parsed_def pik_default_def split: if_splits)
    then have "mset (mg_abandoned_values ?m) = ab + add_mset ?a X \<and> (\<forall>e \<in># add_mset ?a X. length (fst e) \<le> 8)" using X by simp
    then have "redundant_inv rd ab ?m" using assms len by (auto simp: redundant_inv_def result_ok_def)
    moreover have "DropRedundantKeys le u m e ?l = Inr ?m"
      using True result_ok_back [OF ok] by (simp add: DropRedundantKeys_def pk_def [symmetric] Let_def)
    moreover have "kept ?m = add_mset e (kept m)" using len result_ok_back(5) [OF ok] by (simp add: kept_def)
    ultimately show ?thesis by auto
  next
    case False
    then show ?thesis
      using assms len by (auto simp: DropRedundantKeys_def pk_def [symmetric] Let_def redundant_inv_def result_ok_def kept_def)
  qed
qed

interpretation redundant_filter: entry_filter le u kRemoveRedundant "redundant_inv rd ab" kept "\<lambda>_. True" "\<lambda>_. True" for le u rd ab
proof unfold_locales
  fix m :: Merger and e :: kv_pair
  assume "redundant_inv rd ab m" "mg_logic m = kRemoveRedundant"
  then show "\<exists>m1. filter_step le u m e (last (mg_result_keys m)) = Inr m1 \<and> mg_logic m1 = kRemoveRedundant \<and> redundant_inv rd ab m1 \<and>
      kept m1 = kept m + (if True then {#e#} else {#})"
    using DropRedundantKeys_kept [of rd ab m le u e] by (auto simp: filter_step_def)
qed (auto simp: redundant_inv_def result_ok_def kept_def)

text \<open>With user keys that are not empty, the redundancy filter finds no key redundant.\<close>

definition long_keys :: "kv_pair multiset \<Rightarrow> Merger \<Rightarrow> bool" where
  "long_keys ab m \<longleftrightarrow> result_ok m \<and> (\<forall>k \<in> set (mg_result_keys m). 8 < length k) \<and> mset (mg_abandoned_values m) = ab"

interpretation long_key_filter: entry_filter le u kRemoveRedundant "long_keys ab"
  "\<lambda>m. mset (zip (mg_result_keys m) (mg_result_values m))" "\<lambda>_. True" "\<lambda>e. 8 < length (fst e)" for le u ab
proof unfold_locales
  fix m :: Merger and e :: kv_pair
  let ?l = "last (mg_result_keys m)"
  assume m: "long_keys ab m" "mg_logic m = kRemoveRedundant" "8 < length (fst e)"
  then have "?l \<in> set (mg_result_keys m)" by (simp add: long_keys_def result_ok_def)
  with m(1) have l: "8 < length ?l" unfolding long_keys_def by blast
  then have "pik_user_key (parse_into le ?l x) \<noteq> []" for x by (auto simp: parse_into_eq ikey_parsed_def)
  then have "DropRedundantKeys le u m e ?l =
      Inr (m\<lparr>mg_result_keys := mg_result_keys m @ [fst e], mg_result_values := mg_result_values m @ [snd e]\<rparr>)"
    by (simp add: DropRedundantKeys_def Let_def pik_default_def)
  with m show "\<exists>m1. filter_step le u m e ?l = Inr m1 \<and> mg_logic m1 = kRemoveRedundant \<and> long_keys ab m1 \<and>
      mset (zip (mg_result_keys m1) (mg_result_values m1)) =
      mset (zip (mg_result_keys m) (mg_result_values m)) + (if True then {#e#} else {#})"
    by (simp add: filter_step_def long_keys_def result_ok_def)
qed (auto simp: result_ok_def long_keys_def)

interpretation prefix_filter: entry_filter le u kDeletePrefix
  "\<lambda>m. mg_result_keys m = rk \<and> mg_result_values m = rv \<and> rk \<noteq> [] \<and> fa_prefix (mg_bound m) = p"
  "\<lambda>m. mset (mg_abandoned_values m)" "\<lambda>e. prefix p (filter_user_key e)" "\<lambda>_. True" for le u rk rv p
  by unfold_locales (auto simp: filter_step_def DropWithPrefix_def Let_def parsed_user_key)

lemma PickUniqueVersion_held:
  assumes "result_ok m" "mg_redundant_user_keys m \<noteq> []"
  shows "\<exists>m'. PickUniqueVersion le u m e l = Inr m' \<and> result_ok m' \<and> mg_redundant_user_keys m' \<noteq> [] \<and>
    held m' = add_mset e (held m) \<and> mg_logic m' = mg_logic m"
proof -
  define pk where "pk = parse_into le l (parse_into le (fst e) (pik_default u))"
  have red: "mset (mg_redundant_user_keys m) = add_mset (last (mg_redundant_user_keys m)) (mset (butlast (mg_redundant_user_keys m)))"
    using assms(2) by (metis append_butlast_last_id mset_append mset.simps add_mset_add_single union_commute)
  have len: "length (mg_result_keys m) = length (mg_result_values m)" using assms(1) by (simp add: result_ok_def)
  show ?thesis
    using assms(2) len red result_ok_back [OF assms(1)]
    by (cases e) (auto simp: PickUniqueVersion_def pk_def [symmetric] Let_def vec_back_def vec_pop_back_def result_ok_def held_def)
qed

interpretation version_filter: entry_filter le u kDeleteVersion "\<lambda>m. result_ok m \<and> mg_redundant_user_keys m \<noteq> []" held
  "\<lambda>_. True" "\<lambda>_. True" for le u
proof unfold_locales
  fix m :: Merger and e :: kv_pair
  assume "result_ok m \<and> mg_redundant_user_keys m \<noteq> []" "mg_logic m = kDeleteVersion"
  then show "\<exists>m1. filter_step le u m e (last (mg_result_keys m)) = Inr m1 \<and> mg_logic m1 = kDeleteVersion \<and>
      (result_ok m1 \<and> mg_redundant_user_keys m1 \<noteq> []) \<and> held m1 = held m + (if True then {#e#} else {#})"
    using PickUniqueVersion_held [of m le u e "last (mg_result_keys m)"] by (auto simp: filter_step_def)
qed (auto simp: result_ok_def held_def)

lemma dec_value_zeros: "dec_value (replicate n 48 @ s) = dec_value s"
proof -
  have "foldl (\<lambda>v d. 10 * v + (unat d - 48)) 0 (replicate n (48 :: byte)) = (0 :: nat)"
    by (induction n) simp_all
  then show ?thesis by (simp add: dec_value_def)
qed

text \<open>The state of the name generator after \<open>n\<close> calls, and the name of the next file.\<close>

primrec after_names :: "nat \<Rightarrow> FileNameCreator \<Rightarrow> FileNameCreator" where
  "after_names 0 c = c"
| "after_names (Suc n) c = snd (NextFileName (after_names n c))"

lemma after_names_eq:
  "after_names n (FileNameCreator_ctor dir) = \<lparr>fnc_file_number = of_nat n, fnc_base_dir = dir\<rparr>"
  by (induction n) (simp_all add: FileNameCreator_ctor_def NextFileName_def add.commute)

section \<open>Properties\<close>

text \<open>
  the first 2 to the power 31 file names are pairwise different: a name determines the number
  of the call that made it.
\<close>

theorem file_names_distinct:
  assumes "i < 2 ^ 31" "j < 2 ^ 31"
  shows "fst (NextFileName (after_names i (FileNameCreator_ctor dir)))
      = fst (NextFileName (after_names j (FileNameCreator_ctor dir))) \<longleftrightarrow> i = j"
proof -
  have name: "fst (NextFileName (after_names n (FileNameCreator_ctor dir))) =
      dir @ bytes_of_string ''/'' @ setw8 (show_nat n) @ bytes_of_string ''.sst''" if "n < 2 ^ 31" for n
    using that sint_of_nat_u32 [OF that] 
    by (simp add: after_names_eq NextFileName_def show_int_def signed_of_nat signed_take_bit_int_eq_self)
  have "i = j" if "setw8 (show_nat i) = setw8 (show_nat j)"
    using arg_cong [OF that, of dec_value] by (simp add: setw8_def dec_value_zeros dec_value_show_nat)
  then show ?thesis using name [OF assms(1)] name [OF assms(2)] by auto
qed

theorem file_names_distinct_witness:
  "fst (NextFileName (after_names 3 (FileNameCreator_ctor [100])))
    \<noteq> fst (NextFileName (after_names 12 (FileNameCreator_ctor [100])))"
  using file_names_distinct [of 3 12 "[100]"] by simp

text \<open>
  C13: merging loses nothing and invents nothing: after \<open>Merger::MergeEntries\<close> over tables with
  valid slices, the queue holds exactly the entries of all input files together with what it held
  before, and the result vectors are empty.
\<close>

theorem merge_entries_conserves:
  assumes "\<forall>t \<in> set (mg_input_files m). table_ok t"
  shows "\<exists>m'. MergeEntries le u m = Inr (0, m') \<and>
    mset (mg_pq m') = mset (mg_pq m) + mset (concat (map table_entries (mg_input_files m))) \<and>
    mg_result_keys m' = [] \<and> mg_result_values m' = [] \<and> mg_input_files m' = mg_input_files m"
  using merge_by_min_heap_ok [OF assms, of "heap_less le u" "mg_pq m"]
  by (simp add: MergeEntries_def Let_def mset_push_all)

definition sample_merger :: Merger where
  "sample_merger =
     \<lparr>mg_input_files = [sample_table PlainTable], mg_result_keys = [], mg_result_values = [],
      mg_abandoned_values = [], mg_redundant_user_keys = [], mg_pq = [], mg_logic = kRemoveRedundant,
      mg_bound = \<lparr>fa_seq = 0, fa_prefix = []\<rparr>, mg_format = kPlain\<rparr>"

lemma sample_table_ok: "table_ok (sample_table k)"
  using sample_entries [of k] by (auto simp: table_ok_def gear_entries_def)

theorem merge_entries_conserves_witness:
  "\<exists>m'. MergeEntries True 0 sample_merger = Inr (0, m') \<and>
    mset (mg_pq m') = {#(replicate 16 1, replicate 10 3), (replicate 16 2, replicate 10 4)#}"
  using merge_entries_conserves [of sample_merger True 0] sample_table_ok
  by (auto simp: sample_merger_def table_entries_def sample_table_def)

text \<open>
  C23: the filter that the base class runs directly after merging cannot run: whenever a file has an
  entry, \<open>DoFilter\<close> calls \<open>back()\<close> on the vector that \<open>MergeEntries\<close> has just emptied.
\<close>

theorem filter_after_merge_faults:
  assumes "\<forall>t \<in> set (mg_input_files m). table_ok t"
    and "concat (map table_entries (mg_input_files m)) \<noteq> []"
  shows "Merger_DoCompaction Inr write_out le u m = Inl EmptyContainer"
proof -
  let ?pq = "foldl (pq_push (heap_less le u)) (mg_pq m) (concat (map table_entries (mg_input_files m)))"
  have "mset ?pq \<noteq> {#}" unfolding mset_push_all using assms(2) by simp
  then have "?pq \<noteq> []" by auto
  then show ?thesis
    using merge_by_min_heap_ok [OF assms(1), of "heap_less le u" "mg_pq m"]
    by (simp add: Merger_DoCompaction_def MergeEntries_def Let_def DoFilter.simps pq_top_def vec_back_def
        del: foldl_append)
qed

theorem filter_after_merge_faults_witness:
  "Merger_DoCompaction Inr Inr True 0 sample_merger = Inl EmptyContainer"
  using filter_after_merge_faults [of sample_merger Inr True 0] sample_table_ok
  by (simp add: sample_merger_def table_entries_def sample_table_def)

text \<open>
  C19: from a non-empty result, the redundancy filter terminates normally and empties the queue. The results and the
  abandoned entries then hold, together, what they held before and every entry of the queue, each once; the redundant keys are
  untouched, the result is not empty, and an entry is abandoned only when its key has no user key, that is, at most eight bytes.
\<close>

theorem filter_conserves_entries:
  assumes "result_ok m" "mg_logic m = kRemoveRedundant"
  shows "\<exists>m'. DoFilter le u m = Inr (0, m') \<and> mg_pq m' = [] \<and> result_ok m' \<and>
    mset (zip (mg_result_keys m') (mg_result_values m')) + mset (mg_abandoned_values m') =
      mset (zip (mg_result_keys m) (mg_result_values m)) + mset (mg_abandoned_values m) + mset (mg_pq m) \<and>
    mg_redundant_user_keys m' = mg_redundant_user_keys m \<and>
    (\<exists>X. mset (mg_abandoned_values m') = mset (mg_abandoned_values m) + X \<and> (\<forall>e \<in># X. length (fst e) \<le> 8))"
proof -
  have "redundant_inv (mg_redundant_user_keys m) (mset (mg_abandoned_values m)) m" using assms(1) by (simp add: redundant_inv_def)
  from redundant_filter.DoFilter_collects [OF this assms(2), of le u] show ?thesis by (auto simp: redundant_inv_def kept_def)
qed

theorem filter_conserves_entries_witness:
  "\<exists>m'. DoFilter True 0 (sample_merger\<lparr>mg_result_keys := [[1]], mg_result_values := [[2]],
      mg_pq := [([3], [4])]\<rparr>) = Inr (0, m') \<and>
    mset (zip (mg_result_keys m') (mg_result_values m')) + mset (mg_abandoned_values m') = {#([1], [2]), ([3], [4])#}"
  using filter_conserves_entries [of "sample_merger\<lparr>mg_result_keys := [[1]], mg_result_values := [[2]],
      mg_pq := [([3], [4])]\<rparr>" True 0]
  by (auto simp: result_ok_def sample_merger_def)

text \<open>
  C20: the redundancy filter does not remove redundant keys. It parses the last key into the wrong variable and compares with an
  empty user key; so whenever the user keys are not empty, every entry of the queue, duplicates of the last key
  included, goes to the results, and none is abandoned.
\<close>

theorem redundancy_filter_keeps_all:
  assumes "result_ok m" "mg_logic m = kRemoveRedundant"
    and "\<forall>k \<in> set (mg_result_keys m). 8 < length k" "\<forall>e \<in> set (mg_pq m). 8 < length (fst e)"
  shows "\<exists>m'. DoFilter le u m = Inr (0, m') \<and> mg_pq m' = [] \<and> mset (mg_abandoned_values m') = mset (mg_abandoned_values m) \<and>
    mset (zip (mg_result_keys m') (mg_result_values m')) =
      mset (zip (mg_result_keys m) (mg_result_values m)) + mset (mg_pq m)"
  using long_key_filter.DoFilter_collects [of "mset (mg_abandoned_values m)" m le u] assms
  by (auto simp: long_keys_def)

theorem redundancy_filter_keeps_all_witness:
  "\<exists>m'. DoFilter True 0 (sample_merger\<lparr>mg_result_keys := [replicate 9 1], mg_result_values := [[2]],
      mg_pq := [(replicate 9 1, [3])]\<rparr>) = Inr (0, m') \<and> mg_abandoned_values m' = [] \<and>
    mset (zip (mg_result_keys m') (mg_result_values m')) = {#(replicate 9 1, [2]), (replicate 9 1, [3])#}"
  using redundancy_filter_keeps_all [of "sample_merger\<lparr>mg_result_keys := [replicate 9 1], mg_result_values := [[2]],
      mg_pq := [(replicate 9 1, [3])]\<rparr>" True 0]
  by (auto simp: result_ok_def sample_merger_def)

text \<open>
  C21: the prefix filter keeps nothing. It abandons exactly the entries of the queue whose user key starts with the
  prefix; the others end neither in the results, which stay what they were, nor among the abandoned ones.
\<close>

theorem prefix_filter_keeps_nothing:
  assumes "mg_result_keys m \<noteq> []" "mg_logic m = kDeletePrefix"
  shows "\<exists>m'. DoFilter le u m = Inr (0, m') \<and> mg_pq m' = [] \<and>
    mg_result_keys m' = mg_result_keys m \<and> mg_result_values m' = mg_result_values m \<and>
    mset (mg_abandoned_values m') = mset (mg_abandoned_values m) +
      filter_mset (\<lambda>e. prefix (fa_prefix (mg_bound m)) (filter_user_key e)) (mset (mg_pq m))"
  using prefix_filter.DoFilter_collects [where rk = "mg_result_keys m" and rv = "mg_result_values m" and p = "fa_prefix (mg_bound m)", of m le u]
    assms by auto

theorem prefix_filter_keeps_nothing_witness:
  "\<exists>m'. DoFilter True 0 (sample_merger\<lparr>mg_logic := kDeletePrefix, mg_bound := \<lparr>fa_seq = 0, fa_prefix = [1]\<rparr>,
      mg_result_keys := [[9]], mg_result_values := [[9]], mg_pq := [(replicate 9 2, [3])]\<rparr>) = Inr (0, m') \<and>
    mg_result_keys m' = [[9]] \<and> mg_abandoned_values m' = []"
  using prefix_filter_keeps_nothing [of "sample_merger\<lparr>mg_logic := kDeletePrefix, mg_bound := \<lparr>fa_seq = 0, fa_prefix = [1]\<rparr>,
      mg_result_keys := [[9]], mg_result_values := [[9]], mg_pq := [(replicate 9 2, [3])]\<rparr>" True 0]
  by (auto simp: sample_merger_def filter_user_key_def)

text \<open>
  C22: the version filter needs a redundant key to start with. When there is one, it terminates normally and every entry of the
  queue ends in the results, among the abandoned or among the redundant ones; when there is none, as after
  construction, the first match of prefix and sequence number calls \<open>back()\<close> on the empty vector.
\<close>

theorem version_filter_conserves_or_faults:
  assumes "result_ok m" "mg_logic m = kDeleteVersion"
  shows "(mg_redundant_user_keys m \<noteq> [] \<longrightarrow>
      (\<exists>m'. DoFilter le u m = Inr (0, m') \<and> mg_pq m' = [] \<and> held m' = held m + mset (mg_pq m))) \<and>
    (let k = last (mg_result_keys m) in
     mg_redundant_user_keys m = [] \<and> mg_pq m \<noteq> [] \<and> 8 \<le> length k \<and> prefix (fa_prefix (mg_bound m)) (pik_user_key (ikey_parsed k)) \<and>
     pik_sequence (ikey_parsed k) \<le> fa_seq (mg_bound m) \<longrightarrow> DoFilter le u m = Inl EmptyContainer)"
proof -
  have "\<exists>m'. DoFilter le u m = Inr (0, m') \<and> mg_pq m' = [] \<and> held m' = held m + mset (mg_pq m)" if "mg_redundant_user_keys m \<noteq> []"
    using version_filter.DoFilter_collects [of m le u] assms that by auto
  moreover have "DoFilter le u m = Inl EmptyContainer"
    if "k = last (mg_result_keys m)" "mg_redundant_user_keys m = []" "mg_pq m \<noteq> []" "8 \<le> length k"
      "prefix (fa_prefix (mg_bound m)) (pik_user_key (ikey_parsed k))" "pik_sequence (ikey_parsed k) \<le> fa_seq (mg_bound m)" for k
    using that assms(2) result_ok_back(1) [OF assms(1)]
    by (simp add: DoFilter.simps [of le u m] pq_top_def filter_step_def PickUniqueVersion_def parse_into_eq Let_def)
      (simp add: vec_back_def)
  ultimately show ?thesis by (simp add: Let_def)
qed

theorem version_filter_conserves_or_faults_witness:
  "DoFilter True 0 (sample_merger\<lparr>mg_logic := kDeleteVersion, mg_result_keys := [replicate 9 0],
      mg_result_values := [[9]], mg_pq := [(replicate 9 2, [3])]\<rparr>) = Inl EmptyContainer"
proof -
  have "pik_sequence (ikey_parsed (replicate 9 0)) = 0" by code_simp
  then show ?thesis
    using version_filter_conserves_or_faults [of "sample_merger\<lparr>mg_logic := kDeleteVersion, mg_result_keys := [replicate 9 0],
      mg_result_values := [[9]], mg_pq := [(replicate 9 2, [3])]\<rparr>" True 0]
    by (simp add: sample_merger_def result_ok_def)
qed

text \<open>
  C27: the comparator of the heap computes the order of internal keys over bytewise user keys, but
  the queue reads its result as a truth value: it is true for every two different keys, in both
  directions, so it is not a strict weak order and the queue is not ordered by key.
\<close>

theorem heap_comparator_not_an_order:
  assumes "8 \<le> length (fst p1)" "8 \<le> length (fst p2)"
  shows "InternalKeyComparator_Compare le slice_order_comparator (fst p1) (fst p2)
      = Inr (heap_KeyComparor le u p1 p2) \<and>
    (heap_less le u p1 p2 \<longleftrightarrow> fst p1 \<noteq> fst p2) \<and>
    (heap_less le u p1 p2 \<longrightarrow> heap_less le u p2 p1)"
  using assms heap_less_iff [OF assms, of le u] heap_less_iff [OF assms(2,1), of le u]
  by (simp add: Compare_eq_parsed heap_KeyComparor_parsed)

theorem heap_comparator_not_an_order_witness:
  "heap_less True 0 (replicate 8 1, []) (replicate 8 2, []) \<and>
   heap_less True 0 (replicate 8 2, []) (replicate 8 1, [])"
  using heap_comparator_not_an_order [of "(replicate 8 1, [])" "(replicate 8 2, [])" True 0] by auto

text \<open>
  with an ordering that is one, the same queue would merge: pushing all entries and taking them
  off again sorts them, for the order of parsed internal keys that \<open>ParsedInternalKeyComparator\<close>
  defines (the queue hands out the largest first).
\<close>

theorem queue_sorts_with_an_order:
  "sorted_wrt (\<lambda>a b. \<not> ParsedInternalKeyComparator slice_order_comparator a b)
     (drain (ParsedInternalKeyComparator slice_order_comparator)
       (foldl (pq_push (ParsedInternalKeyComparator slice_order_comparator)) [] ks)) \<and>
   mset (drain (ParsedInternalKeyComparator slice_order_comparator)
       (foldl (pq_push (ParsedInternalKeyComparator slice_order_comparator)) [] ks)) = mset ks"
  using parsed_less.heap_sort [of ks] by (simp add: mset_drain mset_push_all)

text \<open>
  with \<open>heap_less\<close> the queue does not sort: four entries pushed in ascending order of their keys
  come off as the fourth, the first, the second and the third, neither ascending nor descending.
\<close>

theorem heap_less_does_not_sort:
  "map fst (drain (heap_less True 0) (foldl (pq_push (heap_less True 0)) []
     [(replicate 8 1, []), (replicate 8 2, []), (replicate 8 3, []), (replicate 8 4, [])]))
   = [replicate 8 4, replicate 8 1, replicate 8 2, replicate 8 3]"
  by code_simp

end
