(* ===== verification/StreamMerger.thy ===== *)
theory StreamMerger
  imports Mergers
begin

text \<open>
  \<open>include/stream_merger.cc\<close> (declared in \<open>include/merger.h\<close>): the baseline merger, which loads
  plain files of 26-byte entries, puts all entries into one queue and arbitrates while it drains it,
  and the stream merger that feeds windows of the files to an accelerator.

  Entries are slices into the loaded file contents, so they stay at pointer level. Time measurement
  and console output are left out. What the kernel returns to \<open>read\<close> is an argument, as in theory
  \<open>Tables\<close>. A loop that need not end is a partial function (\<open>None\<close>: it does not return) or takes
  fuel.
\<close>

section \<open>Plain files in memory\<close>

text \<open>A \<open>PlainTable\<close> object: its base part and its three own members.\<close>

record PlainFile =
  pf_table :: Table
  pf_readed_entries :: u32
  pf_file_content :: "byte list"
  pf_file_size :: u64

definition ENTRY_LENGTH :: nat where
  "ENTRY_LENGTH = KEY_CONTENT_LENGTH + KEY_SUFFIX_LENGTH + VALUE_LENGTH"

text \<open>The entry, the value returned and the advanced file. The products are of type \<open>int\<close>.\<close>

definition NextEntry :: "PlainFile \<Rightarrow> Slice \<times> u64 \<times> PlainFile" where
  "NextEntry f =
     (let entry = Slice_ptr (pf_file_content f @ [0])
                    (nat (sint (pf_readed_entries f * of_nat ENTRY_LENGTH))) ENTRY_LENGTH;
          f = f\<lparr>pf_readed_entries := pf_readed_entries f + 1\<rparr> in
      (entry, scast (pf_readed_entries f * of_nat ENTRY_LENGTH), f))"

section \<open>The comparators\<close>

definition full_key :: "Slice \<Rightarrow> byte list" where
  "full_key s = slice_bytes (Slice_ptr (sl_base s) (sl_data s) (KEY_CONTENT_LENGTH + KEY_SUFFIX_LENGTH))"

definition compare_keys :: "ParsedInternalKey \<Rightarrow> ParsedInternalKey \<Rightarrow> int" where
  "compare_keys p1_key p2_key =
     (let r = bytes_compare (pik_user_key p1_key) (pik_user_key p2_key) in
      if r = 0 then
        if pik_sequence p1_key > pik_sequence p2_key then -1
        else if pik_sequence p1_key < pik_sequence p2_key then 1
        else if pik_type p1_key > pik_type p2_key then -1
        else if pik_type p1_key < pik_type p2_key then 1
        else r
      else r)"

text \<open>In \<open>stream_merger_heap\<close> both keys are parsed from the first pair.\<close>

definition stream_KeyComparor :: "bool \<Rightarrow> ValueType \<Rightarrow> Slice \<times> int \<Rightarrow> Slice \<times> int \<Rightarrow> int" where
  "stream_KeyComparor le u p1 p2 =
     compare_keys (parse_into le (full_key (fst p1)) (pik_default u))
       (parse_into le (full_key (fst p1)) (pik_default u))"

definition slice_KeyComparor :: "bool \<Rightarrow> ValueType \<Rightarrow> Slice \<Rightarrow> Slice \<Rightarrow> int" where
  "slice_KeyComparor le u p1 p2 =
     compare_keys (parse_into le (full_key p1) (pik_default u))
       (parse_into le (full_key p2) (pik_default u))"

definition entry_less :: "bool \<Rightarrow> ValueType \<Rightarrow> Slice \<Rightarrow> Slice \<Rightarrow> bool" where
  "entry_less le u p1 p2 \<longleftrightarrow> slice_KeyComparor le u p1 p2 \<noteq> 0"

section \<open>Arbitration\<close>

datatype ArbitrationAction = kDeleteLast | kAcceptEntry | kDeleteCurrent

text \<open>
  What the slice \<open>result_buffer\<close> refers to: nothing yet, bytes that are alive, or the bytes of a
  local string that has been destroyed.
\<close>

datatype result_ref = Unset | Ref "byte list" | Dangling "byte list"

record BaselineMerger =
  bm_base :: Merger
  bm_input_plain_files :: "PlainFile option list" \<comment> \<open>\<open>None\<close>: a null pointer\<close>
  bm_abandoned_entries :: "byte list list"
  bm_last_entry :: "byte list"

text \<open>\<open>EncodeDeletedKey\<close> returns a slice of its local \<open>last_key\<close>.\<close>

definition EncodeDeletedKey :: "bool \<Rightarrow> ParsedInternalKey \<Rightarrow> byte list \<Rightarrow> result_ref res" where
  "EncodeDeletedKey le deleted_key last_entry =
     res_bind (InternalKey_ctor le (pik_user_key deleted_key) (pik_sequence deleted_key) kTypeDeletion) (\<lambda>k.
     res_bind (ik_Encode k) (\<lambda>last_key.
     res_bind (read_bytes (last_entry @ [0]) (KEY_CONTENT_LENGTH + KEY_SUFFIX_LENGTH) VALUE_LENGTH) (\<lambda>v.
     res_bind (read_bytes ((last_key @ v) @ [0]) 0 ENTRY_LENGTH) (\<lambda>bs.
       Inr (Dangling bs)))))"

definition delete_last ::
  "bool \<Rightarrow> BaselineMerger \<Rightarrow> ParsedInternalKey \<Rightarrow> (ArbitrationAction \<times> result_ref \<times> BaselineMerger) res" where
  "delete_last le bm last_key =
     (let bm = bm\<lparr>bm_abandoned_entries := bm_abandoned_entries bm @ [bm_last_entry bm]\<rparr> in
      res_bind (EncodeDeletedKey le last_key (bm_last_entry bm)) (\<lambda>r. Inr (kDeleteLast, r, bm)))"

definition Arbitration ::
  "bool \<Rightarrow> ValueType \<Rightarrow> BaselineMerger \<Rightarrow> Slice \<Rightarrow> result_ref \<Rightarrow>
   (ArbitrationAction \<times> result_ref \<times> BaselineMerger) res" where
  "Arbitration le u bm current_entry result_buffer =
     (if slice_empty current_entry \<or> bm_last_entry bm = [] then Inr (kAcceptEntry, result_buffer, bm)
      else
        res_bind (read_bytes (bm_last_entry bm @ [0]) 0 (KEY_CONTENT_LENGTH + KEY_SUFFIX_LENGTH)) (\<lambda>lk.
        res_bind (read_bytes (sl_base current_entry) (sl_data current_entry)
                    (KEY_CONTENT_LENGTH + KEY_SUFFIX_LENGTH)) (\<lambda>ck.
          let last_key = parse_into le lk (pik_default u);
              current = parse_into le ck (pik_default u);
              bound = mg_bound (bm_base bm) in
          case mg_logic (bm_base bm) of
            kRemoveRedundant \<Rightarrow>
              if pik_user_key last_key = pik_user_key current then delete_last le bm last_key
              else Inr (kAcceptEntry, Ref (bm_last_entry bm), bm)
          | kDeletePrefix \<Rightarrow>
              if prefix (fa_prefix bound) (pik_user_key last_key) then delete_last le bm last_key
              else Inr (kAcceptEntry, Ref (bm_last_entry bm), bm)
          | kDeleteVersion \<Rightarrow>
              if prefix (fa_prefix bound) (pik_user_key last_key) \<and>
                 pik_user_key last_key = pik_user_key current \<and>
                 pik_sequence last_key < fa_seq bound
              then delete_last le bm last_key
              else Inr (kAcceptEntry, Ref (bm_last_entry bm), bm))))"

section \<open>The baseline merger\<close>

definition LOAD_LENGTH :: nat where
  "LOAD_LENGTH = 512 * 1024 * 1024"

text \<open>\<open>io\<close> gives, per file, the content of the fresh buffer and what \<open>read\<close> returns.\<close>

fun load_files :: "(byte list \<times> int) list \<Rightarrow> PlainFile option list \<Rightarrow> PlainFile list res" where
  "load_files io [] = Inr []"
| "load_files io (None # fs) = Inl NullPointer"
| "load_files [] (Some f # fs) = Inl Uninitialised"
| "load_files ((junk, r) # io) (Some f # fs) =
     res_bind (ReadFromDisk (pf_table f) LOAD_LENGTH junk r) (\<lambda>(n, content, t).
     res_bind (load_files io fs) (\<lambda>fs.
       Inr (f\<lparr>pf_table := t, pf_file_content := content, pf_file_size := of_nat n\<rparr> # fs)))"

definition reverse_twice :: "PlainFile \<Rightarrow> PlainFile" where
  "reverse_twice f = f\<lparr>pf_file_content := rev (rev (pf_file_content f))\<rparr>"

text \<open>
  The loop over one file. The queue compares the entries through their slices; a slice that leaves
  the loaded content is an access out of bounds.
\<close>

partial_function (option) push_entries ::
  "(Slice \<Rightarrow> Slice \<Rightarrow> bool) \<Rightarrow> PlainFile \<Rightarrow> u64 \<Rightarrow> u64 \<Rightarrow> Slice list \<Rightarrow>
   (PlainFile \<times> u64 \<times> Slice list) res option" where
  "push_entries lt f readed_len added_entries merger =
     (if readed_len < pf_file_size f then
        (let r = NextEntry f; temp = fst r; len = fst (snd r); f' = snd (snd r) in
         if slice_wf temp
         then push_entries lt f' len (added_entries + 1) (pq_push lt merger temp)
         else Some (Inl OutOfBounds))
      else Some (Inr (f, added_entries, merger)))"

fun push_files ::
  "(Slice \<Rightarrow> Slice \<Rightarrow> bool) \<Rightarrow> PlainFile list \<Rightarrow> u64 \<Rightarrow> Slice list \<Rightarrow>
   (PlainFile list \<times> u64 \<times> Slice list) res option" where
  "push_files lt [] added merger = Some (Inr ([], added, merger))"
| "push_files lt (f # fs) added merger =
     (case push_entries lt f 0 added merger of
        None \<Rightarrow> None
      | Some (Inl e) \<Rightarrow> Some (Inl e)
      | Some (Inr (f', added, merger)) \<Rightarrow>
          (case push_files lt fs added merger of
             None \<Rightarrow> None
           | Some (Inl e) \<Rightarrow> Some (Inl e)
           | Some (Inr (fs', added, merger)) \<Rightarrow> Some (Inr (f' # fs', added, merger))))"

text \<open>
  The draining loop. \<open>Arbitration(currenct_entry.data(), result)\<close> converts the pointer to a slice
  up to the next zero byte.
\<close>

function arbitrate_all ::
  "bool \<Rightarrow> ValueType \<Rightarrow> BaselineMerger \<Rightarrow> result_ref \<Rightarrow> Slice list \<Rightarrow> (result_ref \<times> BaselineMerger) res" where
  "arbitrate_all le u bm result merger =
     (if merger = [] then Inr (result, bm)
      else res_bind (Slice_cstr (Some (sl_base (hd merger), sl_data (hd merger)))) (\<lambda>s.
           res_bind (Arbitration le u bm s result) (\<lambda>(action, result, bm).
             case pq_pop (entry_less le u) merger of
               Inl e \<Rightarrow> Inl e
             | Inr merger' \<Rightarrow> arbitrate_all le u bm result merger')))"
  by pat_completeness auto
termination
  by (relation "measure (\<lambda>(le, u, bm, result, merger). length merger)") (auto dest: length_pq_pop)

declare arbitrate_all.simps [simp del]

definition Baseline_MergeEntries ::
  "bool \<Rightarrow> ValueType \<Rightarrow> (byte list \<times> int) list \<Rightarrow> BaselineMerger \<Rightarrow> (u64 \<times> BaselineMerger) res option" where
  "Baseline_MergeEntries le u io bm =
     (case load_files io (bm_input_plain_files bm) of
        Inl e \<Rightarrow> Some (Inl e)
      | Inr fs \<Rightarrow>
          (case push_files (entry_less le u) (map reverse_twice fs) 0 [] of
             None \<Rightarrow> None
           | Some (Inl e) \<Rightarrow> Some (Inl e)
           | Some (Inr (fs, added, merger)) \<Rightarrow>
               Some (res_bind (arbitrate_all le u (bm\<lparr>bm_input_plain_files := map Some fs\<rparr>) Unset merger)
                 (\<lambda>(result, bm). Inr (0, bm)))))"

text \<open>\<open>dynamic_cast\<close> to \<open>PlainTable *\<close>: null for a table of another class.\<close>

definition as_plain :: "Table \<Rightarrow> PlainFile option" where
  "as_plain t =
     (if tb_kind t = PlainTable
      then Some \<lparr>pf_table = t, pf_readed_entries = 0, pf_file_content = [], pf_file_size = 0\<rparr>
      else None)"

definition Baseline_PrepareFiles :: "BaselineMerger \<Rightarrow> u64 \<times> BaselineMerger" where
  "Baseline_PrepareFiles bm =
     (0, bm\<lparr>bm_input_plain_files :=
            bm_input_plain_files bm @ map as_plain (mg_input_files (bm_base bm))\<rparr>)"

text \<open>\<open>DoCompaction\<close> has a result type and no \<open>return\<close> statement.\<close>

definition Baseline_DoCompaction ::
  "bool \<Rightarrow> ValueType \<Rightarrow> (byte list \<times> int) list \<Rightarrow> BaselineMerger \<Rightarrow> u64 res option" where
  "Baseline_DoCompaction le u io bm =
     (let bm = snd (Baseline_PrepareFiles bm) in
      map_option (\<lambda>r. res_bind r (\<lambda>_. Inl NoReturn)) (Baseline_MergeEntries le u io bm))"

definition BaselineMerger_ctor ::
  "(byte list \<Rightarrow> byte list option) \<Rightarrow> bool \<Rightarrow> FilterLogic \<Rightarrow> FilterArgs \<Rightarrow> byte list list \<Rightarrow> BaselineMerger res" where
  "BaselineMerger_ctor fs permitted l a input_files =
     res_bind (Merger_ctor fs permitted l a input_files kPlain) (\<lambda>m.
       Inr \<lparr>bm_base = m, bm_input_plain_files = [], bm_abandoned_entries = [], bm_last_entry = []\<rparr>)"

text \<open>\<open>w\<close> is what \<open>write\<close> returns; the result is converted to \<open>uint64_t\<close>.\<close>

definition AppendOutput :: "Table \<Rightarrow> byte list \<Rightarrow> int \<Rightarrow> (u64 \<times> Table) res" where
  "AppendOutput output_file result_block w =
     res_bind (WriteToDisk output_file result_block w) (\<lambda>(n, output_file). Inr (word_of_int n, output_file))"

definition Baseline_WriteOutResult :: u64 where
  "Baseline_WriteOutResult = 0"

section \<open>The interface of the FPGA\<close>

text \<open>The number of files, an \<open>int\<close>, is converted to the type of \<open>size()\<close> for the comparison.\<close>

definition SendToFPGA :: "u32 \<Rightarrow> byte list list \<Rightarrow> unit res" where
  "SendToFPGA SST_num sst_content = require ((of_nat (length sst_content) :: u64) = scast SST_num) (Inr ())"

section \<open>The stream merger\<close>

record FPGA_Stream_Merger =
  sm_base :: Merger
  sm_file_window_size :: u64 \<comment> \<open>the bits of an \<open>ssize_t\<close>\<close>
  sm_buffer :: "byte list"

text \<open>
  The constructor computes the window in its parameter, which hides the member of the same name:
  the member keeps what the memory held (\<open>junk_window\<close>). \<open>file_window_size / BLOCK_SIZE\<close> expands to
  \<open>file_window_size / 8 * 1024\<close>, a signed division and a signed product. The second component is the value the parameter ends with.
\<close>

definition FPGA_Stream_Merger_ctor :: "Merger \<Rightarrow> u64 \<Rightarrow> u64 \<Rightarrow> (FPGA_Stream_Merger \<times> u64) res" where
  "FPGA_Stream_Merger_ctor base junk_window file_window_size =
     (let w = sint file_window_size;
          q = (if w < 0 then - ((- w) div 8) else w div 8) * 1024 in
      if q < - (2 ^ 63) \<or> q \<ge> 2 ^ 63 then Inl IntOverflow
      else
        let block_num = word_of_int q :: u32;
            file_window_size = ucast (8 * 1024 * block_num) in
        Inr (\<lparr>sm_base = base, sm_file_window_size = junk_window, sm_buffer = []\<rparr>, file_window_size))"

fun read_windows ::
  "nat \<Rightarrow> (byte list \<times> int) list \<Rightarrow> Table list \<Rightarrow> byte list \<Rightarrow> (Table list \<times> byte list) res" where
  "read_windows w io [] buffer = Inr ([], buffer)"
| "read_windows w [] (f # fs) buffer = Inl Uninitialised"
| "read_windows w ((junk, r) # io) (f # fs) buffer =
     res_bind (ReadFromDisk f w junk r) (\<lambda>(n, read_buffer, f).
     res_bind (read_windows w io fs (buffer @ rev (rev read_buffer))) (\<lambda>(fs, buffer).
       Inr (f # fs, buffer)))"

text \<open>
  The loop of \<open>DoCompaction\<close> with fuel; \<open>io k\<close> is what the kernel returns in round \<open>k\<close>.
  \<open>TransportToFPGA\<close> and \<open>WaitForFPGA\<close> do nothing.
\<close>

fun FPGA_rounds ::
  "nat \<Rightarrow> (nat \<Rightarrow> (byte list \<times> int) list) \<Rightarrow> nat \<Rightarrow> u32 \<Rightarrow> FPGA_Stream_Merger \<Rightarrow> (FPGA_Stream_Merger res) option" where
  "FPGA_rounds 0 io k nbytes m = None"
| "FPGA_rounds (Suc fuel) io k nbytes m =
     (if nbytes \<noteq> 0 then
        (case read_windows (unat (sm_file_window_size m)) (io k) (mg_input_files (sm_base m)) [] of
           Inl e \<Rightarrow> Some (Inl e)
         | Inr (files, buffer) \<Rightarrow>
             FPGA_rounds fuel io (Suc k) (of_nat (length buffer))
               (m\<lparr>sm_base := (sm_base m)\<lparr>mg_input_files := files\<rparr>, sm_buffer := buffer\<rparr>))
      else Some (Inr m))"

definition FPGA_DoCompaction ::
  "nat \<Rightarrow> (nat \<Rightarrow> (byte list \<times> int) list) \<Rightarrow> FPGA_Stream_Merger \<Rightarrow> (FPGA_Stream_Merger res) option" where
  "FPGA_DoCompaction fuel io m = FPGA_rounds fuel io 0 (- 1) m"

definition FPGA_MergeEntries :: u64 where
  "FPGA_MergeEntries = - 1"

section \<open>Lemmas\<close>

text \<open>Blocks written completely at the end of the output file are appended to it.\<close>

lemma AppendOutput_ok:
  assumes "tb_offset t = length (tb_file t)"
  shows "AppendOutput t block (int (length block)) =
    Inr (scast (of_nat (length block) :: u32), t\<lparr>tb_file := tb_file t @ block, tb_offset := length (tb_file t @ block)\<rparr>)"
  using assms scast_eq [of "of_nat (length block) :: u32"] by (simp add: AppendOutput_def WriteToDisk_def Let_def)

lemma SendToFPGA_ok:
  assumes "length sst_content < 2 ^ 63"
  shows "SendToFPGA SST_num sst_content = Inr () \<longleftrightarrow> sint SST_num = int (length sst_content)"
proof -
  have "sint (of_nat (length sst_content) :: u64) = int (length sst_content)"
    using assms by (simp add: signed_of_nat signed_take_bit_int_eq_self)
  moreover have "sint (scast SST_num :: u64) = sint SST_num" by (intro sint_up_scast) (simp add: is_up)
  ultimately have "of_nat (length sst_content) = (scast SST_num :: u64) \<longleftrightarrow> sint SST_num = int (length sst_content)"
    by (subst word_eq_iff_signed [where ?'a = int]) auto
  then show ?thesis by (simp add: SendToFPGA_def require_def)
qed

lemma compare_keys_refl: "compare_keys k k = 0"
  by (simp add: compare_keys_def)

text \<open>The entries of a file of \<open>n\<close> bytes: a last partial entry counts as one.\<close>

definition entry_count :: "nat \<Rightarrow> nat" where
  "entry_count n = (n + 25) div 26"

definition entry_slice :: "byte list \<Rightarrow> nat \<Rightarrow> Slice" where
  "entry_slice content j = Slice_ptr (content @ [0]) (26 * j) 26"

lemma entry_count_less_iff: "26 * k < n \<longleftrightarrow> k < entry_count n"
  by (auto simp: entry_count_def)

lemma entry_position:
  assumes "26 * k < 2 ^ 31"
  shows "nat (sint (of_nat k * 26 :: u32)) = 26 * k"
    and "(scast (of_nat k * 26 :: u32) :: u64) = of_nat (26 * k)"
proof -
  have w: "(of_nat k * 26 :: u32) = of_nat (26 * k)" by (simp add: mult.commute)
  have s: "sint (of_nat (26 * k) :: u32) = int (26 * k)"
    using assms by (simp add: signed_of_nat signed_take_bit_int_eq_self del: of_nat_mult)
  show "nat (sint (of_nat k * 26 :: u32)) = 26 * k" unfolding w s by simp
  have "(scast (of_nat (26 * k) :: u32) :: u64) = of_int (sint (of_nat (26 * k) :: u32))"
    by (rule scast_eq)
  then show "(scast (of_nat k * 26 :: u32) :: u64) = of_nat (26 * k)" unfolding w s by simp
qed

lemma NextEntry_at:
  assumes "pf_readed_entries f = of_nat k" "26 * Suc k < 2 ^ 31"
  shows "NextEntry f = (entry_slice (pf_file_content f) k, of_nat (26 * Suc k),
    f\<lparr>pf_readed_entries := of_nat (Suc k)\<rparr>)"
proof -
  have e: "ENTRY_LENGTH = 26" by (simp add: ENTRY_LENGTH_def block_consts)
  have "26 * k < 2 ^ 31" using assms(2) by simp
  note pos = entry_position [OF this] entry_position [OF assms(2)]
  show ?thesis
    using pos assms(1) unfolding NextEntry_def Let_def e entry_slice_def
    by (simp add: add.commute)
qed

text \<open>One round of the loop over a file, and all rounds up to entry \<open>j\<close>.\<close>

lemma push_entries_step:
  assumes "pf_file_size f = of_nat n" "n < 2 ^ 31" "pf_readed_entries f = of_nat k" "k < entry_count n"
    and "26 * Suc k \<le> length (pf_file_content f)" "length (pf_file_content f) < 2 ^ 30"
  shows "push_entries lt f (of_nat (26 * k)) added merger =
    push_entries lt (f\<lparr>pf_readed_entries := of_nat (Suc k)\<rparr>) (of_nat (26 * Suc k)) (added + 1)
      (pq_push lt merger (entry_slice (pf_file_content f) k))"
proof -
  have "26 * k < n" using assms(4) entry_count_less_iff by blast
  then have less: "(of_nat (26 * k) :: u64) < of_nat n"
    using assms(2) by (simp add: word_less_nat_alt unat_of_nat take_bit_nat_eq_self_iff del: of_nat_mult)
  have "26 * Suc k < 2 ^ 31" by (rule le_less_trans [OF assms(5)]) (use assms(6) in simp)
  note ne = NextEntry_at [OF assms(3) this]
  have wf: "slice_wf (entry_slice (pf_file_content f) k)" using assms(5) by (simp add: entry_slice_def)
  show ?thesis using less assms(1) wf by (subst push_entries.simps) (simp add: ne Let_def del: of_nat_mult of_nat_Suc)
qed

lemma push_entries_upto:
  assumes "pf_file_size f = of_nat n" "n < 2 ^ 31" "pf_readed_entries f = of_nat k" "k \<le> j" "j \<le> entry_count n"
    and "26 * j \<le> length (pf_file_content f)" "length (pf_file_content f) < 2 ^ 30"
  shows "push_entries lt f (of_nat (26 * k)) added merger =
    push_entries lt (f\<lparr>pf_readed_entries := of_nat j\<rparr>) (of_nat (26 * j)) (added + of_nat (j - k))
      (foldl (pq_push lt) merger (map (entry_slice (pf_file_content f)) [k..<j]))"
  using assms
proof (induction "j - k" arbitrary: f k added merger)
  case 0
  then have "k = j" "f\<lparr>pf_readed_entries := of_nat j\<rparr> = f" by (auto intro: PlainFile.equality)
  then show ?case by simp
next
  case (Suc m)
  then have k: "k < j" by simp
  let ?f = "f\<lparr>pf_readed_entries := of_nat (Suc k)\<rparr>"
  have "push_entries lt f (of_nat (26 * k)) added merger =
      push_entries lt ?f (of_nat (26 * Suc k)) (added + 1) (pq_push lt merger (entry_slice (pf_file_content f) k))"
    using push_entries_step [OF Suc.prems(1-3), of lt added merger] Suc.prems(5-7) k by (simp del: of_nat_mult of_nat_Suc)
  also have "\<dots> = push_entries lt (f\<lparr>pf_readed_entries := of_nat j\<rparr>) (of_nat (26 * j)) (added + 1 + of_nat (j - Suc k))
      (foldl (pq_push lt) (pq_push lt merger (entry_slice (pf_file_content f) k)) (map (entry_slice (pf_file_content f)) [Suc k..<j]))"
    using Suc.hyps(1) [of "Suc k" ?f] Suc.hyps(2) Suc.prems k by simp
  also have "added + 1 + of_nat (j - Suc k) = added + of_nat (j - k)"
    by (metis (no_types, lifting) Suc_diff_Suc add.assoc k of_nat_Suc)
  finally show ?case using k by (simp add: upt_conv_Cons del: upt_Suc)
qed

text \<open>One file: every entry is pushed, in order, and the loop returns; or the last entry leaves the loaded content.\<close>

lemma push_entries_ok:
  assumes "pf_file_size f = of_nat n" "26 * entry_count n \<le> length (pf_file_content f)"
    and "length (pf_file_content f) < 2 ^ 30" "pf_readed_entries f = 0"
  shows "push_entries lt f 0 added merger = Some (Inr
    (f\<lparr>pf_readed_entries := of_nat (entry_count n)\<rparr>, added + of_nat (entry_count n),
     foldl (pq_push lt) merger (map (entry_slice (pf_file_content f)) [0..<entry_count n])))"
proof -
  have n: "n \<le> 26 * entry_count n" by (simp add: entry_count_def)
  then have lt: "n < 2 ^ 31" "26 * entry_count n < 2 ^ 31" using assms(2,3) by auto
  then have "\<not> (of_nat (26 * entry_count n) :: u64) < of_nat n"
    using n by (simp add: word_less_nat_alt unat_of_nat take_bit_nat_eq_self_iff del: of_nat_mult)
  then show ?thesis
    using push_entries_upto [of f n 0 "entry_count n" lt added merger] assms lt
      push_entries.simps [of lt "f\<lparr>pf_readed_entries := of_nat (entry_count n)\<rparr>" "of_nat (26 * entry_count n)"]
    by (simp del: of_nat_mult)
qed

lemma push_entries_overrun:
  assumes "pf_file_size f = of_nat n" "n \<le> LOAD_LENGTH" "LOAD_LENGTH < 26 * entry_count n"
    and "length (pf_file_content f) = LOAD_LENGTH" "pf_readed_entries f = 0"
  shows "push_entries lt f 0 added merger = Some (Inl OutOfBounds)"
proof -
  let ?j = "20648881"
  have load: "LOAD_LENGTH = 26 * ?j + 6" by (simp add: LOAD_LENGTH_def)
  have j: "?j < entry_count n" using assms(3) load by simp
  then have "26 * ?j < n" using entry_count_less_iff [of ?j n] by blast
  then have less: "(of_nat (26 * ?j) :: u64) < of_nat n"
    using assms(2) by (simp add: LOAD_LENGTH_def word_less_nat_alt unat_of_nat take_bit_nat_eq_self_iff)
  let ?f = "f\<lparr>pf_readed_entries := of_nat ?j\<rparr>"
  have "push_entries lt f 0 added merger = push_entries lt ?f (of_nat (26 * ?j)) (added + of_nat ?j)
      (foldl (pq_push lt) merger (map (entry_slice (pf_file_content f)) [0..<?j]))"
    using push_entries_upto [of f n 0 ?j lt added merger] assms(1,2,4,5) j load by (simp add: LOAD_LENGTH_def)
  also have "NextEntry ?f = (entry_slice (pf_file_content f) ?j, of_nat (26 * Suc ?j), ?f\<lparr>pf_readed_entries := of_nat (Suc ?j)\<rparr>)"
    using NextEntry_at [of ?f ?j] by simp
  then have "push_entries lt ?f (of_nat (26 * ?j)) (added + of_nat ?j)
      (foldl (pq_push lt) merger (map (entry_slice (pf_file_content f)) [0..<?j])) = Some (Inl OutOfBounds)"
    using less assms(1,4) load by (subst push_entries.simps) (simp add: entry_slice_def)
  finally show ?thesis .
qed

text \<open>
  What \<open>read\<close> may return for a regular file: an error, or as many bytes as there are and were asked for, at most.
  \<open>load_ok\<close>: no error, and so few bytes that the last entry still lies inside the loaded content.
\<close>

definition read_ok :: "byte list \<times> int \<Rightarrow> PlainFile \<Rightarrow> bool" where
  "read_ok jr f \<longleftrightarrow> length (fst jr) = LOAD_LENGTH \<and> pf_readed_entries f = 0 \<and> (snd jr = - 1 \<or> 0 \<le> snd jr \<and>
     nat (snd jr) \<le> LOAD_LENGTH \<and> nat (snd jr) \<le> length (tb_file (pf_table f)) - tb_offset (pf_table f))"

definition load_ok :: "byte list \<times> int \<Rightarrow> PlainFile \<Rightarrow> bool" where
  "load_ok jr f \<longleftrightarrow> read_ok jr f \<and> snd jr \<noteq> - 1 \<and> 26 * entry_count (nat (snd jr)) \<le> LOAD_LENGTH"

text \<open>The file as it is loaded, and what the entries of it are.\<close>

definition loaded :: "byte list \<times> int \<Rightarrow> PlainFile \<Rightarrow> byte list" where
  "loaded jr f = take (nat (snd jr)) (drop (tb_offset (pf_table f)) (tb_file (pf_table f))) @ drop (nat (snd jr)) (fst jr)"

definition loaded_entries :: "byte list \<times> int \<Rightarrow> PlainFile \<Rightarrow> byte list list" where
  "loaded_entries jr f = map (\<lambda>j. take 26 (drop (26 * j) (loaded jr f))) [0..<entry_count (nat (snd jr))]"

definition file_of :: "byte list \<times> int \<Rightarrow> PlainFile \<Rightarrow> PlainFile" where
  "file_of jr f = f\<lparr>pf_table := (pf_table f)\<lparr>tb_offset := tb_offset (pf_table f) + nat (snd jr)\<rparr>,
     pf_file_content := loaded jr f, pf_file_size := of_nat (nat (snd jr))\<rparr>"

lemma length_loaded: "read_ok jr f \<Longrightarrow> snd jr \<noteq> - 1 \<Longrightarrow> length (loaded jr f) = LOAD_LENGTH"
  by (simp add: read_ok_def loaded_def)

lemma load_files_read:
  "list_all2 read_ok io fs \<Longrightarrow>
   load_files io (map Some fs) = (if - 1 \<in> snd ` set io then Inl AssertFailed else Inr (map2 file_of io fs))"
proof (induction rule: list_all2_induct)
  case (Cons jr io f fs)
  obtain junk r where jr: "jr = (junk, r)" by (cases jr)
  have "length (take (nat r) (drop (tb_offset (pf_table f)) (tb_file (pf_table f)))) = nat r" "take LOAD_LENGTH junk = junk" if "r \<noteq> - 1"
    using Cons.hyps(1) that by (auto simp: read_ok_def jr)
  then show ?case using Cons.IH by (cases "r = - 1") (auto simp: jr ReadFromDisk_def Let_def file_of_def loaded_def)
qed simp

definition file_ok :: "nat \<Rightarrow> PlainFile \<Rightarrow> bool" where
  "file_ok n f \<longleftrightarrow> pf_file_size f = of_nat n \<and> length (pf_file_content f) = LOAD_LENGTH \<and>
     26 * entry_count n \<le> LOAD_LENGTH \<and> pf_readed_entries f = 0"

lemma file_of_ok:
  "list_all2 load_ok io fs \<Longrightarrow> list_all2 file_ok (map (\<lambda>jr. nat (snd jr)) io) (map2 file_of io fs)"
proof (induction rule: list_all2_induct)
  case (Cons jr io f fs)
  then have "read_ok jr f" "snd jr \<noteq> - 1" "26 * entry_count (nat (snd jr)) \<le> LOAD_LENGTH" by (simp_all add: load_ok_def)
  then have "file_ok (nat (snd jr)) (file_of jr f)"
    using length_loaded [of jr f] by (simp add: file_ok_def file_of_def) (simp add: read_ok_def)
  with Cons show ?case by simp
qed simp

lemma load_files_ok:
  assumes "list_all2 load_ok io fs"
  shows "load_files io (map Some fs) = Inr (map2 file_of io fs)"
proof -
  have "list_all2 read_ok io fs" using assms by (rule list_all2_mono) (simp add: load_ok_def)
  moreover have "- 1 \<notin> snd ` set io" using assms by (induction rule: list_all2_induct) (auto simp: load_ok_def)
  ultimately show ?thesis by (simp add: load_files_read)
qed

lemma reverse_twice_id [simp]: "reverse_twice = id"
  by (simp add: reverse_twice_def fun_eq_iff)

text \<open>A slice at which the conversion from a C string finds its zero byte.\<close>

definition cstr_ok :: "Slice \<Rightarrow> bool" where
  "cstr_ok s \<longleftrightarrow> (\<exists>r. Slice_cstr (Some (sl_base s, sl_data s)) = Inr r)"

lemma strlen_from_ok: "0 \<in> set xs \<Longrightarrow> \<exists>n. strlen_from xs = Inr n"
  by (induction xs) auto

lemma cstr_ok_entry: "26 * j \<le> length content \<Longrightarrow> cstr_ok (entry_slice content j)"
  using strlen_from_ok [of "drop (26 * j) (content @ [0])"]
  by (auto simp: cstr_ok_def Slice_cstr_def entry_slice_def Slice_ptr_def)

text \<open>The entries that the loop of \<open>MergeEntries\<close> pushes, file by file.\<close>

definition file_entries :: "nat \<Rightarrow> PlainFile \<Rightarrow> Slice list" where
  "file_entries n f = map (entry_slice (pf_file_content f)) [0..<entry_count n]"

lemma push_files_entries:
  "list_all2 file_ok ns fs \<Longrightarrow>
   \<exists>fs' merger'. push_files lt fs added merger = Some (Inr (fs', added + of_nat (sum_list (map entry_count ns)), merger')) \<and>
     map pf_readed_entries fs' = map (\<lambda>n. of_nat (entry_count n)) ns \<and>
     mset merger' = mset merger + mset (concat (map2 file_entries ns fs))"
proof (induction arbitrary: added merger rule: list_all2_induct)
  case (Cons n ns f fs)
  have ok: "pf_file_size f = of_nat n" "26 * entry_count n \<le> length (pf_file_content f)"
    "length (pf_file_content f) < 2 ^ 30" "pf_readed_entries f = 0"
    using Cons.hyps(1) by (auto simp: file_ok_def LOAD_LENGTH_def)
  let ?merger = "foldl (pq_push lt) merger (file_entries n f)"
  obtain fs' merger' where m': "push_files lt fs (added + of_nat (entry_count n)) ?merger =
      Some (Inr (fs', added + of_nat (entry_count n) + of_nat (sum_list (map entry_count ns)), merger'))"
    "map pf_readed_entries fs' = map (\<lambda>n. of_nat (entry_count n)) ns"
    "mset merger' = mset ?merger + mset (concat (map2 file_entries ns fs))"
    using Cons.IH by blast
  have "push_entries lt f 0 added merger = Some (Inr
      (f\<lparr>pf_readed_entries := of_nat (entry_count n)\<rparr>, added + of_nat (entry_count n), ?merger))"
    using push_entries_ok [OF ok, of lt added merger] by (simp add: file_entries_def)
  then show ?case using m' by (simp add: mset_push_all add.assoc)
qed simp

lemma push_files_overrun:
  assumes "list_all2 (\<lambda>n f. pf_file_size f = of_nat n \<and> n \<le> LOAD_LENGTH \<and> length (pf_file_content f) = LOAD_LENGTH \<and>
      pf_readed_entries f = 0) ns fs"
    and "\<exists>n \<in> set ns. LOAD_LENGTH < 26 * entry_count n"
  shows "push_files lt fs added merger = Some (Inl OutOfBounds)"
  using assms
proof (induction arbitrary: added merger rule: list_all2_induct)
  case (Cons n ns f fs)
  show ?case
  proof (cases "LOAD_LENGTH < 26 * entry_count n")
    case True
    then show ?thesis using push_entries_overrun [of f n lt added merger] Cons.hyps(1) by simp
  next
    case False
    then have "push_entries lt f 0 added merger = Some (Inr
        (f\<lparr>pf_readed_entries := of_nat (entry_count n)\<rparr>, added + of_nat (entry_count n),
         foldl (pq_push lt) merger (map (entry_slice (pf_file_content f)) [0..<entry_count n])))"
      using Cons.hyps(1) by (intro push_entries_ok) (simp_all add: LOAD_LENGTH_def)
    moreover have "\<exists>n \<in> set ns. LOAD_LENGTH < 26 * entry_count n" using Cons.prems False by auto
    ultimately show ?thesis using Cons.IH by simp
  qed
qed simp

lemma file_entries_cstr: "list_all2 file_ok ns fs \<Longrightarrow> s \<in> set (concat (map2 file_entries ns fs)) \<Longrightarrow> cstr_ok s"
proof (induction rule: list_all2_induct)
  case (Cons n ns f fs)
  then have "cstr_ok s" if "s \<in> set (file_entries n f)"
    using that by (auto simp: file_entries_def file_ok_def intro!: cstr_ok_entry)
  with Cons show ?case by auto
qed simp

lemma arbitrate_all_inert:
  "bm_last_entry bm = [] \<Longrightarrow> \<forall>s \<in> set merger. cstr_ok s \<Longrightarrow>
   arbitrate_all le u bm result merger = Inr (result, bm)"
proof (induction "length merger" arbitrary: merger rule: less_induct)
  case less
  show ?case
  proof (cases "merger = []")
    case True
    then show ?thesis by (simp add: arbitrate_all.simps)
  next
    case False
    then obtain s where s: "Slice_cstr (Some (sl_base (hd merger), sl_data (hd merger))) = Inr s"
      using bspec [OF less(3) hd_in_set [OF False]] by (auto simp: cstr_ok_def)
    from mset_pq_pop [OF False, of "entry_less le u"] obtain m where
      m: "pq_pop (entry_less le u) merger = Inr m" "mset merger = add_mset (hd merger) (mset m)" by blast
    have "set m \<subseteq> set merger" using arg_cong [OF m(2), of set_mset] by auto
    then have "arbitrate_all le u bm result m = Inr (result, bm)"
      using less(1) [of m] less(2,3) length_pq_pop [OF m(1)] by auto
    then show ?thesis
      using False s m(1) less(2) by (simp add: arbitrate_all.simps [of le u bm result merger] Arbitration_def)
  qed
qed

lemma read_windows_length:
  assumes "length io = length fs" "\<forall>jr \<in> set io. length (fst jr) = w \<and> 0 \<le> snd jr \<and> nat (snd jr) \<le> w"
  shows "\<exists>fs' buf'. read_windows w io fs buf = Inr (fs', buf') \<and> length fs' = length fs \<and>
    length buf' = length buf + w * length fs"
  using assms
proof (induction io fs arbitrary: buf rule: list_induct2)
  case (Cons jr io f fs)
  obtain junk r where jr: "jr = (junk, r)" by (cases jr)
  let ?bs = "take (nat r) (drop (tb_offset f) (tb_file f))"
  let ?rb = "?bs @ drop (length ?bs) (take w junk)"
  have r: "length junk = w" "0 \<le> r" "nat r \<le> w" using Cons.prems by (auto simp: jr)
  have lr: "length ?rb = w" using r by simp
  from Cons.IH [of "buf @ ?rb"] Cons.prems obtain fs' buf' where
    "read_windows w io fs (buf @ ?rb) = Inr (fs', buf')" "length fs' = length fs"
    "length buf' = length (buf @ ?rb) + w * length fs" by auto
  then show ?case using r lr by (simp add: jr ReadFromDisk_def Let_def)
qed simp

lemma FPGA_rounds_never:
  assumes "\<forall>k. length (io k) = n \<and> (\<forall>jr \<in> set (io k). length (fst jr) = w \<and> 0 \<le> snd jr \<and> nat (snd jr) \<le> w)"
    and "(of_nat (w * n) :: u32) \<noteq> 0"
  shows "unat (sm_file_window_size m) = w \<Longrightarrow> length (mg_input_files (sm_base m)) = n \<Longrightarrow> nb \<noteq> 0 \<Longrightarrow>
    FPGA_rounds fuel io k nb m = None"
proof (induction fuel arbitrary: k nb m)
  case (Suc fuel)
  from read_windows_length [of "io k" "mg_input_files (sm_base m)" w "[]"] assms(1) Suc.prems(2)
  obtain fs buf where rw: "read_windows w (io k) (mg_input_files (sm_base m)) [] = Inr (fs, buf)"
    "length fs = n" "length buf = w * n" by auto
  then show ?case using Suc assms(2) by simp
qed simp

text \<open>When the last entry is dropped.\<close>

definition drops_last :: "Merger \<Rightarrow> ParsedInternalKey \<Rightarrow> ParsedInternalKey \<Rightarrow> bool" where
  "drops_last m last_key current =
     (case mg_logic m of
        kRemoveRedundant \<Rightarrow> pik_user_key last_key = pik_user_key current
      | kDeletePrefix \<Rightarrow> prefix (fa_prefix (mg_bound m)) (pik_user_key last_key)
      | kDeleteVersion \<Rightarrow> prefix (fa_prefix (mg_bound m)) (pik_user_key last_key) \<and>
          pik_user_key last_key = pik_user_key current \<and> pik_sequence last_key < fa_seq (mg_bound m))"

lemma EncodeDeletedKey_ok:
  assumes "length last_entry = 26"
  shows "EncodeDeletedKey le (ikey_parsed (take 16 last_entry)) last_entry =
    Inr (Dangling (ikey_bytes (ikey_parsed (take 16 last_entry)\<lparr>pik_type := kTypeDeletion\<rparr>) @ drop 16 last_entry))"
proof -
  let ?k = "ikey_parsed (take 16 last_entry)\<lparr>pik_type := kTypeDeletion\<rparr>"
  have k: "?k = \<lparr>pik_user_key = pik_user_key ?k, pik_sequence = pik_sequence ?k, pik_type = kTypeDeletion\<rparr>"
    by simp
  have ok: "pik_ok ?k" by (simp add: pik_ok_def ikey_parsed_def)
  have "length (pik_user_key ?k) = 8" using assms by (simp add: ikey_parsed_def)
  then have len: "length (ikey_bytes ?k) = 16" by simp
  have ne: "ikey_bytes ?k \<noteq> []" using len by (metis list.size(3) zero_neq_numeral)
  have "InternalKey_ctor le (pik_user_key ?k) (pik_sequence ?k) kTypeDeletion = Inr \<lparr>ik_rep = ikey_bytes ?k\<rparr>"
    unfolding InternalKey_ctor_def k [symmetric] by (simp only: AppendInternalKey_ok [OF ok] res_bind_Inr append_Nil)
  then show ?thesis
    using assms len ne
    by (simp add: EncodeDeletedKey_def ik_Encode_def ENTRY_LENGTH_def block_consts)
qed

text \<open>The bytes of the queued slices are the entries of the loaded files.\<close>

lemma file_entries_loaded:
  assumes "list_all2 load_ok io fs"
  shows "map slice_bytes (concat (map2 file_entries (map (\<lambda>jr. nat (snd jr)) io) (map2 file_of io fs))) =
    concat (map2 loaded_entries io fs)"
  using assms
proof (induction rule: list_all2_induct)
  case (Cons jr io f fs)
  have "take 26 (drop (26 * j) (loaded jr f @ [0])) = take 26 (drop (26 * j) (loaded jr f))" if "j < entry_count (nat (snd jr))" for j
  proof -
    have "26 * j + 26 \<le> LOAD_LENGTH" "length (loaded jr f) = LOAD_LENGTH"
      using that Cons.hyps(1) length_loaded [of jr f] by (auto simp: load_ok_def)
    then show ?thesis by simp
  qed
  then have "map slice_bytes (file_entries (nat (snd jr)) (file_of jr f)) = loaded_entries jr f"
    by (simp add: file_entries_def entry_slice_def loaded_entries_def file_of_def)
  with Cons show ?case by simp
qed simp

text \<open>The whole of \<open>MergeEntries\<close>: with no last entry, arbitration changes nothing.\<close>

lemma Baseline_MergeEntries_ok:
  assumes "list_all2 load_ok io files" "bm_input_plain_files bm = map Some files" "bm_last_entry bm = []"
  shows "\<exists>files' queue. load_files io (bm_input_plain_files bm) = Inr (map2 file_of io files) \<and>
    push_files (entry_less le u) (map reverse_twice (map2 file_of io files)) 0 [] =
      Some (Inr (files', of_nat (length (concat (map2 loaded_entries io files))), queue)) \<and>
    mset (map slice_bytes queue) = mset (concat (map2 loaded_entries io files)) \<and>
    Baseline_MergeEntries le u io bm = Some (Inr (0, bm\<lparr>bm_input_plain_files := map Some files'\<rparr>))"
proof -
  let ?ns = "map (\<lambda>jr. nat (snd jr)) io" and ?fs = "map2 file_of io files"
  note ok = file_of_ok [OF assms(1)]
  from push_files_entries [OF ok, of "entry_less le u" 0 "[]"] obtain fs' queue where
    p: "push_files (entry_less le u) ?fs 0 [] = Some (Inr (fs', of_nat (sum_list (map entry_count ?ns)), queue))"
      "mset queue = mset (concat (map2 file_entries ?ns ?fs))" by auto
  have "\<forall>s \<in> set queue. cstr_ok s" using file_entries_cstr [OF ok] mset_eq_setD [OF p(2)] by blast
  then have "arbitrate_all le u (bm\<lparr>bm_input_plain_files := map Some fs'\<rparr>) Unset queue =
      Inr (Unset, bm\<lparr>bm_input_plain_files := map Some fs'\<rparr>)"
    using assms(3) by (intro arbitrate_all_inert) simp_all
  moreover have "mset (map slice_bytes queue) = mset (concat (map2 loaded_entries io files))"
    unfolding file_entries_loaded [OF assms(1), symmetric] mset_map p(2) ..
  moreover have "sum_list (map entry_count ?ns) = length (concat (map2 loaded_entries io files))"
    using assms(1) by (induction rule: list_all2_induct) (simp_all add: loaded_entries_def)
  ultimately show ?thesis
    using load_files_ok [OF assms(1)] p(1) assms(2) by (intro exI [of _ fs'] exI [of _ queue]) (simp add: Baseline_MergeEntries_def)
qed

lemma Baseline_MergeEntries_faults:
  assumes "list_all2 read_ok io files" "bm_input_plain_files bm = map Some files"
  shows "- 1 \<in> snd ` set io \<Longrightarrow> Baseline_MergeEntries le u io bm = Some (Inl AssertFailed)"
    and "- 1 \<notin> snd ` set io \<Longrightarrow> \<exists>jr \<in> set io. LOAD_LENGTH < 26 * entry_count (nat (snd jr)) \<Longrightarrow>
      Baseline_MergeEntries le u io bm = Some (Inl OutOfBounds)"
proof -
  note load = load_files_read [OF assms(1)]
  show "Baseline_MergeEntries le u io bm = Some (Inl AssertFailed)" if "- 1 \<in> snd ` set io"
    using that load assms(2) by (simp add: Baseline_MergeEntries_def)
  assume a: "- 1 \<notin> snd ` set io" "\<exists>jr \<in> set io. LOAD_LENGTH < 26 * entry_count (nat (snd jr))"
  have "list_all2 (\<lambda>n f. pf_file_size f = of_nat n \<and> n \<le> LOAD_LENGTH \<and> length (pf_file_content f) = LOAD_LENGTH \<and>
      pf_readed_entries f = 0) (map (\<lambda>jr. nat (snd jr)) io) (map2 file_of io files)"
    using assms(1) a(1)
  proof (induction rule: list_all2_induct)
    case (Cons jr io f fs)
    then show ?case using length_loaded [of jr f] by (auto simp: file_of_def read_ok_def)
  qed simp
  from push_files_overrun [OF this, of "entry_less le u" 0 "[]"] a show "Baseline_MergeEntries le u io bm = Some (Inl OutOfBounds)"
    using load assms(2) by (simp add: Baseline_MergeEntries_def)
qed

section \<open>Properties\<close>

text \<open>
  C7: the decision of \<open>Arbitration\<close>, on every branch. With a last entry of 26 bytes and a current
  entry of at least 16, it never faults. The last entry is dropped when the logic says so: the same
  user key for \<open>kRemoveRedundant\<close>; the bound prefix for \<open>kDeletePrefix\<close>; the bound prefix, the same
  user key and a sequence number below the bound for \<open>kDeleteVersion\<close>. Then it is recorded as
  abandoned and the result is its deletion marker: the same user key, sequence number and value
  with type \<open>kTypeDeletion\<close> (in a string that no longer exists). Otherwise the result is the last
  entry itself and nothing is recorded.
\<close>

theorem arbitration_decision:
  assumes "length (bm_last_entry bm) = 26" "slice_wf current_entry" "16 \<le> sl_size current_entry"
  defines "last_key \<equiv> ikey_parsed (take 16 (bm_last_entry bm))"
    and "current \<equiv> ikey_parsed (take 16 (slice_bytes current_entry))"
  shows "Arbitration le u bm current_entry result =
    Inr (if drops_last (bm_base bm) last_key current
         then (kDeleteLast,
               Dangling (ikey_bytes (last_key\<lparr>pik_type := kTypeDeletion\<rparr>) @ drop 16 (bm_last_entry bm)),
               bm\<lparr>bm_abandoned_entries := bm_abandoned_entries bm @ [bm_last_entry bm]\<rparr>)
         else (kAcceptEntry, Ref (bm_last_entry bm), bm))"
proof -
  have ne: "\<not> slice_empty current_entry" "bm_last_entry bm \<noteq> []"
    using assms(1,3) by (auto simp: slice_empty_def)
  have rd: "read_bytes (bm_last_entry bm @ [0]) 0 16 = Inr (take 16 (bm_last_entry bm))"
    "read_bytes (sl_base current_entry) (sl_data current_entry) 16 = Inr (take 16 (slice_bytes current_entry))"
    using assms(1-3) take_drop_slice [of 16 current_entry] by (simp_all add: slice_wf_def)
  have p: "parse_into le (take 16 (bm_last_entry bm)) (pik_default u) = last_key"
    "parse_into le (take 16 (slice_bytes current_entry)) (pik_default u) = current"
    using assms by (simp_all add: parse_into_eq)
  have del: "delete_last le bm last_key = Inr (kDeleteLast,
      Dangling (ikey_bytes (last_key\<lparr>pik_type := kTypeDeletion\<rparr>) @ drop 16 (bm_last_entry bm)),
      bm\<lparr>bm_abandoned_entries := bm_abandoned_entries bm @ [bm_last_entry bm]\<rparr>)"
    using EncodeDeletedKey_ok [OF assms(1), of le] by (simp add: delete_last_def last_key_def)
  show ?thesis
    using ne unfolding Arbitration_def drops_last_def
    by (auto simp: rd p del block_consts Let_def split: FilterLogic.splits)
qed

definition sample_baseline :: BaselineMerger where
  "sample_baseline =
     \<lparr>bm_base = sample_merger, bm_input_plain_files = [], bm_abandoned_entries = [],
      bm_last_entry = replicate 26 7\<rparr>"

theorem arbitration_decision_witness:
  "\<exists>r bm'. Arbitration True 0 sample_baseline (Slice_string (replicate 26 7)) Unset = Inr (kDeleteLast, r, bm')
    \<and> bm_abandoned_entries bm' = [replicate 26 7]"
proof -
  have "length (bm_last_entry sample_baseline) = 26" "slice_wf (Slice_string (replicate 26 7))"
    "16 \<le> sl_size (Slice_string (replicate 26 (7 :: byte)))"
    by (simp_all add: sample_baseline_def) (simp add: Slice_string_def)
  note dec = arbitration_decision [OF this, of True 0 Unset]
  have "drops_last (bm_base sample_baseline) (ikey_parsed (take 16 (bm_last_entry sample_baseline)))
      (ikey_parsed (take 16 (slice_bytes (Slice_string (replicate 26 7)))))"
    by (simp add: drops_last_def sample_baseline_def sample_merger_def)
  with dec show ?thesis by (simp add: sample_baseline_def)
qed

text \<open>
  C8: \<open>BaselineMerger::MergeEntries\<close> on loaded files, however the reads end. When a read fails, its assertion fails. When a read
  fills the buffer of 512 MiB so far that the last entry does not end in it (536870907 bytes or more), an entry
  is read outside of the buffer. In all other cases it returns: the queue has held exactly one slice for each 26 bytes of each file, a
  last partial entry included, with exactly these bytes; and nothing is filtered: \<open>last_entry\<close> is never assigned, so \<open>Arbitration\<close>
  accepts at once for every entry, whatever the filter logic, and the merger keeps its results and its abandoned entries.
\<close>

theorem baseline_merge_filters_nothing:
  assumes "list_all2 read_ok io files" "bm_input_plain_files bm = map Some files" "bm_last_entry bm = []"
  shows "if - 1 \<in> snd ` set io then Baseline_MergeEntries le u io bm = Some (Inl AssertFailed)
    else if \<exists>jr \<in> set io. LOAD_LENGTH < 26 * entry_count (nat (snd jr)) then Baseline_MergeEntries le u io bm = Some (Inl OutOfBounds)
    else \<exists>fs files' queue. load_files io (bm_input_plain_files bm) = Inr fs \<and>
      push_files (entry_less le u) (map reverse_twice fs) 0 [] =
        Some (Inr (files', of_nat (length (concat (map2 loaded_entries io files))), queue)) \<and>
      mset (map slice_bytes queue) = mset (concat (map2 loaded_entries io files)) \<and>
      Baseline_MergeEntries le u io bm = Some (Inr (0, bm\<lparr>bm_input_plain_files := map Some files'\<rparr>))"
proof -
  have "list_all2 load_ok io files" if "- 1 \<notin> snd ` set io" "\<not> (\<exists>jr \<in> set io. LOAD_LENGTH < 26 * entry_count (nat (snd jr)))"
    using assms(1) that by (induction rule: list_all2_induct) (auto simp: load_ok_def not_less)
  then show ?thesis
    using Baseline_MergeEntries_ok [OF _ assms(2,3), of io le u] Baseline_MergeEntries_faults [OF assms(1,2), of le u] by auto
qed

definition sample_file :: PlainFile where
  "sample_file = \<lparr>pf_table = (sample_table PlainTable)\<lparr>tb_file := replicate 26 5\<rparr>, pf_readed_entries = 0,
     pf_file_content = [], pf_file_size = 0\<rparr>"

theorem baseline_merge_filters_nothing_witness:
  "\<exists>fs files' queue. load_files [(replicate LOAD_LENGTH 0, 26)] [Some sample_file] = Inr fs \<and>
    push_files (entry_less True 0) (map reverse_twice fs) 0 [] = Some (Inr (files', 1, queue)) \<and>
    mset (map slice_bytes queue) = {#replicate 26 5#} \<and>
    Baseline_MergeEntries True 0 [(replicate LOAD_LENGTH 0, 26)]
      (sample_baseline\<lparr>bm_input_plain_files := [Some sample_file], bm_last_entry := []\<rparr>) =
    Some (Inr (0, sample_baseline\<lparr>bm_input_plain_files := map Some files', bm_last_entry := []\<rparr>))"
proof -
  have r: "list_all2 read_ok [(replicate LOAD_LENGTH 0, 26)] [sample_file]"
    by (simp add: read_ok_def sample_file_def sample_table_def LOAD_LENGTH_def)
  have e: "loaded_entries (replicate LOAD_LENGTH 0, 26) sample_file = [replicate 26 5]"
    by (simp add: loaded_entries_def loaded_def sample_file_def sample_table_def entry_count_def)
  have "\<not> LOAD_LENGTH < 26 * entry_count (nat 26)" by (simp add: entry_count_def LOAD_LENGTH_def)
  then show ?thesis
    using baseline_merge_filters_nothing [OF r,
        of "sample_baseline\<lparr>bm_input_plain_files := [Some sample_file], bm_last_entry := []\<rparr>" True 0]
    by (simp add: sample_baseline_def e)
qed

text \<open>
  C29: the loop of the stream merger does not end. \<open>ReadFromDisk\<close> always returns a full window, at
  the end of the files too, so the number of bytes sent in a round is the window times the number
  of files; unless that is 0 as an \<open>int\<close>, there is always another round. No amount of fuel suffices.
\<close>

theorem stream_merger_never_returns:
  assumes "\<forall>k. length (io k) = length (mg_input_files (sm_base m)) \<and>
      (\<forall>jr \<in> set (io k). length (fst jr) = unat (sm_file_window_size m) \<and> 0 \<le> snd jr \<and>
        nat (snd jr) \<le> unat (sm_file_window_size m))"
    and "(of_nat (unat (sm_file_window_size m) * length (mg_input_files (sm_base m))) :: u32) \<noteq> 0"
  shows "FPGA_DoCompaction fuel io m = None"
  using FPGA_rounds_never [OF assms refl refl, of "- 1" fuel 0] by (simp add: FPGA_DoCompaction_def)

theorem stream_merger_never_returns_witness:
  "FPGA_DoCompaction 1000 (\<lambda>k. [(replicate 8192 0, 0)])
     \<lparr>sm_base = sample_merger, sm_file_window_size = 8192, sm_buffer = []\<rparr> = None"
  by (rule stream_merger_never_returns) (simp_all add: sample_merger_def)

text \<open>
  the comparator of \<open>stream_merger_heap\<close> parses both keys from its first argument, so it finds
  every two entries equal; the comparator of \<open>slice_merge_heap\<close> compares the internal keys at the
  front of the two entries, but, read as a truth value, is true both ways for different keys.
\<close>

theorem stream_comparators:
  assumes "slice_wf a" "slice_wf b" "16 \<le> sl_size a" "16 \<le> sl_size b"
  shows "stream_KeyComparor le u (a, i) (b, j) = 0 \<and>
    InternalKeyComparator_Compare le slice_order_comparator (take 16 (slice_bytes a)) (take 16 (slice_bytes b))
      = Inr (slice_KeyComparor le u a b) \<and>
    (entry_less le u a b \<longleftrightarrow> take 16 (slice_bytes a) \<noteq> take 16 (slice_bytes b))"
proof -
  let ?a = "take 16 (slice_bytes a)" and ?b = "take 16 (slice_bytes b)"
  have k: "full_key a = ?a" "full_key b = ?b"
    using take_drop_slice [OF assms(3)] take_drop_slice [OF assms(4)]
    by (simp_all add: full_key_def block_consts)
  have same: "slice_KeyComparor le u a b = heap_KeyComparor le u (?a, []) (?b, [])"
    by (simp only: slice_KeyComparor_def heap_KeyComparor_def compare_keys_def k fst_conv Let_def)
  have l: "8 \<le> length (fst (?a, [] :: byte list))" "8 \<le> length (fst (?b, [] :: byte list))"
    using assms by simp_all
  show ?thesis
    using heap_less_iff [OF l, of le u] heap_KeyComparor_parsed [OF l, of le u] Compare_eq_parsed [of ?a ?b] l
    by (simp add: stream_KeyComparor_def compare_keys_refl entry_less_def heap_less_def same)
qed

theorem stream_comparators_witness:
  "stream_KeyComparor True 0 (Slice_string (replicate 16 1), 0) (Slice_string (replicate 16 2), 1) = 0 \<and>
   entry_less True 0 (Slice_string (replicate 16 1)) (Slice_string (replicate 16 2))"
  using stream_comparators [of "Slice_string (replicate 16 1)" "Slice_string (replicate 16 2)" True 0 0 1]
  by (simp add: Slice_string_def [of "replicate 16 _"] slice_wf_def slice_bytes_def)

end
