(* ===== verification/BenchTool.thy ===== *)
theory BenchTool
  imports KeyGenerators StreamMerger
begin

text \<open>
  \<open>tools/gear_bench_tool.cc\<close>: the benchmark program. It generates table files and runs a merger on them.

  The flags are arguments. The file system (\<open>fs\<close>, \<open>permitted\<close>), what \<open>write\<close> returns for a data pack
  (\<open>wr\<close>) and the random engine (\<open>gen\<close>) are arguments as in the theories \<open>Tables\<close> and \<open>Randoms\<close>. The
  worker threads are joined one by one, so that they run in sequence. A slice of a local object that
  has been destroyed is \<open>out_of_scope\<close>, so that every read through it faults. Clock readings, console output and the creation and removal of directories
  are left out.
\<close>

section \<open>Formats and tables\<close>

definition to_lower :: "byte \<Rightarrow> byte" where
  "to_lower c = (if 65 \<le> c \<and> c \<le> 90 then c + 32 else c)"

definition strcasecmp_eq :: "byte list \<Rightarrow> byte list \<Rightarrow> bool" where
  "strcasecmp_eq a b \<longleftrightarrow> map to_lower a = map to_lower b"

definition StringToRepFactory :: "byte list \<Rightarrow> TableFormat" where
  "StringToRepFactory ctype =
     (if strcasecmp_eq ctype (bytes_of_string ''gear'') then kGear
      else if strcasecmp_eq ctype (bytes_of_string ''block_based'') then kBlockBased
      else if strcasecmp_eq ctype (bytes_of_string ''plain'') then kPlain
      else if strcasecmp_eq ctype (bytes_of_string ''cuckoo'') then kCuckoo
      else kGear)"

definition CreateTablePtr ::
  "(byte list \<Rightarrow> byte list option) \<Rightarrow> bool \<Rightarrow> TableFormat \<Rightarrow> byte list \<Rightarrow> Table res" where
  "CreateTablePtr fs permitted format target_file_name =
     (case format of
        kGear \<Rightarrow> new_table fs permitted GearTable target_file_name False
      | kBlockBased \<Rightarrow> new_table fs permitted BlockBasedTable target_file_name False
      | kPlain \<Rightarrow> new_table fs permitted PlainTable target_file_name False
      | kCuckoo \<Rightarrow> new_table fs permitted CuckooTable target_file_name False)"

section \<open>Generating files\<close>

text \<open>A slice whose object has been destroyed.\<close>

definition out_of_scope :: "Slice \<Rightarrow> Slice" where
  "out_of_scope s = s\<lparr>sl_kind := Released\<rparr>"

text \<open>
  The loop over the entries of one file. The \<open>InternalKey\<close> is local to the body: when the body ends,
  the slice that was pushed dangles.
\<close>

function fill_file ::
  "bool \<Rightarrow> ('g \<Rightarrow> u64 \<times> 'g) \<Rightarrow> nat \<Rightarrow> nat \<Rightarrow> u64 \<Rightarrow> Table \<Rightarrow> KeyGenerator \<Rightarrow> 'g \<Rightarrow> u64 \<Rightarrow>
   (Table \<times> KeyGenerator \<times> 'g \<times> u64) res" where
  "fill_file le gen i entries_per_file rng t k g generated =
     (if i < entries_per_file then
        if generated \<ge> rng then Inr (t, k, g, generated)
        else
          res_bind (NextString le gen k g) (\<lambda>(s, k, g).
          res_bind (ik_Set le InternalKey_default s (kMaxSequenceNumber - 1) kTypeValue) (\<lambda>ikey.
          res_bind (ik_Encode ikey) (\<lambda>e.
            fill_file le gen (i + 1) entries_per_file rng
              (t\<lparr>tb_key_list := tb_key_list t @ [out_of_scope (Slice_string e)],
                 tb_value_list := tb_value_list t @ [Slice_string (bytes_of_string ''v1v2v3v4v5'')]\<rparr>)
              k g (generated + 1))))
      else Inr (t, k, g, generated))"
  by pat_completeness auto
termination
  by (relation "measure (\<lambda>(le, gen, i, entries_per_file, rng, t, k, g, generated). entries_per_file - i)") auto

declare fill_file.simps [simp del]

text \<open>One round of the outer loop: a file name, a table, its entries, and the file.\<close>

definition generate_one_file ::
  "bool \<Rightarrow> ('g \<Rightarrow> u64 \<times> 'g) \<Rightarrow> (byte list \<Rightarrow> byte list option) \<Rightarrow> bool \<Rightarrow> (byte list \<Rightarrow> int) \<Rightarrow> TableFormat \<Rightarrow> u64 \<Rightarrow> u64 \<Rightarrow>
   FileNameCreator \<Rightarrow> KeyGenerator \<Rightarrow> 'g \<Rightarrow> u64 \<Rightarrow> (byte list \<times> Table \<times> FileNameCreator \<times> KeyGenerator \<times> 'g \<times> u64) res" where
  "generate_one_file le gen fs permitted wr format entries_per_file rng names k g generated =
     (let (target_file_name, names) = NextFileName names in
      res_bind (CreateTablePtr fs permitted format target_file_name) (\<lambda>current_file.
      res_bind (fill_file le gen 0 (unat entries_per_file) rng current_file k g generated) (\<lambda>(current_file, k, g, generated).
      res_bind (ToDiskFormat le current_file []) (\<lambda>(n, disk_format).
      res_bind (WriteToDisk current_file disk_format (wr disk_format)) (\<lambda>(w, current_file).
        Inr (target_file_name, current_file, names, k, g, generated))))))"

partial_function (option) generate_loop ::
  "bool \<Rightarrow> ('g \<Rightarrow> u64 \<times> 'g) \<Rightarrow> (byte list \<Rightarrow> byte list option) \<Rightarrow> bool \<Rightarrow> (byte list \<Rightarrow> int) \<Rightarrow> TableFormat \<Rightarrow> u64 \<Rightarrow> u64 \<Rightarrow>
   FileNameCreator \<Rightarrow> KeyGenerator \<Rightarrow> 'g \<Rightarrow> u64 \<Rightarrow> (byte list \<times> Table) list \<Rightarrow>
   ((byte list \<times> Table) list \<times> FileNameCreator \<times> 'g) res option" where
  [code]: "generate_loop le gen fs permitted wr format entries_per_file rng names k g generated files =
     (case generate_one_file le gen fs permitted wr format entries_per_file rng names k g generated of
        Inl e \<Rightarrow> Some (Inl e)
      | Inr (fname, t, names, k, g, generated) \<Rightarrow>
          if generated \<ge> rng - 1 then Some (Inr (files @ [(fname, t)], names, g))
          else generate_loop le gen fs permitted wr format entries_per_file rng names k g generated (files @ [(fname, t)]))"

text \<open>
  The result is the files in the order they were created, which are also the names pushed to
  \<open>input_file_names\<close>. \<open>seed_engine\<close>, \<open>shuffle\<close> and \<open>junk\<close> are those of the key generator.
\<close>

definition generate_files ::
  "bool \<Rightarrow> ('g \<Rightarrow> u64 \<times> 'g) \<Rightarrow> (u32 \<Rightarrow> 'h) \<Rightarrow> ('h \<Rightarrow> u64 list \<Rightarrow> u64 list) \<Rightarrow> (nat \<Rightarrow> byte) \<Rightarrow>
   (byte list \<Rightarrow> byte list option) \<Rightarrow> bool \<Rightarrow> (byte list \<Rightarrow> int) \<Rightarrow> TableFormat \<Rightarrow> u64 \<Rightarrow> u64 \<Rightarrow>
   u64 \<Rightarrow> u64 \<Rightarrow> 'g \<Rightarrow> FileNameCreator \<Rightarrow> ((byte list \<times> Table) list \<times> FileNameCreator \<times> 'g) res option" where
  "generate_files le gen seed_engine shuffle junk fs permitted wr format entries_per_file seed start_key rng g names =
     (let (key_gen, g) = KeyGenerator_ctor gen seed_engine shuffle junk g BaseGenerator INCREMENTAL_RANDOM rng seed
            KEY_CONTENT_LENGTH start_key in
      generate_loop le gen fs permitted wr format entries_per_file rng names key_gen g 0 [])"

section \<open>The tasks\<close>

text \<open>
  \<open>start_posi\<close> starts as \<open>threads\<close> zeros; each round pushes \<open>range_step\<close> at the end and then reads element
  \<open>i\<close>.
\<close>

fun start_positions :: "nat \<Rightarrow> u64 \<Rightarrow> nat \<Rightarrow> u64 list \<Rightarrow> u64 list" where
  "start_positions 0 range_step i start_posi = []"
| "start_positions (Suc n) range_step i start_posi =
     (let start_posi = start_posi @ [range_step] in
      start_posi ! i # start_positions n range_step (i + 1) start_posi)"

definition task_starts :: "nat \<Rightarrow> u64 \<Rightarrow> u64 list" where
  "task_starts bench_threads range_step = start_positions bench_threads range_step 0 (replicate bench_threads 0)"

text \<open>The names the merge-only task uses; the counter of its loop is an \<open>int\<close>.\<close>

fun next_names :: "nat \<Rightarrow> FileNameCreator \<Rightarrow> byte list list" where
  "next_names 0 c = []"
| "next_names (Suc n) c = (let (s, c) = NextFileName c in s # next_names n c)"

definition merge_only_inputs :: "u64 \<Rightarrow> u64 \<Rightarrow> byte list \<Rightarrow> byte list list res" where
  "merge_only_inputs distinct_num entries_per_file db_path =
     (if entries_per_file = 0 then Inl DivisionByZero
      else if distinct_num div entries_per_file \<ge> 2 ^ 31 then Inl IntOverflow
      else Inr (next_names (unat (distinct_num div entries_per_file)) (FileNameCreator_ctor db_path)))"

text \<open>
  The last part of \<open>BaselineMergeTask\<close>, on the input files. \<open>FilterArgs()\<close> is zero and the empty prefix;
  \<open>l\<close> and \<open>a\<close> are what the memory of the merger holds before.
\<close>

definition BaselineMergeTask_merge ::
  "bool \<Rightarrow> ValueType \<Rightarrow> (byte list \<Rightarrow> byte list option) \<Rightarrow> bool \<Rightarrow> (byte list \<times> int) list \<Rightarrow>
   FilterLogic \<Rightarrow> FilterArgs \<Rightarrow> byte list list \<Rightarrow> u64 res option" where
  "BaselineMergeTask_merge le u fs permitted io l a input_files =
     (case BaselineMerger_ctor fs permitted l a input_files of
        Inl e \<Rightarrow> Some (Inl e)
      | Inr merger \<Rightarrow>
          let merger = merger\<lparr>bm_base := GenerateFilterArgs (bm_base merger) kRemoveRedundant \<lparr>fa_seq = 0, fa_prefix = []\<rparr>\<rparr> in
          Baseline_DoCompaction le u io merger)"

text \<open>
  The loop over the threads: each \<open>std::thread\<close> is joined before the next one starts, so that they share
  the engine and the file names in sequence. \<open>bench_threads\<close> is not negative.
\<close>

fun generate_all ::
  "bool \<Rightarrow> ('g \<Rightarrow> u64 \<times> 'g) \<Rightarrow> (u32 \<Rightarrow> 'h) \<Rightarrow> ('h \<Rightarrow> u64 list \<Rightarrow> u64 list) \<Rightarrow> (nat \<Rightarrow> byte) \<Rightarrow>
   (byte list \<Rightarrow> byte list option) \<Rightarrow> bool \<Rightarrow> (byte list \<Rightarrow> int) \<Rightarrow> TableFormat \<Rightarrow> u64 \<Rightarrow> u64 \<Rightarrow> u64 \<Rightarrow>
   u64 list \<Rightarrow> 'g \<Rightarrow> FileNameCreator \<Rightarrow> (byte list \<times> Table) list \<Rightarrow> (byte list \<times> Table) list res option" where
  "generate_all le gen seed_engine shuffle junk fs permitted wr format entries_per_file seed range_step [] g names files =
     Some (Inr files)"
| "generate_all le gen seed_engine shuffle junk fs permitted wr format entries_per_file seed range_step (start # starts) g names files =
     (case generate_files le gen seed_engine shuffle junk fs permitted wr format entries_per_file seed start range_step g names of
        None \<Rightarrow> None
      | Some (Inl e) \<Rightarrow> Some (Inl e)
      | Some (Inr (fs', names, g)) \<Rightarrow>
          generate_all le gen seed_engine shuffle junk fs permitted wr format entries_per_file seed range_step starts g names
            (files @ fs'))"

text \<open>\<open>g\<close> is the engine that \<open>rand(FLAGS_seed)\<close> holds.\<close>

definition FPGAMerger ::
  "bool \<Rightarrow> ('g \<Rightarrow> u64 \<times> 'g) \<Rightarrow> (u32 \<Rightarrow> 'h) \<Rightarrow> ('h \<Rightarrow> u64 list \<Rightarrow> u64 list) \<Rightarrow> (nat \<Rightarrow> byte) \<Rightarrow>
   (byte list \<Rightarrow> byte list option) \<Rightarrow> bool \<Rightarrow> (byte list \<Rightarrow> int) \<Rightarrow> byte list \<Rightarrow> u64 \<Rightarrow> u64 \<Rightarrow> u64 \<Rightarrow> nat \<Rightarrow> byte list \<Rightarrow>
   'g \<Rightarrow> (byte list \<times> Table) list res option" where
  "FPGAMerger le gen seed_engine shuffle junk fs permitted wr table_format entries_per_file seed distinct_num bench_threads db_path g =
     (if bench_threads = 0 then Some (Inl DivisionByZero)
      else
        let range_step = distinct_num div of_nat bench_threads in
        generate_all le gen seed_engine shuffle junk fs permitted wr (StringToRepFactory table_format) entries_per_file seed
          range_step (task_starts bench_threads range_step) g (FileNameCreator_ctor db_path) [])"

text \<open>\<open>merge_fs\<close> is the content of the files when the merger opens them.\<close>

definition BaselineMergeTask ::
  "bool \<Rightarrow> ('g \<Rightarrow> u64 \<times> 'g) \<Rightarrow> (u32 \<Rightarrow> 'h) \<Rightarrow> ('h \<Rightarrow> u64 list \<Rightarrow> u64 list) \<Rightarrow> (nat \<Rightarrow> byte) \<Rightarrow>
   (byte list \<Rightarrow> byte list option) \<Rightarrow> bool \<Rightarrow> (byte list \<Rightarrow> int) \<Rightarrow> u64 \<Rightarrow> u64 \<Rightarrow> u64 \<Rightarrow> nat \<Rightarrow> byte list \<Rightarrow> 'g \<Rightarrow>
   ValueType \<Rightarrow> (byte list \<Rightarrow> byte list option) \<Rightarrow> (byte list \<times> int) list \<Rightarrow> FilterLogic \<Rightarrow> FilterArgs \<Rightarrow> bool \<Rightarrow> u64 res option" where
  "BaselineMergeTask le gen seed_engine shuffle junk fs permitted wr entries_per_file seed distinct_num bench_threads db_path g
     u merge_fs io l a merge_only =
     (if bench_threads = 0 then Some (Inl DivisionByZero)
      else
        let range_step = distinct_num div of_nat bench_threads in
        if merge_only then
          case merge_only_inputs distinct_num entries_per_file db_path of
            Inl e \<Rightarrow> Some (Inl e)
          | Inr input_files \<Rightarrow> BaselineMergeTask_merge le u merge_fs permitted io l a input_files
        else
          case generate_all le gen seed_engine shuffle junk fs permitted wr kPlain entries_per_file seed range_step
                 (task_starts bench_threads range_step) g (FileNameCreator_ctor db_path) [] of
            None \<Rightarrow> None
          | Some (Inl e) \<Rightarrow> Some (Inl e)
          | Some (Inr files) \<Rightarrow> BaselineMergeTask_merge le u merge_fs permitted io l a (map fst files))"

section \<open>main\<close>

text \<open>\<open>getline\<close> up to a delimiter: no item after a final delimiter.\<close>

function split_getline :: "byte list \<Rightarrow> byte \<Rightarrow> byte list list" where
  "split_getline s delim =
     (if s = [] then []
      else takeWhile (\<lambda>c. c \<noteq> delim) s # split_getline (drop 1 (dropWhile (\<lambda>c. c \<noteq> delim) s)) delim)"
  by pat_completeness auto
termination
proof (relation "measure (\<lambda>(s, delim). length s)")
  fix s :: "byte list" and delim :: byte assume "s \<noteq> []"
  then have "length (drop 1 (dropWhile (\<lambda>c. c \<noteq> delim) s)) < length s"
    using length_dropWhile_le [of "\<lambda>c. c \<noteq> delim" s] by (simp only: length_drop length_greater_0_conv [symmetric])
  then show "((drop 1 (dropWhile (\<lambda>c. c \<noteq> delim) s), delim), s, delim) \<in> measure (\<lambda>(s, delim). length s)" by simp
qed simp

declare split_getline.simps [simp del]

datatype Task = RunFPGAMerger | RunBaselineMergeTask bool

definition main_tasks :: "byte list \<Rightarrow> Task list" where
  "main_tasks flag_benchmark =
     concat (map (\<lambda>b.
       if b = bytes_of_string ''gear'' then [RunFPGAMerger]
       else if b = bytes_of_string ''baseline_full'' then [RunBaselineMergeTask False]
       else if b = bytes_of_string ''baseline'' then [RunBaselineMergeTask True]
       else []) (split_getline flag_benchmark 44))"

section \<open>Lemmas\<close>

lemma NextString_incremental:
  assumes "prepared k" "kg_mode k = INCREMENTAL_RANDOM" "kg_key_size k = 8" "length (kg_key_mem k) = 8"
    "unat (kg_next k) < unat (kg_distinct_num k)"
  shows "\<exists>s k'. NextString le gen k g = Inr (s, k', g) \<and> length s = 8 \<and> prepared k' \<and>
    kg_mode k' = INCREMENTAL_RANDOM \<and> kg_key_size k' = 8 \<and> length (kg_key_mem k') = 8 \<and>
    kg_distinct_num k' = kg_distinct_num k \<and> unat (kg_next k') = Suc (unat (kg_next k))"
proof -
  let ?v = "kg_values k ! unat (kg_next k)" and ?k = "k\<lparr>kg_next := kg_next k + 1\<rparr>"
  have n: "dispatch_Next gen k g = Inr (?v, ?k, g)"
    using prepared_Next [OF assms(1), of gen g] assms(1,5) by (simp add: prepared_def)
  have nz: "kg_distinct_num k \<noteq> 0" using assms(5) by auto
  let ?b = "key_bytes (?v mod kg_distinct_num k) 8"
  have "kg_GenerateKeyFromInt le ?k ?v = Inr (?b, ?k\<lparr>kg_key_mem := ?b\<rparr>)"
    using GenerateKeyFromInt_ok [OF nz, of 8 "kg_key_mem k" le ?v] assms(3,4) by (simp add: kg_GenerateKeyFromInt_def)
  moreover have "unat (kg_next k + 1) = Suc (unat (kg_next k))"
    using assms(5) unsigned_less [of "kg_distinct_num k", where ?'a = nat] by (simp add: unat_word_ariths)
  moreover have "length ?b = 8" by (simp add: key_bytes_def)
  ultimately show ?thesis
    using n assms(1-3) by (simp add: NextString_def prepared_def)
qed

lemma ik_Set_bench:
  assumes "length s = 8"
  shows "\<exists>e. ik_Set le InternalKey_default s (kMaxSequenceNumber - 1) kTypeValue = Inr \<lparr>ik_rep = e\<rparr> \<and>
     ik_Encode \<lparr>ik_rep = e\<rparr> = Inr e \<and> length e = 16"
proof -
  let ?p = "\<lparr>pik_user_key = s, pik_sequence = kMaxSequenceNumber - 1, pik_type = kTypeValue\<rparr>"
  have "kMaxSequenceNumber - 1 \<le> kMaxSequenceNumber" by code_simp
  then have ok: "pik_ok ?p" by (simp add: pik_ok_def kTypeValue_ok)
  have len: "length (ikey_bytes ?p) = 16" using assms by simp
  then have "ikey_bytes ?p \<noteq> []" by (metis list.size(3) zero_neq_numeral)
  with len show ?thesis
    by (intro exI [of _ "ikey_bytes ?p"])
      (simp add: ik_Set_def ik_SetFrom_def InternalKey_default_def AppendInternalKey_ok [OF ok] ik_Encode_def)
qed

text \<open>The state of the key generator that \<open>generate_files\<close> uses, after \<open>generated\<close> draws.\<close>

definition bench_gen :: "u64 \<Rightarrow> KeyGenerator \<Rightarrow> u64 \<Rightarrow> bool" where
  "bench_gen rng k generated \<longleftrightarrow> prepared k \<and> kg_mode k = INCREMENTAL_RANDOM \<and> kg_key_size k = 8 \<and>
     length (kg_key_mem k) = 8 \<and> kg_distinct_num k = rng \<and> unat (kg_next k) = unat generated"

lemma fill_file_ok:
  assumes "bench_gen rng k generated" "generated \<le> rng" "n = min (epf - i) (unat rng - unat generated)"
  shows "\<exists>k' t' ks. fill_file le gen i epf rng t k g generated = Inr (t', k', g, generated + of_nat n) \<and>
    length ks = n \<and> (\<forall>s \<in> set ks. sl_kind s = Released) \<and>
    t' = t\<lparr>tb_key_list := tb_key_list t @ ks,
           tb_value_list := tb_value_list t @ replicate n (Slice_string (bytes_of_string ''v1v2v3v4v5''))\<rparr> \<and>
    bench_gen rng k' (generated + of_nat n)"
  using assms
proof (induction "epf - i" arbitrary: i t k generated n)
  case 0
  then show ?case by (subst fill_file.simps) simp
next
  case (Suc m)
  show ?case
  proof (cases "generated < rng")
    case False
    then have "generated = rng" using Suc.prems(2) by simp
    moreover have "i < epf" using Suc.hyps(2) by simp
    ultimately show ?thesis using Suc.prems by (subst fill_file.simps) simp
  next
    case True
    then have lt: "unat generated < unat rng" by (simp add: word_less_nat_alt)
    obtain s k1 where k1: "NextString le gen k g = Inr (s, k1, g)" "length s = 8" "bench_gen rng k1 (generated + 1)"
    proof -
      have u: "unat (generated + 1) = Suc (unat generated)"
        using lt unsigned_less [of rng, where ?'a = nat] by (simp add: unat_word_ariths)
      show ?thesis
        using NextString_incremental [of k le gen g] Suc.prems(1) lt u that by (auto simp: bench_gen_def)
    qed
    obtain e where e: "ik_Set le InternalKey_default s (kMaxSequenceNumber - 1) kTypeValue = Inr \<lparr>ik_rep = e\<rparr>"
      "ik_Encode \<lparr>ik_rep = e\<rparr> = Inr e" "length e = 16"
      using ik_Set_bench [OF k1(2)] by blast
    have u: "unat (generated + 1) = Suc (unat generated)"
      using lt unsigned_less [of rng, where ?'a = nat] by (simp add: unat_word_ariths)
    have le1: "generated + 1 \<le> rng" using lt u by (simp add: word_le_nat_alt)
    let ?n = "min (epf - (i + 1)) (unat rng - unat (generated + 1))"
    have n: "n = Suc ?n" using Suc.prems(3) Suc.hyps(2) lt u by linarith
    let ?s = "out_of_scope (Slice_string e)"
    let ?t = "t\<lparr>tb_key_list := tb_key_list t @ [?s],
                 tb_value_list := tb_value_list t @ [Slice_string (bytes_of_string ''v1v2v3v4v5'')]\<rparr>"
    have "m = epf - (i + 1)" "i < epf" using Suc.hyps(2) by simp_all
    note i = this(2)
    from Suc.hyps(1) [OF \<open>m = epf - (i + 1)\<close> k1(3) le1 refl, of ?t] obtain k' t' ks where
      f: "fill_file le gen (i + 1) epf rng ?t k1 g (generated + 1) = Inr (t', k', g, generated + 1 + of_nat ?n)"
        "length ks = ?n" "\<forall>s \<in> set ks. sl_kind s = Released" "bench_gen rng k' (generated + 1 + of_nat ?n)"
        "t' = ?t\<lparr>tb_key_list := tb_key_list ?t @ ks,
           tb_value_list := tb_value_list ?t @ replicate ?n (Slice_string (bytes_of_string ''v1v2v3v4v5''))\<rparr>"
      by blast
    then show ?thesis
      unfolding n using k1(1) e i True
      by (intro exI [of _ k'] exI [of _ t'] exI [of _ "?s # ks"], subst fill_file.simps)
        (simp add: add.assoc [symmetric] out_of_scope_def)
  qed
qed

lemma released_read: "sl_kind s = Released \<Longrightarrow> slice_read s = Inl UseAfterFree"
  by (simp add: slice_read_def through_def)

text \<open>The two formats that copy the keys fault on the first key.\<close>

lemma ToDiskFormat_released:
  assumes "length (tb_key_list t) = n" "\<forall>s \<in> set (tb_key_list t). sl_kind s = Released" "length (tb_value_list t) = n" "0 < n"
    "tb_kind t = GearTable \<or> tb_kind t = PlainTable"
  shows "ToDiskFormat le t buf = Inl UseAfterFree"
proof (cases "tb_kind t = PlainTable")
  case True
  have "slice_read (tb_key_list t ! 0) = Inl UseAfterFree" using assms(1,2,4) by (simp add: released_read)
  then show ?thesis
    using True assms by (simp add: ToDiskFormat_def PlainTable_ToDiskFormat_def Plain_ToDisk_loop.simps [of _ _ 0] vec_at_def)
next
  case False
  let ?e = "end_posi 0 n" and ?b = "Block_ctor 0"
  have e: "0 < ?e" "?e \<le> n" "?e \<le> MAX_ENTRY_IN_BLOCK" using assms(4) by (auto simp: end_posi_def MAX_ENTRY_IN_BLOCK_def)
  have "?e - Suc 0 < n" using e by linarith
  then have "slice_read (tb_key_list t ! (?e - Suc 0)) = Inl UseAfterFree" using assms(1,2) by (simp add: released_read)
  moreover have s: "nat (sint (of_nat ?e :: u32)) = ?e" using sint_of_nat_u32 [of ?e] e by (simp add: MAX_ENTRY_IN_BLOCK_def)
  moreover have "0 < sint (of_nat ?e :: u32)" using s e(1) by linarith
  ultimately have "GearBlock_AddBlock le ?b (take ?e (tb_key_list t)) (take ?e (tb_value_list t)) = Inl UseAfterFree"
    using e assms(1,3)
    by (simp add: MAX_ENTRY_IN_BLOCK_def Let_def GearBlock_AddBlock_def AddBlock_loop.simps [of _ _ _ 0] vec_at_def)
  then show ?thesis
    using assms False
    by (simp add: ToDiskFormat_def GearTable_ToDiskFormat_def Gear_ToDisk_loop.simps [of _ _ _ _ 0] Let_def)
qed

lemma ToDiskFormat_no_entries:
  "tb_key_list t = [] \<Longrightarrow> \<exists>n. ToDiskFormat le t [] = Inr (n, [])"
  by (cases "tb_kind t") (simp_all add: ToDiskFormat_def PlainTable_ToDiskFormat_def Plain_ToDisk_loop.simps
    GearTable_ToDiskFormat_def Gear_ToDisk_loop.simps)

lemma init_random_length [simp]: "length (fst (init_random gen num mn i vals g)) = length vals"
proof (induction gen num mn i vals g rule: init_random.induct)
  case (1 gen num mn i vals g)
  then show ?case by (subst init_random.simps) (simp split: prod.split)
qed

lemma bench_gen_ctor:
  "bench_gen rng (fst (KeyGenerator_ctor gen seed_engine shuffle junk g BaseGenerator INCREMENTAL_RANDOM rng seed
     KEY_CONTENT_LENGTH start)) 0"
  using init_random_length [of gen rng start "unat start" "replicate (unat rng) 0" g]
  by (cases "init_random gen rng start (unat start) (replicate (unat rng) 0) g")
    (simp add: bench_gen_def prepared_def KeyGenerator_ctor_def KEY_CONTENT_LENGTH_def AllocateKey_def)

definition format_kind :: "TableFormat \<Rightarrow> TableKind" where
  "format_kind f = (case f of kGear \<Rightarrow> GearTable | kBlockBased \<Rightarrow> BlockBasedTable | kPlain \<Rightarrow> PlainTable | kCuckoo \<Rightarrow> CuckooTable)"

lemma CreateTablePtr_ok:
  "\<exists>t. CreateTablePtr fs True f fname = Inr t \<and> tb_kind t = format_kind f \<and> tb_key_list t = [] \<and> tb_value_list t = []"
  by (cases f) (auto simp: CreateTablePtr_def new_table_def Table_ctor_def format_kind_def Let_def)

text \<open>One round, for a table that holds the next \<open>n\<close> entries.\<close>

lemma generate_one_file_step:
  assumes "bench_gen rng k generated" "generated \<le> rng" "n = min (unat epf) (unat rng - unat generated)"
  obtains t k' where "tb_kind t = format_kind f" "length (tb_key_list t) = n" "\<forall>s \<in> set (tb_key_list t). sl_kind s = Released"
    "length (tb_value_list t) = n"
    "bench_gen rng k' (generated + of_nat n)"
    "generate_one_file le gen fs True wr f epf rng names k g generated =
       res_bind (ToDiskFormat le t []) (\<lambda>(m, disk_format).
       res_bind (WriteToDisk t disk_format (wr disk_format)) (\<lambda>(w, t').
         Inr (fst (NextFileName names), t', snd (NextFileName names), k', g, generated + of_nat n)))"
proof -
  obtain t0 where t0: "CreateTablePtr fs True f (fst (NextFileName names)) = Inr t0" "tb_kind t0 = format_kind f"
    "tb_key_list t0 = []" "tb_value_list t0 = []"
    using CreateTablePtr_ok by blast
  obtain k' t ks where f: "fill_file le gen 0 (unat epf) rng t0 k g generated = Inr (t, k', g, generated + of_nat n)"
    "length ks = n" "\<forall>s \<in> set ks. sl_kind s = Released" "t = t0\<lparr>tb_key_list := tb_key_list t0 @ ks,
            tb_value_list := tb_value_list t0 @ replicate n (Slice_string (bytes_of_string ''v1v2v3v4v5''))\<rparr>"
    "bench_gen rng k' (generated + of_nat n)"
    using fill_file_ok [OF assms(1,2), of n "unat epf" 0 le gen t0 g] assms(3) by auto
  show thesis
    by (rule that [of t k']) (use t0 f in \<open>simp_all add: generate_one_file_def case_prod_beta Let_def\<close>)
qed

lemma WriteToDisk_ok:
  "w \<noteq> -1 \<Longrightarrow> \<exists>n t'. WriteToDisk t d w = Inr (n, t') \<and> tb_key_list t' = tb_key_list t"
  by (simp add: WriteToDisk_def Let_def)

lemma generate_files_eq:
  "\<exists>k g'. bench_gen rng k 0 \<and>
     generate_files le gen seed_engine shuffle junk fs permitted wr f epf seed start rng g names =
       generate_loop le gen fs permitted wr f epf rng names k g' 0 []"
  using bench_gen_ctor [of rng gen seed_engine shuffle junk g seed start]
  by (cases "KeyGenerator_ctor gen seed_engine shuffle junk g BaseGenerator INCREMENTAL_RANDOM rng seed KEY_CONTENT_LENGTH start")
    (auto simp: generate_files_def)

lemma generate_files_fault:
  assumes "0 < rng" "0 < epf" "f = kGear \<or> f = kPlain"
  shows "generate_files le gen seed_engine shuffle junk fs True wr f epf seed start rng g names = Some (Inl UseAfterFree)"
proof -
  obtain k g' where k: "bench_gen rng k 0"
    "generate_files le gen seed_engine shuffle junk fs True wr f epf seed start rng g names =
       generate_loop le gen fs True wr f epf rng names k g' 0 []"
    using generate_files_eq [of rng le gen seed_engine shuffle junk fs True wr f epf seed start g names] by blast
  let ?n = "min (unat epf) (unat rng)"
  have n: "0 < ?n" using assms by (simp add: word_less_nat_alt)
  obtain t k' where t: "tb_kind t = format_kind f" "length (tb_key_list t) = ?n" "\<forall>s \<in> set (tb_key_list t). sl_kind s = Released"
    "length (tb_value_list t) = ?n"
    "generate_one_file le gen fs True wr f epf rng names k g' 0 =
       res_bind (ToDiskFormat le t []) (\<lambda>(m, disk_format).
       res_bind (WriteToDisk t disk_format (wr disk_format)) (\<lambda>(w, t').
         Inr (fst (NextFileName names), t', snd (NextFileName names), k', g', 0 + of_nat ?n)))"
    by (rule generate_one_file_step [OF k(1), of ?n epf f le gen fs wr names g']) auto
  have "ToDiskFormat le t [] = Inl UseAfterFree"
    using ToDiskFormat_released [OF t(2-4) n] t(1) assms(3) by (auto simp: format_kind_def)
  then show ?thesis using k(2) t(5) by (simp add: generate_loop.simps)
qed

text \<open>A round for a range of zero, or for files of no entries, writes an empty file and changes nothing else.\<close>

lemma generate_one_file_empty:
  assumes "bench_gen rng k 0" "wr [] \<noteq> -1" "rng = 0 \<or> epf = 0"
  shows "\<exists>t k' names'. generate_one_file le gen fs True wr f epf rng names k g 0 =
    Inr (fst (NextFileName names), t, names', k', g, 0) \<and> bench_gen rng k' 0 \<and> tb_key_list t = []"
proof -
  obtain t k' where t: "tb_key_list t = []" "bench_gen rng k' 0"
    "generate_one_file le gen fs True wr f epf rng names k g 0 =
       res_bind (ToDiskFormat le t []) (\<lambda>(m, disk_format).
       res_bind (WriteToDisk t disk_format (wr disk_format)) (\<lambda>(w, t').
         Inr (fst (NextFileName names), t', snd (NextFileName names), k', g, 0)))"
    by (rule generate_one_file_step [OF assms(1), of 0 epf f le gen fs wr names g]) (use assms(3) in auto)
  obtain n where "ToDiskFormat le t [] = Inr (n, [])" using ToDiskFormat_no_entries [OF t(1)] by blast
  moreover obtain w t' where "WriteToDisk t [] (wr []) = Inr (w, t')" "tb_key_list t' = tb_key_list t"
    using WriteToDisk_ok [OF assms(2)] by blast
  ultimately show ?thesis using t by simp
qed

lemma generate_loop_no_range:
  assumes "generate_loop le gen fs permitted wr f epf rng names k g generated files = Some r"
  shows "\<not> ((rng = 0 \<or> epf = 0 \<and> rng \<noteq> 1) \<and> permitted \<and> wr [] \<noteq> -1 \<and> bench_gen rng k 0 \<and> generated = 0)"
proof (rule generate_loop.raw_induct [where P = "\<lambda>le gen fs permitted wr f epf rng names k g generated files r.
    \<not> ((rng = 0 \<or> epf = 0 \<and> rng \<noteq> 1) \<and> permitted \<and> wr [] \<noteq> -1 \<and> bench_gen rng k 0 \<and> generated = 0)", OF _ assms], rule notI)
  fix loop le gen fs permitted wr f epf rng names k g generated files r
  assume ih: "\<And>le gen fs permitted wr f epf rng names k g generated files r.
      loop le gen fs permitted wr f epf rng names k g generated files = Some r \<Longrightarrow>
      \<not> ((rng = 0 \<or> epf = 0 \<and> rng \<noteq> 1) \<and> permitted \<and> wr [] \<noteq> -1 \<and> bench_gen rng k 0 \<and> generated = 0)"
    and body: "(case generate_one_file le gen fs permitted wr f epf rng names k g generated of Inl e \<Rightarrow> Some (Inl e)
      | Inr (fname, t, names, k, g, generated) \<Rightarrow>
          if generated \<ge> rng - 1 then Some (Inr (files @ [(fname, t)], names, g))
          else loop le gen fs permitted wr f epf rng names k g generated (files @ [(fname, t)])) = Some r"
    and a: "(rng = 0 \<or> epf = 0 \<and> rng \<noteq> 1) \<and> permitted \<and> wr [] \<noteq> -1 \<and> bench_gen rng k 0 \<and> generated = 0"
  from a obtain t k' names' where "generate_one_file le gen fs True wr f epf rng names k g 0 =
    Inr (fst (NextFileName names), t, names', k', g, 0)" and k': "bench_gen rng k' 0"
    using generate_one_file_empty [of rng k wr epf le gen fs f names g] by blast
  moreover have "\<not> rng - 1 \<le> 0" using a by (auto simp: not_le word_gt_0)
  ultimately have "loop le gen fs permitted wr f epf rng names' k' g generated (files @ [(fst (NextFileName names), t)]) = Some r"
    using a body by simp
  from ih [OF this] a k' show False by simp
qed

text \<open>How many entries the loop generates for a range of \<open>r\<close> in files of \<open>e\<close> entries.\<close>

definition bench_total :: "nat \<Rightarrow> nat \<Rightarrow> nat" where
  "bench_total e r = (if 1 < r \<and> e dvd r - 1 then r - 1 else r)"

definition entries_in :: "(byte list \<times> Table) list \<Rightarrow> nat" where
  "entries_in files = sum_list (map (\<lambda>(fname, t). length (tb_key_list t)) files)"

lemma bench_total_stop:
  assumes "e dvd x" "x + 1 < r \<or> x = 0 \<and> 0 < r" "0 < e" "r - 1 \<le> x + min e (r - x)"
  shows "x + min e (r - x) = bench_total e r"
proof (cases "x + min e (r - x) = r")
  case True
  have "\<not> (1 < r \<and> e dvd r - 1)"
  proof
    assume d: "1 < r \<and> e dvd r - 1"
    then have "e dvd (r - 1) - x" using assms(1) by (blast intro: dvd_diff_nat)
    moreover have "0 < (r - 1) - x" "(r - 1) - x < e" using d assms(2) True by linarith+
    ultimately show False using dvd_imp_le by fastforce
  qed
  with True show ?thesis by (auto simp: bench_total_def)
next
  case False
  with assms have "x + e = r - 1" "1 < r" by linarith+
  moreover from this assms(1) have "e dvd r - 1" by (metis dvd_add dvd_refl)
  ultimately show ?thesis using False assms(2,4) by (simp add: bench_total_def)
qed

lemma generate_one_file_counts:
  assumes "bench_gen rng k generated" "generated \<le> rng" "f = kBlockBased \<or> f = kCuckoo" "wr [] \<noteq> -1"
    "n = min (unat epf) (unat rng - unat generated)"
  obtains t k' names' where "length (tb_key_list t) = n" "bench_gen rng k' (generated + of_nat n)"
    "generate_one_file le gen fs True wr f epf rng names k g generated =
       Inr (fst (NextFileName names), t, names', k', g, generated + of_nat n)"
proof -
  obtain t k' where t: "tb_kind t = format_kind f" "length (tb_key_list t) = n"
    "bench_gen rng k' (generated + of_nat n)"
    "generate_one_file le gen fs True wr f epf rng names k g generated =
       res_bind (ToDiskFormat le t []) (\<lambda>(m, disk_format).
       res_bind (WriteToDisk t disk_format (wr disk_format)) (\<lambda>(w, t').
         Inr (fst (NextFileName names), t', snd (NextFileName names), k', g, generated + of_nat n)))"
    by (rule generate_one_file_step [OF assms(1,2,5), of f le gen fs wr names g]) auto
  have "ToDiskFormat le t [] = Inr (0, [])" using t(1) assms(3) by (auto simp: ToDiskFormat_def format_kind_def)
  moreover obtain w t' where "WriteToDisk t [] (wr []) = Inr (w, t')" "tb_key_list t' = tb_key_list t"
    using WriteToDisk_ok [OF assms(4)] by blast
  ultimately show thesis using t by (intro that [of t' k' "snd (NextFileName names)"]) simp_all
qed

lemma generate_loop_counts:
  assumes "bench_gen rng k generated" "0 < unat epf" "unat epf dvd unat generated"
    "unat generated + 1 < unat rng \<or> unat generated = 0 \<and> 0 < unat rng" "f = kBlockBased \<or> f = kCuckoo" "wr [] \<noteq> -1"
  shows "\<exists>files' names'. generate_loop le gen fs True wr f epf rng names k g generated files =
    Some (Inr (files @ files', names', g)) \<and> entries_in files' + unat generated = bench_total (unat epf) (unat rng)"
  using assms
proof (induction "unat rng - unat generated" arbitrary: generated k names files rule: less_induct)
  case less
  let ?n = "min (unat epf) (unat rng - unat generated)"
  let ?g = "generated + of_nat ?n"
  have le: "generated \<le> rng" using less.prems(4) by (auto simp: word_le_nat_alt)
  have u: "unat ?g = unat generated + ?n"
  proof -
    have "unat generated + ?n < 2 ^ 64" using unsigned_less [of rng, where ?'a = nat] less.prems(4) by simp linarith
    then show ?thesis by (simp add: unat_word_ariths unat_of_nat)
  qed
  obtain t k' names' where t: "length (tb_key_list t) = ?n" "bench_gen rng k' ?g"
    "generate_one_file le gen fs True wr f epf rng names k g generated =
       Inr (fst (NextFileName names), t, names', k', g, ?g)"
    using generate_one_file_counts [where wr = wr, OF less.prems(1) le less.prems(5,6) refl, of epf le gen fs names g] by metis
  have r1: "unat (rng - 1) = unat rng - 1" using less.prems(4) by (intro unat_minus_one) auto
  show ?case
  proof (cases "rng - 1 \<le> ?g")
    case True
    then have "unat rng - 1 \<le> unat generated + ?n" using r1 u by (simp add: word_le_nat_alt)
    from bench_total_stop [OF less.prems(3,4,2) this] True t show ?thesis
      by (subst generate_loop.simps) (simp add: entries_in_def)
  next
    case False
    then have lt: "unat ?g + 1 < unat rng" using r1 u by (simp add: word_le_nat_alt)
    then have n: "?n = unat epf" using u by linarith
    have "unat rng - unat ?g < unat rng - unat generated" using lt u n less.prems(2) by linarith
    moreover have "unat epf dvd unat ?g" using u n less.prems(3) by simp
    ultimately obtain files' names'' where
      f: "generate_loop le gen fs True wr f epf rng names' k' g ?g (files @ [(fst (NextFileName names), t)]) =
          Some (Inr ((files @ [(fst (NextFileName names), t)]) @ files', names'', g))"
        "entries_in files' + unat ?g = bench_total (unat epf) (unat rng)"
      using less.hyps [OF _ t(2) less.prems(2) _ _ less.prems(5,6)] lt by blast
    have "generate_loop le gen fs True wr f epf rng names k g generated files =
        Some (Inr (files @ (fst (NextFileName names), t) # files', names'', g))"
      using f(1) t(3) False by (subst generate_loop.simps) simp
    moreover have "entries_in ((fst (NextFileName names), t) # files') + unat generated = bench_total (unat epf) (unat rng)"
      using f(2) u t(1) by (simp add: entries_in_def)
    ultimately show ?thesis by blast
  qed
qed

text \<open>
  The positions are pushed behind the zeros of the vector, so that thread \<open>i\<close> starts at 0 and not at
  \<open>i * range_step\<close>.
\<close>

lemma task_starts_zero: "task_starts n s = replicate n 0"
proof -
  have "start_positions m s i (replicate n 0 @ replicate i s) = replicate m 0" if "i + m \<le> n" for m i
    using that
  proof (induction m arbitrary: i)
    case (Suc m)
    then show ?case using Suc.IH [of "i + 1"] by (simp add: nth_append replicate_append_same [symmetric] Let_def)
  qed simp
  from this [of 0 n] show ?thesis by (simp add: task_starts_def)
qed

fun join :: "byte \<Rightarrow> byte list list \<Rightarrow> byte list" where
  "join d [] = []"
| "join d [w] = w"
| "join d (w # ws) = w @ d # join d ws"

lemma split_join:
  assumes "\<forall>w \<in> set ws. d \<notin> set w" "ws \<noteq> [] \<longrightarrow> last ws \<noteq> []"
  shows "split_getline (join d ws) d = ws"
  using assms
proof (induction d ws rule: join.induct)
  case (2 d w)
  then have "takeWhile (\<lambda>c. c \<noteq> d) w = w" "dropWhile (\<lambda>c. c \<noteq> d) w = []" by (auto simp: takeWhile_eq_all_conv)
  then show ?case using 2 by (simp add: split_getline.simps [of w] split_getline.simps [of "[]"] del: dropWhile_eq_Nil_conv)
next
  case (3 d w v ws)
  have "takeWhile (\<lambda>c. c \<noteq> d) (w @ d # join d (v # ws)) = w" "dropWhile (\<lambda>c. c \<noteq> d) (w @ d # join d (v # ws)) = d # join d (v # ws)"
    using 3(2) by (auto simp: takeWhile_append dropWhile_append)
  then show ?case using 3 by (simp add: split_getline.simps [of "w @ d # join d (v # ws)"])
qed (simp add: split_getline.simps)

lemma two_of_four: "(4 :: u64) div of_nat 2 = 2"
  by code_simp

section \<open>Properties\<close>

text \<open>
  C24: \<open>generate_files\<close> cannot write a key in the two formats that store keys. Each \<open>InternalKey\<close> is local to
  the loop body and only a slice of it is kept, so that for a gear or plain table, a positive range and
  a positive number of entries per file, \<open>ToDiskFormat\<close> reads released memory, whatever the random engine and the file
  system do. With at least one thread and one key per thread, \<open>FPGAMerger\<close> (unless \<open>table_format\<close> names one of the two
  formats that store nothing) and \<open>BaselineMergeTask(false)\<close> therefore end in that fault.
\<close>

theorem generated_keys_dangle:
  assumes "0 < epf" "0 < threads" "rng = distinct_num div of_nat threads" "0 < rng"
  shows "(f = kGear \<or> f = kPlain \<longrightarrow>
      generate_files le gen seed_engine shuffle junk fs True wr f epf seed start rng g names = Some (Inl UseAfterFree)) \<and>
    (\<not> strcasecmp_eq table_format (bytes_of_string ''block_based'') \<and>
     \<not> strcasecmp_eq table_format (bytes_of_string ''cuckoo'') \<longrightarrow>
      FPGAMerger le gen seed_engine shuffle junk fs True wr table_format epf seed distinct_num threads db_path g =
        Some (Inl UseAfterFree)) \<and>
    BaselineMergeTask le gen seed_engine shuffle junk fs True wr epf seed distinct_num threads db_path g
      u merge_fs io l a False = Some (Inl UseAfterFree)"
proof -
  have f: "generate_files le gen seed_engine shuffle junk fs True wr f epf seed start rng g names = Some (Inl UseAfterFree)"
    if "f = kGear \<or> f = kPlain" for f start names
    using generate_files_fault [OF assms(4,1) that] .
  have "generate_all le gen seed_engine shuffle junk fs True wr f epf seed rng (task_starts threads rng) g names [] =
      Some (Inl UseAfterFree)" if "f = kGear \<or> f = kPlain" for f names
    using assms(2) f [OF that] by (cases threads) (simp_all add: task_starts_zero)
  then show ?thesis
    using f assms(2) by (simp add: FPGAMerger_def BaselineMergeTask_def Let_def StringToRepFactory_def assms(3) [symmetric])
qed

theorem generated_keys_dangle_witness:
  "BaselineMergeTask True (\<lambda>n. (n, n + 1)) (\<lambda>s. ()) (\<lambda>h xs. xs) (\<lambda>i. 0) (\<lambda>f. None) True (\<lambda>d. int (length d)) 1 0 4 2 [47] 5
     kTypeValue (\<lambda>f. None) [] kRemoveRedundant \<lparr>fa_seq = 0, fa_prefix = []\<rparr> False = Some (Inl UseAfterFree)"
  by (rule generated_keys_dangle [of 1 2 2 4, THEN conjunct2, THEN conjunct2]) (simp_all add: two_of_four word_gt_0)

text \<open>
  C26: when files may be opened and a write of nothing does not fail, \<open>generate_files\<close> never returns when the range is zero, that is, when there are more threads than
  distinct keys: \<open>range - 1\<close> wraps around, and it writes empty files for ever; nor when there are no entries per file, unless the range is one, and then it leaves one empty table.
  In all other cases it ends. For gear and plain tables it reads a released key. For the two formats that store nothing it returns,
  and the tables hold \<open>range\<close> entries in all, except that the last one is left out when \<open>range - 1\<close> is a positive multiple of
  the entries per file.
\<close>

theorem generate_files_returns:
  fixes le gen seed_engine shuffle junk fs wr f epf seed start rng g names
  assumes "wr [] \<noteq> -1"
  defines "run \<equiv> generate_files le gen seed_engine shuffle junk fs True wr f epf seed start rng g names"
  shows "(rng = 0 \<or> epf = 0 \<and> rng \<noteq> 1 \<longrightarrow> run = None) \<and>
    (epf = 0 \<and> rng = 1 \<longrightarrow> (\<exists>file names' g'. run = Some (Inr ([file], names', g')) \<and> entries_in [file] = 0)) \<and>
    (0 < rng \<and> 0 < epf \<and> (f = kGear \<or> f = kPlain) \<longrightarrow> run = Some (Inl UseAfterFree)) \<and>
    (0 < rng \<and> 0 < epf \<and> (f = kBlockBased \<or> f = kCuckoo) \<longrightarrow>
      (\<exists>files names' g'. run = Some (Inr (files, names', g')) \<and>
         entries_in files = (if 1 < unat rng \<and> unat epf dvd unat rng - 1 then unat rng - 1 else unat rng)))"
proof -
  obtain k g' where k: "bench_gen rng k 0" "run = generate_loop le gen fs True wr f epf rng names k g' 0 []"
    unfolding run_def using generate_files_eq [of rng le gen seed_engine shuffle junk fs True wr f epf seed start g names] by blast
  have "run = None" if "rng = 0 \<or> epf = 0 \<and> rng \<noteq> 1"
    using generate_loop_no_range [of le gen fs True wr f epf rng names k g' 0 "[]"] that assms(1) k by (metis not_Some_eq)
  moreover have "\<exists>file names' g'. run = Some (Inr ([file], names', g')) \<and> entries_in [file] = 0" if e: "epf = 0" "rng = 1"
    using generate_one_file_empty [of rng k wr epf le gen fs f names g'] assms(1) k e
    by (auto simp: generate_loop.simps [of _ _ _ _ _ _ _ _ _ _ _ 0] entries_in_def)
  moreover have "run = Some (Inl UseAfterFree)" if "0 < rng" "0 < epf" "f = kGear \<or> f = kPlain"
    unfolding run_def by (rule generate_files_fault [OF that])
  moreover have "\<exists>files names' g'. run = Some (Inr (files, names', g')) \<and>
      entries_in files = (if 1 < unat rng \<and> unat epf dvd unat rng - 1 then unat rng - 1 else unat rng)"
    if a: "0 < rng" "0 < epf" and f: "f = kBlockBased \<or> f = kCuckoo"
  proof -
    have e: "0 < unat epf" "unat epf dvd unat (0 :: u64)" "unat (0 :: u64) + 1 < unat rng \<or> unat (0 :: u64) = 0 \<and> 0 < unat rng"
      using a by (simp_all add: word_less_nat_alt)
    from generate_loop_counts [where wr = wr, OF k(1) e f assms(1), of le gen fs names g' "[]"] k(2) show ?thesis
      by (auto simp: bench_total_def)
  qed
  ultimately show ?thesis by blast
qed

theorem generate_files_returns_witness:
  "\<exists>files names' g'. generate_files True (\<lambda>n. (n, n + 1)) (\<lambda>s. ()) (\<lambda>h xs. xs) (\<lambda>i. 0) (\<lambda>f. None) True
     (\<lambda>d. int (length d)) kCuckoo 2 0 0 5 3 (FileNameCreator_ctor [47]) = Some (Inr (files, names', g')) \<and> entries_in files = 4"
proof -
  have "\<exists>files names' g'. generate_files True (\<lambda>n. (n, n + 1)) (\<lambda>s. ()) (\<lambda>h xs. xs) (\<lambda>i. 0) (\<lambda>f. None) True
     (\<lambda>d. int (length d)) kCuckoo 2 0 0 5 3 (FileNameCreator_ctor [47]) = Some (Inr (files, names', g')) \<and>
     entries_in files = (if 1 < unat (5 :: u64) \<and> unat (2 :: u64) dvd unat (5 :: u64) - 1 then unat (5 :: u64) - 1 else unat (5 :: u64))"
    by (rule generate_files_returns [THEN conjunct2, THEN conjunct2, THEN conjunct2, THEN mp]) (simp_all add: word_gt_0)
  then show ?thesis by simp
qed

text \<open>
  the list of benchmarks. Names joined with commas are split into the same names, provided that none
  contains a comma and the last is not empty, and the tasks are those of the names one by one, in that order.
\<close>

theorem benchmarks_split:
  assumes "\<forall>w \<in> set ws. 44 \<notin> set w" "ws \<noteq> [] \<longrightarrow> last ws \<noteq> []"
  shows "split_getline (join 44 ws) 44 = ws \<and>
    main_tasks (join 44 ws) = concat (map (\<lambda>w. main_tasks w) ws)"
proof
  show "split_getline (join 44 ws) 44 = ws" by (rule split_join [OF assms])
  have "split_getline w 44 = (if w = [] then [] else [w])" if "w \<in> set ws" for w
    using split_join [of "if w = [] then [] else [w]" 44] that assms(1) by (auto split: if_splits)
  then show "main_tasks (join 44 ws) = concat (map (\<lambda>w. main_tasks w) ws)"
    unfolding main_tasks_def split_join [OF assms] concat_map_singleton
    by (intro arg_cong [where f = concat] map_cong) (auto simp: bytes_of_string_def)
qed

theorem benchmarks_split_witness:
  "main_tasks (bytes_of_string ''gear,other,baseline'') = [RunFPGAMerger, RunBaselineMergeTask True]"
proof -
  have "\<forall>w \<in> set [bytes_of_string ''gear'', bytes_of_string ''other'', bytes_of_string ''baseline'']. 44 \<notin> set w" by code_simp
  from benchmarks_split [OF this] have "main_tasks (bytes_of_string ''gear,other,baseline'') =
      concat (map main_tasks [bytes_of_string ''gear'', bytes_of_string ''other'', bytes_of_string ''baseline''])"
    by (simp add: bytes_of_string_def)
  also have "\<dots> = [RunFPGAMerger, RunBaselineMergeTask True]" by code_simp
  finally show ?thesis .
qed


end
