(* ===== verification/Pipelines.thy ===== *)
theory Pipelines
  imports StreamMerger
begin

text \<open>
  The composition of a plain table, the file it writes and the baseline merger that opens and loads it: which entries
  \<open>MergeEntries\<close> puts into its queue, and how \<open>DoCompaction\<close> ends.
\<close>

section \<open>The content of a plain file\<close>

text \<open>An entry is its key and its value; entries of a plain file have a fixed length and no separator.\<close>

definition plain_content :: "kv_pair list \<Rightarrow> byte list" where
  "plain_content es = concat (map (\<lambda>(k, v). k @ v) es)"

definition plain_entries :: "kv_pair list \<Rightarrow> bool" where
  "plain_entries es \<longleftrightarrow> list_all (\<lambda>(k, v). length k = KEY_CONTENT_LENGTH + KEY_SUFFIX_LENGTH \<and> length v = VALUE_LENGTH) es \<and>
     26 * length es \<le> LOAD_LENGTH"

lemma plain_entries_Cons:
  "plain_entries (e # es) \<Longrightarrow> length (fst e) = 16 \<and> length (snd e) = 10 \<and> plain_entries es"
  by (auto simp: plain_entries_def block_consts)

lemma length_plain_content: "plain_entries es \<Longrightarrow> length (plain_content es) = 26 * length es"
proof (induction es)
  case (Cons e es)
  then show ?case using plain_entries_Cons [OF Cons.prems] by (auto simp: plain_content_def split: prod.splits)
qed (simp add: plain_content_def)

lemma plain_content_nth:
  assumes "plain_entries es" "j < length es"
  shows "take 26 (drop (26 * j) (plain_content es @ rest)) = fst (es ! j) @ snd (es ! j)"
  using assms
proof (induction es arbitrary: j)
  case (Cons e es)
  obtain k v where e: "e = (k, v)" by (cases e)
  have l: "length (k @ v) = 26" "plain_entries es" using plain_entries_Cons [OF Cons.prems(1)] by (simp_all add: e)
  have c: "plain_content (e # es) @ rest = (k @ v) @ plain_content es @ rest" by (simp add: plain_content_def e)
  show ?case
  proof (cases j)
    case 0
    then show ?thesis unfolding c using l(1) by (simp add: e)
  next
    case (Suc i)
    have "drop (26 * j) (plain_content (e # es) @ rest) = drop (26 * i) (plain_content es @ rest)"
      unfolding c Suc using l(1) by simp
    then show ?thesis using Cons.IH [OF l(2), of i] Cons.prems(2) Suc by simp
  qed
qed simp

lemma plain_file_entries:
  assumes "plain_entries es"
  shows "map (\<lambda>j. take 26 (drop (26 * j) (plain_content es @ rest))) [0..<length es] = map (\<lambda>(k, v). k @ v) es"
  using plain_content_nth [OF assms] by (intro nth_equalityI) (simp_all add: case_prod_unfold del: take_append drop_append)

lemma entry_count_plain: "entry_count (26 * n) = n"
  by (simp add: entry_count_def)

section \<open>Opening the files\<close>

definition opened_plain :: "byte list \<Rightarrow> Table \<Rightarrow> bool" where
  "opened_plain c t \<longleftrightarrow> tb_kind t = PlainTable \<and> tb_file t = c \<and> tb_offset t = 0"

text \<open>Opening the files by their names: all of them, or a failed assertion.\<close>

lemma open_inputs_present:
  "list_all2 (\<lambda>name c. fs name = Some c) names contents \<Longrightarrow>
   \<exists>ts. open_inputs fs True kPlain names files = Inr (files @ ts) \<and> list_all2 opened_plain contents ts"
proof (induction arbitrary: files rule: list_all2_induct)
  case (Cons name names c contents)
  let ?t = "\<lparr>tb_kind = PlainTable, tb_key_list = [], tb_value_list = [], tb_file = c, tb_offset = 0,
    tb_writable = False, tb_file_name = name, tb_num_of_blocks = 0\<rparr>"
  have "CreateFilePointerFromName fs True kPlain name = Inr ?t"
    using Cons.hyps(1) by (simp add: CreateFilePointerFromName_def new_table_def Table_ctor_def)
  moreover obtain ts where "open_inputs fs True kPlain names (files @ [?t]) = Inr ((files @ [?t]) @ ts)"
    "list_all2 opened_plain contents ts"
    using Cons.IH by blast
  ultimately show ?case by (intro exI [of _ "?t # ts"]) (simp add: opened_plain_def [of c])
qed simp

lemma open_inputs_missing:
  "name \<in> set names \<Longrightarrow> fs name = None \<Longrightarrow> open_inputs fs True kPlain names files = Inl AssertFailed"
  by (induction names arbitrary: files)
    (auto simp: CreateFilePointerFromName_def new_table_def Table_ctor_def split: option.splits)

section \<open>The merger on its files\<close>

text \<open>
  What \<open>read\<close> may return for a file of content \<open>c\<close>, and the entries that the merger finds in what was read: every 26 bytes, the last
  ones completed from the buffer.
\<close>

definition may_read :: "byte list \<Rightarrow> byte list \<times> int \<Rightarrow> bool" where
  "may_read c jr \<longleftrightarrow> length (fst jr) = LOAD_LENGTH \<and>
     (snd jr = - 1 \<or> 0 \<le> snd jr \<and> nat (snd jr) \<le> LOAD_LENGTH \<and> nat (snd jr) \<le> length c)"

definition chunks :: "byte list \<times> int \<Rightarrow> byte list \<Rightarrow> byte list list" where
  "chunks jr c = map (\<lambda>j. take 26 (drop (26 * j) (take (nat (snd jr)) c @ drop (nat (snd jr)) (fst jr)))) [0..<entry_count (nat (snd jr))]"

definition fresh_file :: "byte list \<Rightarrow> PlainFile \<Rightarrow> bool" where
  "fresh_file c f \<longleftrightarrow> tb_file (pf_table f) = c \<and> tb_offset (pf_table f) = 0 \<and> pf_readed_entries f = 0"

lemma fresh_file_reads:
  assumes "list_all2 fresh_file contents files" "list_all2 may_read contents io"
  shows "list_all2 read_ok io files" "map2 loaded_entries io files = map2 chunks io contents"
  using assms
proof (induction arbitrary: io rule: list_all2_induct)
  case (Cons c contents f files)
  {
    case 1
    then show ?case using Cons by (auto simp: list_all2_Cons1 fresh_file_def read_ok_def may_read_def)
  next
    case 2
    then show ?case using Cons by (auto simp: list_all2_Cons1 fresh_file_def loaded_entries_def loaded_def chunks_def)
  }
qed simp_all

text \<open>The merger that is made from the names of files that are there.\<close>

lemma BaselineMerger_on_files:
  assumes "list_all2 (\<lambda>name c. fs name = Some c) names contents"
  obtains bm files where "BaselineMerger_ctor fs True l a names = Inr bm" "bm_last_entry bm = []" "bm_input_plain_files bm = []"
    "map as_plain (mg_input_files (bm_base bm)) = map Some files" "list_all2 fresh_file contents files"
proof -
  obtain ts where ts: "open_inputs fs True kPlain names [] = Inr ts" "list_all2 opened_plain contents ts"
    using open_inputs_present [OF assms, of "[]"] by auto
  define files where "files = map (\<lambda>t. \<lparr>pf_table = t, pf_readed_entries = 0, pf_file_content = [], pf_file_size = 0\<rparr>) ts"
  have "map as_plain ts = map Some files"
    using ts(2) by (auto simp: files_def as_plain_def opened_plain_def list_all2_conv_all_nth in_set_conv_nth)
  moreover have "list_all2 fresh_file contents files"
    unfolding files_def list.rel_map by (rule list_all2_mono [OF ts(2)]) (simp add: opened_plain_def fresh_file_def)
  ultimately show thesis using ts(1) by (intro that) (auto simp: BaselineMerger_ctor_def Merger_ctor_def)
qed

text \<open>
  What it means that all of the files were merged: they are loaded, the queue gets exactly the entries that were read, each once, and \<open>MergeEntries\<close>
  returns with the files read so far.
\<close>

definition merges_all :: "bool \<Rightarrow> ValueType \<Rightarrow> (byte list \<times> int) list \<Rightarrow> byte list list \<Rightarrow> BaselineMerger \<Rightarrow> bool" where
  "merges_all le u io contents m \<longleftrightarrow>
     (\<exists>fs files' queue. load_files io (bm_input_plain_files m) = Inr fs \<and>
       push_files (entry_less le u) (map reverse_twice fs) 0 [] =
         Some (Inr (files', of_nat (length (concat (map2 chunks io contents))), queue)) \<and>
       mset (map slice_bytes queue) = mset (concat (map2 chunks io contents)) \<and>
       Baseline_MergeEntries le u io m = Some (Inr (0, m\<lparr>bm_input_plain_files := map Some files'\<rparr>)))"

text \<open>How \<open>DoCompaction\<close> ends on such a merger, and what its queue has held.\<close>

lemma Baseline_DoCompaction_on_files:
  assumes "bm_last_entry bm = []" "bm_input_plain_files bm = []" "map as_plain (mg_input_files (bm_base bm)) = map Some files"
    and "list_all2 fresh_file contents files" "list_all2 may_read contents io"
  shows "if - 1 \<in> snd ` set io then Baseline_DoCompaction le u io bm = Some (Inl AssertFailed)
    else if \<exists>jr \<in> set io. LOAD_LENGTH < 26 * entry_count (nat (snd jr)) then Baseline_DoCompaction le u io bm = Some (Inl OutOfBounds)
    else merges_all le u io contents (snd (Baseline_PrepareFiles bm)) \<and>
      Baseline_DoCompaction le u io bm = Some (Inl NoReturn)"
proof -
  let ?bm = "snd (Baseline_PrepareFiles bm)"
  have bm: "bm_last_entry ?bm = []" "bm_input_plain_files ?bm = map Some files" using assms(1-3) by (simp_all add: Baseline_PrepareFiles_def)
  note rd = fresh_file_reads [OF assms(4,5)]
  have "list_all2 load_ok io files" if "- 1 \<notin> snd ` set io" "\<not> (\<exists>jr \<in> set io. LOAD_LENGTH < 26 * entry_count (nat (snd jr)))"
    using rd(1) that by (induction rule: list_all2_induct) (auto simp: load_ok_def not_less)
  then show ?thesis
    using Baseline_MergeEntries_ok [OF _ bm(2,1), of io le u] Baseline_MergeEntries_faults [OF rd(1) bm(2), of le u]
    unfolding rd(2) merges_all_def Baseline_DoCompaction_def Let_def by auto
qed

text \<open>A complete read of a file of plain entries.\<close>

definition full_read :: "kv_pair list \<Rightarrow> byte list \<times> int \<Rightarrow> bool" where
  "full_read es jr \<longleftrightarrow> length (fst jr) = LOAD_LENGTH \<and> snd jr = int (26 * length es)"

lemma full_reads:
  assumes "list_all plain_entries ess" "list_all2 full_read ess io"
  shows "list_all2 may_read (map plain_content ess) io" "- 1 \<notin> snd ` set io"
    "\<not> (\<exists>jr \<in> set io. LOAD_LENGTH < 26 * entry_count (nat (snd jr)))"
    "map2 chunks io (map plain_content ess) = map (map (\<lambda>(k, v). k @ v)) ess"
proof -
  have one: "may_read (plain_content es) jr \<and> snd jr \<noteq> - 1 \<and> \<not> LOAD_LENGTH < 26 * entry_count (nat (snd jr)) \<and>
      chunks jr (plain_content es) = map (\<lambda>(k, v). k @ v) es" if "plain_entries es" "full_read es jr" for es jr
  proof -
    have r: "nat (snd jr) = 26 * length es" "0 \<le> snd jr" "length (fst jr) = LOAD_LENGTH" "26 * length es \<le> LOAD_LENGTH"
      using that by (simp_all add: full_read_def plain_entries_def)
    then show ?thesis
      using plain_file_entries [OF that(1), of "drop (26 * length es) (fst jr)"] length_plain_content [OF that(1)]
      by (auto simp: may_read_def chunks_def entry_count_plain)
  qed
  have "list_all2 may_read (map plain_content ess) io \<and> - 1 \<notin> snd ` set io \<and>
      \<not> (\<exists>jr \<in> set io. LOAD_LENGTH < 26 * entry_count (nat (snd jr))) \<and>
      map2 chunks io (map plain_content ess) = map (map (\<lambda>(k, v). k @ v)) ess"
    using assms(2,1)
  proof (induction rule: list_all2_induct)
    case (Cons es ess jr io)
    then show ?case using one [of es jr] by auto
  qed simp
  then show "list_all2 may_read (map plain_content ess) io" "- 1 \<notin> snd ` set io"
    "\<not> (\<exists>jr \<in> set io. LOAD_LENGTH < 26 * entry_count (nat (snd jr)))"
    "map2 chunks io (map plain_content ess) = map (map (\<lambda>(k, v). k @ v)) ess" by blast+
qed

section \<open>The files of plain tables\<close>

text \<open>
  A plain table on a new file, with keys and values that are alive and have the lengths of the format, at most as many as the merger can load;
  and what a complete write leaves in the file.
\<close>

definition plain_table :: "Table \<Rightarrow> bool" where
  "plain_table t \<longleftrightarrow> tb_kind t = PlainTable \<and> tb_file t = [] \<and> tb_offset t = 0 \<and> length (tb_key_list t) = length (tb_value_list t) \<and>
     (\<forall>s \<in> set (tb_key_list t). slice_wf s \<and> sl_size s = KEY_CONTENT_LENGTH + KEY_SUFFIX_LENGTH) \<and>
     (\<forall>s \<in> set (tb_value_list t). slice_wf s \<and> sl_size s = VALUE_LENGTH) \<and> 26 * length (tb_key_list t) \<le> LOAD_LENGTH"

definition written :: "bool \<Rightarrow> Table \<Rightarrow> byte list res" where
  "written le t =
     res_bind (ToDiskFormat le t []) (\<lambda>(n, disk_format).
     res_bind (WriteToDisk t disk_format (int (length disk_format))) (\<lambda>(w, t). Inr (tb_file t)))"

definition entries_of :: "Table \<Rightarrow> kv_pair list" where
  "entries_of t = zip (map slice_bytes (tb_key_list t)) (map slice_bytes (tb_value_list t))"

lemma plain_table_entries:
  assumes "plain_table t"
  shows "plain_entries (entries_of t)" "length (entries_of t) = length (tb_key_list t)" "written le t = Inr (plain_content (entries_of t))"
proof -
  have wf: "\<forall>s \<in> set (tb_key_list t) \<union> set (tb_value_list t). slice_wf s" and len: "length (tb_key_list t) = length (tb_value_list t)"
    using assms by (auto simp: plain_table_def)
  have "k \<in> slice_bytes ` set (tb_key_list t) \<and> v \<in> slice_bytes ` set (tb_value_list t)" if "(k, v) \<in> set (entries_of t)" for k v
    using set_zip_leftD [OF that [unfolded entries_of_def]] set_zip_rightD [OF that [unfolded entries_of_def]] by simp
  then show "plain_entries (entries_of t)"
    using assms len by (fastforce simp: plain_table_def plain_entries_def list_all_iff entries_of_def)
  show "length (entries_of t) = length (tb_key_list t)" using len by (simp add: entries_of_def)
  have "map (\<lambda>(k, v). slice_bytes k @ slice_bytes v) (zip (tb_key_list t) (tb_value_list t)) = map (\<lambda>(k, v). k @ v) (entries_of t)"
    by (simp add: entries_of_def zip_map1 zip_map2 case_prod_unfold)
  then show "written le t = Inr (plain_content (entries_of t))"
    using Plain_ToDisk_loop_ok [OF len wf, of 0 "[]"] assms
    by (simp add: written_def plain_table_def ToDiskFormat_def PlainTable_ToDiskFormat_def WriteToDisk_def Let_def plain_content_def)
qed

end
