(* ===== verification/BenchMain.thy ===== *)
theory BenchMain
  imports BenchTool Pipelines
begin

text \<open>
  The main program of \<open>tools/gear_bench_tool.cc\<close>: the flags with their defaults, the tasks run one after the
  other, and what becomes of a run with the default flags.
\<close>

section \<open>Flags\<close>

text \<open>The flags the tool reads; \<open>bench_threads\<close> is not negative.\<close>

record Flags =
  fl_seed :: u64
  fl_db_path :: "byte list"
  fl_table_format :: "byte list"
  fl_bench_threads :: nat
  fl_entries_per_file :: u64
  fl_distinct_num :: u64
  fl_benchmark :: "byte list"

definition default_flags :: Flags where
  "default_flags =
     \<lparr>fl_seed = 0, fl_db_path = bytes_of_string ''/tmp/rocksdb/gear'', fl_table_format = bytes_of_string ''gear'',
      fl_bench_threads = 1, fl_entries_per_file = 10324400, fl_distinct_num = 10324400 * 8,
      fl_benchmark = bytes_of_string ''baseline''\<rparr>"

section \<open>Running the tasks\<close>

text \<open>
  What a task depends on besides the flags: the byte order, the random engine and the shuffle, the content of
  uninitialised memory, the file system when files are created (\<open>w_fs\<close>) and when the merger opens them
  (\<open>w_merge_fs\<close>), and what \<open>open\<close>, \<open>write\<close> and \<open>read\<close> return.
\<close>

record ('g, 'h) World =
  w_le :: bool
  w_gen :: "'g \<Rightarrow> u64 \<times> 'g"
  w_rand :: "u64 \<Rightarrow> 'g" \<comment> \<open>\<open>Random64 rand(FLAGS_seed)\<close>\<close>
  w_seed_engine :: "u32 \<Rightarrow> 'h"
  w_shuffle :: "'h \<Rightarrow> u64 list \<Rightarrow> u64 list"
  w_junk :: "nat \<Rightarrow> byte"
  w_fs :: "byte list \<Rightarrow> byte list option"
  w_permitted :: bool
  w_write :: "byte list \<Rightarrow> int"
  w_type :: ValueType \<comment> \<open>an uninitialised \<open>ParsedInternalKey::type\<close>\<close>
  w_merge_fs :: "byte list \<Rightarrow> byte list option"
  w_read :: "(byte list \<times> int) list"
  w_logic :: FilterLogic
  w_args :: FilterArgs

definition run_task :: "('g, 'h) World \<Rightarrow> Flags \<Rightarrow> Task \<Rightarrow> unit res option" where
  "run_task w fl task =
     (case task of
        RunFPGAMerger \<Rightarrow>
          map_option (\<lambda>r. res_bind r (\<lambda>files. Inr ()))
            (FPGAMerger (w_le w) (w_gen w) (w_seed_engine w) (w_shuffle w) (w_junk w) (w_fs w) (w_permitted w) (w_write w)
              (fl_table_format fl) (fl_entries_per_file fl) (fl_seed fl) (fl_distinct_num fl) (fl_bench_threads fl)
              (fl_db_path fl) (w_rand w (fl_seed fl)))
      | RunBaselineMergeTask merge_only \<Rightarrow>
          map_option (\<lambda>r. res_bind r (\<lambda>n. Inr ()))
            (BaselineMergeTask (w_le w) (w_gen w) (w_seed_engine w) (w_shuffle w) (w_junk w) (w_fs w) (w_permitted w) (w_write w)
              (fl_entries_per_file fl) (fl_seed fl) (fl_distinct_num fl) (fl_bench_threads fl) (fl_db_path fl)
              (w_rand w (fl_seed fl)) (w_type w) (w_merge_fs w) (w_read w) (w_logic w) (w_args w) merge_only))"

text \<open>\<open>world i\<close> is what task \<open>i\<close> finds.\<close>

fun run_tasks :: "(nat \<Rightarrow> ('g, 'h) World) \<Rightarrow> Flags \<Rightarrow> nat \<Rightarrow> Task list \<Rightarrow> unit res option" where
  "run_tasks world fl i [] = Some (Inr ())"
| "run_tasks world fl i (task # tasks) =
     (case run_task (world i) fl task of
        None \<Rightarrow> None
      | Some (Inl e) \<Rightarrow> Some (Inl e)
      | Some (Inr _) \<Rightarrow> run_tasks world fl (i + 1) tasks)"

definition main :: "(nat \<Rightarrow> ('g, 'h) World) \<Rightarrow> Flags \<Rightarrow> unit res option" where
  "main world fl = run_tasks world fl 0 (main_tasks (fl_benchmark fl))"

section \<open>Lemmas\<close>

lemma main_single:
  assumes "main_tasks (fl_benchmark fl) = [task]"
  shows "main world fl = run_task (world 0) fl task"
  using assms by (simp add: main_def split: option.splits sum.splits)

lemma main_tasks_names:
  "main_tasks (bytes_of_string ''gear'') = [RunFPGAMerger]"
  "main_tasks (bytes_of_string ''baseline_full'') = [RunBaselineMergeTask False]"
  "main_tasks (bytes_of_string ''baseline'') = [RunBaselineMergeTask True]"
  by code_simp+

lemma default_range: "fl_distinct_num default_flags div of_nat (fl_bench_threads default_flags) = 82595200"
  by (simp add: default_flags_def)

lemma default_inputs:
  "merge_only_inputs (fl_distinct_num default_flags) (fl_entries_per_file default_flags) db_path =
     Inr (next_names 8 (FileNameCreator_ctor db_path))"
proof -
  have "unat (fl_distinct_num default_flags div fl_entries_per_file default_flags) = 8" by code_simp
  moreover have "fl_entries_per_file default_flags \<noteq> 0" by (simp add: default_flags_def)
  moreover have "\<not> 2 ^ 31 \<le> fl_distinct_num default_flags div fl_entries_per_file default_flags" by code_simp
  ultimately show ?thesis by (simp add: merge_only_inputs_def)
qed

text \<open>The merger as the task sets it up before it calls \<open>DoCompaction\<close>, once its files are prepared.\<close>

definition prepared_merger :: "BaselineMerger \<Rightarrow> BaselineMerger" where
  "prepared_merger bm =
     snd (Baseline_PrepareFiles (bm\<lparr>bm_base := GenerateFilterArgs (bm_base bm) kRemoveRedundant \<lparr>fa_seq = 0, fa_prefix = []\<rparr>\<rparr>))"

lemma merge_present:
  assumes "list_all2 (\<lambda>name c. fs name = Some c) names contents" "list_all2 may_read contents io"
  shows "if - 1 \<in> snd ` set io then BaselineMergeTask_merge le u fs True io l a names = Some (Inl AssertFailed)
    else if \<exists>jr \<in> set io. LOAD_LENGTH < 26 * entry_count (nat (snd jr))
      then BaselineMergeTask_merge le u fs True io l a names = Some (Inl OutOfBounds)
    else (\<exists>bm. BaselineMerger_ctor fs True l a names = Inr bm \<and> merges_all le u io contents (prepared_merger bm)) \<and>
      BaselineMergeTask_merge le u fs True io l a names = Some (Inl NoReturn)"
proof -
  obtain bm files where bm: "BaselineMerger_ctor fs True l a names = Inr bm" "bm_last_entry bm = []" "bm_input_plain_files bm = []"
    "map as_plain (mg_input_files (bm_base bm)) = map Some files" "list_all2 fresh_file contents files"
    using assms(1) by (rule BaselineMerger_on_files)
  let ?m = "bm\<lparr>bm_base := GenerateFilterArgs (bm_base bm) kRemoveRedundant \<lparr>fa_seq = 0, fa_prefix = []\<rparr>\<rparr>"
  have "bm_last_entry ?m = []" "bm_input_plain_files ?m = []" "map as_plain (mg_input_files (bm_base ?m)) = map Some files"
    using bm(2-4) by (simp_all add: GenerateFilterArgs_def)
  from Baseline_DoCompaction_on_files [OF this bm(5) assms(2), of le u] bm(1)
  show ?thesis unfolding BaselineMergeTask_merge_def prepared_merger_def Let_def by simp
qed

lemma merge_missing:
  "name \<in> set names \<Longrightarrow> fs name = None \<Longrightarrow> BaselineMergeTask_merge le u fs True io l a names = Some (Inl AssertFailed)"
  by (simp add: BaselineMergeTask_merge_def BaselineMerger_ctor_def Merger_ctor_def open_inputs_missing)

text \<open>Generating files with the default flags reads a released key.\<close>

lemma generate_all_default:
  assumes "f = kGear \<or> f = kPlain"
  shows "generate_all le gen seed_engine shuffle junk fs True wr f (fl_entries_per_file default_flags) seed 82595200
    (task_starts (fl_bench_threads default_flags) 82595200) g names [] = Some (Inl UseAfterFree)"
proof -
  have "(0 :: u64) < 82595200" "0 < fl_entries_per_file default_flags" by code_simp+
  from generate_files_fault [OF this assms, of le gen seed_engine shuffle junk fs wr seed 0 g names]
  show ?thesis by (simp add: task_starts_zero default_flags_def)
qed

section \<open>Properties\<close>

text \<open>
  C25: the runs of the program with the default flags, one for each benchmark, when files may be opened. The benchmarks that generate files,
  \<open>gear\<close> and \<open>baseline_full\<close>, read a released key. The default one, \<open>baseline\<close>, merges eight files. If one of them is missing an assertion fails.
  If all are there, let the reads of them return what \<open>read\<close> may return, any number of bytes of the file up to 512 MiB or an error. If one fails, an assertion fails;
  if one fills the 512 MiB so far that its last entry does not end in them, an entry is read outside of the buffer; otherwise the
  merger is made from the eight files, every entry of what was read of them is queued exactly once, \<open>MergeEntries\<close> returns normally, and then \<open>DoCompaction\<close> ends without
  the value it has to return. With any benchmark that names no task the program returns normally and does nothing.
\<close>

theorem main_by_default:
  assumes "w_permitted (world 0)"
  defines "run b \<equiv> main world (default_flags\<lparr>fl_benchmark := b\<rparr>)"
    and "names \<equiv> next_names 8 (FileNameCreator_ctor (fl_db_path default_flags))"
  shows "run (bytes_of_string ''gear'') = Some (Inl UseAfterFree) \<and> run (bytes_of_string ''baseline_full'') = Some (Inl UseAfterFree) \<and>
    (\<forall>name \<in> set names. w_merge_fs (world 0) name = None \<longrightarrow> run (bytes_of_string ''baseline'') = Some (Inl AssertFailed)) \<and>
    (\<forall>contents. list_all2 (\<lambda>name c. w_merge_fs (world 0) name = Some c) names contents \<and> list_all2 may_read contents (w_read (world 0)) \<longrightarrow>
      (if - 1 \<in> snd ` set (w_read (world 0)) then run (bytes_of_string ''baseline'') = Some (Inl AssertFailed)
       else if \<exists>jr \<in> set (w_read (world 0)). LOAD_LENGTH < 26 * entry_count (nat (snd jr))
         then run (bytes_of_string ''baseline'') = Some (Inl OutOfBounds)
       else (\<exists>bm. BaselineMerger_ctor (w_merge_fs (world 0)) True (w_logic (world 0)) (w_args (world 0)) names = Inr bm \<and>
           merges_all (w_le (world 0)) (w_type (world 0)) (w_read (world 0)) contents (prepared_merger bm)) \<and>
         run (bytes_of_string ''baseline'') = Some (Inl NoReturn))) \<and>
    (\<forall>b. main_tasks b = [] \<longrightarrow> run b = Some (Inr ()))"
proof -
  let ?w = "world 0"
  have one: "run b = run_task ?w (default_flags\<lparr>fl_benchmark := b\<rparr>) task" if "main_tasks b = [task]" for b task
    unfolding run_def by (rule main_single) (simp add: that)
  note tasks = main_tasks_names [THEN one]
  have gear: "StringToRepFactory (fl_table_format default_flags) = kGear" by code_simp
  have threads: "fl_bench_threads default_flags \<noteq> 0" by (simp add: default_flags_def)
  have base: "run (bytes_of_string ''baseline'') =
      map_option (\<lambda>r. res_bind r (\<lambda>n. Inr ()))
        (BaselineMergeTask_merge (w_le ?w) (w_type ?w) (w_merge_fs ?w) True (w_read ?w) (w_logic ?w) (w_args ?w) names)"
    using tasks(3) threads assms(1) by (simp add: run_task_def BaselineMergeTask_def default_inputs names_def)
  show ?thesis
  proof (intro conjI allI impI ballI)
    show "run (bytes_of_string ''gear'') = Some (Inl UseAfterFree)"
      using tasks(1) threads assms(1) by (simp add: run_task_def FPGAMerger_def default_range gear generate_all_default)
    show "run (bytes_of_string ''baseline_full'') = Some (Inl UseAfterFree)"
      using tasks(2) threads assms(1) by (simp add: run_task_def BaselineMergeTask_def default_range generate_all_default)
    show "run (bytes_of_string ''baseline'') = Some (Inl AssertFailed)" if "name \<in> set names" "w_merge_fs ?w name = None" for name
      unfolding base using merge_missing [where fs = "w_merge_fs ?w", OF that] by simp
    show "if - 1 \<in> snd ` set (w_read ?w) then run (bytes_of_string ''baseline'') = Some (Inl AssertFailed)
       else if \<exists>jr \<in> set (w_read ?w). LOAD_LENGTH < 26 * entry_count (nat (snd jr))
         then run (bytes_of_string ''baseline'') = Some (Inl OutOfBounds)
       else (\<exists>bm. BaselineMerger_ctor (w_merge_fs ?w) True (w_logic ?w) (w_args ?w) names = Inr bm \<and>
           merges_all (w_le ?w) (w_type ?w) (w_read ?w) contents (prepared_merger bm)) \<and>
         run (bytes_of_string ''baseline'') = Some (Inl NoReturn)"
      if "list_all2 (\<lambda>name c. w_merge_fs ?w name = Some c) names contents \<and> list_all2 may_read contents (w_read ?w)" for contents
      unfolding base
      using merge_present [OF conjunct1 [OF that] conjunct2 [OF that], of "w_le ?w" "w_type ?w" "w_logic ?w" "w_args ?w"]
      by (auto split: if_splits)
    show "run b = Some (Inr ())" if "main_tasks b = []" for b using that by (simp add: run_def main_def)
  qed
qed

definition sample_world :: "(u64, unit) World" where
  "sample_world =
     \<lparr>w_le = True, w_gen = (\<lambda>n. (n, n + 1)), w_rand = id, w_seed_engine = (\<lambda>s. ()), w_shuffle = (\<lambda>h xs. xs), w_junk = (\<lambda>i. 0),
      w_fs = (\<lambda>f. None), w_permitted = True, w_write = (\<lambda>d. int (length d)), w_type = kTypeValue,
      w_merge_fs = (\<lambda>f. Some (replicate 26 5)), w_read = replicate 8 (replicate LOAD_LENGTH 0, 26),
      w_logic = kRemoveRedundant, w_args = \<lparr>fa_seq = 0, fa_prefix = []\<rparr>\<rparr>"

lemma length_next_names: "length (next_names n c) = n"
  by (induction n arbitrary: c) (auto split: prod.splits)

theorem main_by_default_witness:
  "main (\<lambda>i. sample_world) default_flags = Some (Inl NoReturn) \<and>
   main (\<lambda>i. sample_world) (default_flags\<lparr>fl_benchmark := bytes_of_string ''gear''\<rparr>) = Some (Inl UseAfterFree)"
proof -
  let ?names = "next_names 8 (FileNameCreator_ctor (fl_db_path default_flags))"
  have p: "w_permitted ((\<lambda>i. sample_world) 0)" by (simp add: sample_world_def)
  have f: "default_flags\<lparr>fl_benchmark := bytes_of_string ''baseline''\<rparr> = default_flags" by (simp add: default_flags_def)
  have "list_all2 (\<lambda>name c. w_merge_fs sample_world name = Some c) ?names (replicate 8 (replicate 26 5))"
    by (simp add: list_all2_conv_all_nth sample_world_def length_next_names)
  moreover have "list_all2 may_read (replicate 8 (replicate 26 5)) (w_read sample_world)"
    by (simp add: list_all2_conv_all_nth sample_world_def may_read_def LOAD_LENGTH_def)
  moreover have "- 1 \<notin> snd ` set (w_read sample_world)" "\<not> (\<exists>jr \<in> set (w_read sample_world). LOAD_LENGTH < 26 * entry_count (nat (snd jr)))"
    by (simp_all add: sample_world_def entry_count_def LOAD_LENGTH_def)
  ultimately show ?thesis using main_by_default [where world = "\<lambda>i. sample_world", OF p] unfolding f by presburger
qed

end
