(* ===== verification/IterKeys.thy ===== *)
theory IterKeys
  imports DBFormat
begin

text \<open>
  The class \<open>IterKey\<close> of \<open>db_format/dbformat.h\<close> (with \<open>EnlargeBuffer\<close> of \<open>db_format/dbformat.cc\<close>): a
  key that is either copied into a buffer of the object or refers to memory of the caller.

  The buffer is the inline array \<open>space_\<close> or one array from \<open>new char[]\<close>, so the model has an explicit
  store: a pointer is an offset into \<open>space_\<close>, into a numbered heap array, or into an object of the
  caller. Memory holds cells; a cell is \<open>None\<close> until something is stored there. An access through a
  pointer to a released array and a \<open>memcpy\<close> between overlapping ranges are faults. The heap of the
  record holds the arrays this object has allocated and not yet released. Allocation succeeds.
\<close>

section \<open>Pointers and memory\<close>

type_synonym cell = "byte option"

datatype ptr =
    Space nat              \<comment> \<open>\<open>space_ + n\<close>\<close>
  | Heap nat nat           \<comment> \<open>array number, offset\<close>
  | Ext "byte list" nat    \<comment> \<open>an object of the caller, offset\<close>

text \<open>A slice is a pointer and a size.\<close>

type_synonym KSlice = "ptr \<times> nat"

record IterKey =
  it_buf :: ptr
  it_key :: ptr
  it_key_size :: nat
  it_buf_size :: nat
  it_space :: "cell list"
  it_is_user_key :: bool
  it_heap :: "nat \<Rightarrow> cell list option"
  it_next :: nat  \<comment> \<open>number of the next array \<open>new\<close> returns\<close>

fun ptr_add :: "ptr \<Rightarrow> nat \<Rightarrow> ptr" where
  "ptr_add (Space p) n = Space (p + n)"
| "ptr_add (Heap b p) n = Heap b (p + n)"
| "ptr_add (Ext m p) n = Ext m (p + n)"

fun load :: "IterKey \<Rightarrow> ptr \<Rightarrow> nat \<Rightarrow> cell list res" where
  "load k (Space p) n = read_bytes (it_space k) p n"
| "load k (Heap b p) n =
     (case it_heap k b of None \<Rightarrow> Inl UseAfterFree | Some m \<Rightarrow> read_bytes m p n)"
| "load k (Ext m p) n = read_bytes (map Some m) p n"

fun store :: "IterKey \<Rightarrow> ptr \<Rightarrow> cell list \<Rightarrow> IterKey res" where
  "store k (Space p) cs =
     res_bind (write_bytes (it_space k) p cs) (\<lambda>m. Inr (k\<lparr>it_space := m\<rparr>))"
| "store k (Heap b p) cs =
     (case it_heap k b of
        None \<Rightarrow> Inl UseAfterFree
      | Some m \<Rightarrow> res_bind (write_bytes m p cs) (\<lambda>m. Inr (k\<lparr>it_heap := (it_heap k)(b \<mapsto> m)\<rparr>)))"
| "store k (Ext m p) cs = Inl OutOfBounds"

fun overlaps :: "ptr \<Rightarrow> ptr \<Rightarrow> nat \<Rightarrow> bool" where
  "overlaps (Space p) (Space q) n \<longleftrightarrow> p < q + n \<and> q < p + n"
| "overlaps (Heap b p) (Heap c q) n \<longleftrightarrow> b = c \<and> p < q + n \<and> q < p + n"
| "overlaps _ _ n \<longleftrightarrow> False"

definition memcpy :: "IterKey \<Rightarrow> ptr \<Rightarrow> ptr \<Rightarrow> nat \<Rightarrow> IterKey res" where
  "memcpy k dst src n =
     res_bind (load k src n) (\<lambda>cs.
       if overlaps dst src n then Inl OverlappingCopy else store k dst cs)"

definition new_array :: "IterKey \<Rightarrow> nat \<Rightarrow> ptr \<times> IterKey" where
  "new_array k n =
     (Heap (it_next k) 0,
      k\<lparr>it_heap := (it_heap k)(it_next k \<mapsto> replicate n None), it_next := Suc (it_next k)\<rparr>)"

fun delete_array :: "IterKey \<Rightarrow> ptr \<Rightarrow> IterKey res" where
  "delete_array k (Heap b p) =
     (if p = 0 \<and> it_heap k b \<noteq> None then Inr (k\<lparr>it_heap := (it_heap k)(b := None)\<rparr>)
      else Inl UseAfterFree)"
| "delete_array k _ = Inl OutOfBounds"

section \<open>The class\<close>

definition IterKey_ctor :: IterKey where
  "IterKey_ctor =
     \<lparr>it_buf = Space 0, it_key = Space 0, it_key_size = 0, it_buf_size = 32,
      it_space = replicate 32 None, it_is_user_key = True, it_heap = Map.empty, it_next = 0\<rparr>"

definition SetIsUserKey :: "IterKey \<Rightarrow> bool \<Rightarrow> IterKey" where
  "SetIsUserKey k is_user_key = k\<lparr>it_is_user_key := is_user_key\<rparr>"

definition GetKey :: "IterKey \<Rightarrow> KSlice" where
  "GetKey k = (it_key k, it_key_size k)"

definition GetInternalKey :: "IterKey \<Rightarrow> KSlice res" where
  "GetInternalKey k = require (\<not> it_is_user_key k) (Inr (it_key k, it_key_size k))"

definition GetUserKey :: "IterKey \<Rightarrow> KSlice res" where
  "GetUserKey k =
     (if it_is_user_key k then Inr (it_key k, it_key_size k)
      else require (it_key_size k \<ge> 8) (Inr (it_key k, it_key_size k - 8)))"

definition it_Size :: "IterKey \<Rightarrow> nat" where
  "it_Size k = it_key_size k"

definition it_Clear :: "IterKey \<Rightarrow> IterKey" where
  "it_Clear k = k\<lparr>it_key_size := 0\<rparr>"

definition IsUserKey :: "IterKey \<Rightarrow> bool" where
  "IsUserKey k = it_is_user_key k"

definition IsKeyPinned :: "IterKey \<Rightarrow> bool" where
  "IsKeyPinned k \<longleftrightarrow> it_key k \<noteq> it_buf k"

definition ResetBuffer :: "IterKey \<Rightarrow> IterKey res" where
  "ResetBuffer k =
     res_bind
       (if it_buf k \<noteq> Space 0
        then res_bind (delete_array k (it_buf k)) (\<lambda>k. Inr (k\<lparr>it_buf := Space 0\<rparr>))
        else Inr k)
       (\<lambda>k. Inr (k\<lparr>it_buf_size := 32, it_key_size := 0\<rparr>))"

definition EnlargeBuffer :: "IterKey \<Rightarrow> nat \<Rightarrow> IterKey res" where
  "EnlargeBuffer k key_size =
     require (key_size > it_buf_size k)
       (res_bind (ResetBuffer k) (\<lambda>k.
         let (p, k) = new_array k key_size in Inr (k\<lparr>it_buf := p, it_buf_size := key_size\<rparr>)))"

definition EnlargeBufferIfNeeded :: "IterKey \<Rightarrow> nat \<Rightarrow> IterKey res" where
  "EnlargeBufferIfNeeded k key_size =
     (if key_size > it_buf_size k then EnlargeBuffer k key_size else Inr k)"

definition TrimAppend :: "IterKey \<Rightarrow> nat \<Rightarrow> ptr \<Rightarrow> nat \<Rightarrow> IterKey res" where
  "TrimAppend k shared_len non_shared_data non_shared_len =
     require (shared_len \<le> it_key_size k)
       (let total_size = shared_len + non_shared_len in
        res_bind
          (if IsKeyPinned k then
             res_bind (EnlargeBufferIfNeeded k total_size) (\<lambda>k.
               memcpy k (it_buf k) (it_key k) shared_len)
           else if total_size > it_buf_size k then
             let (p, k) = new_array k total_size in
             res_bind (memcpy k p (it_key k) shared_len) (\<lambda>k.
             res_bind (if it_buf k \<noteq> Space 0 then delete_array k (it_buf k) else Inr k) (\<lambda>k.
               Inr (k\<lparr>it_buf := p, it_buf_size := total_size\<rparr>)))
           else Inr k) (\<lambda>k.
        res_bind (memcpy k (ptr_add (it_buf k) shared_len) non_shared_data non_shared_len) (\<lambda>k.
          Inr (k\<lparr>it_key := it_buf k, it_key_size := total_size\<rparr>))))"

definition SetKeyImpl :: "IterKey \<Rightarrow> KSlice \<Rightarrow> bool \<Rightarrow> (KSlice \<times> IterKey) res" where
  "SetKeyImpl k key copy =
     (let n = snd key in
      res_bind
        (if copy then
           res_bind (EnlargeBufferIfNeeded k n) (\<lambda>k.
           res_bind (memcpy k (it_buf k) (fst key) n) (\<lambda>k.
             Inr (k\<lparr>it_key := it_buf k\<rparr>)))
         else Inr (k\<lparr>it_key := fst key\<rparr>)) (\<lambda>k.
      let k = k\<lparr>it_key_size := n\<rparr> in Inr ((it_key k, it_key_size k), k)))"

definition SetKey :: "IterKey \<Rightarrow> KSlice \<Rightarrow> bool \<Rightarrow> (KSlice \<times> IterKey) res" where
  "SetKey k key copy = SetKeyImpl k key copy"

definition SetUserKey :: "IterKey \<Rightarrow> KSlice \<Rightarrow> bool \<Rightarrow> (KSlice \<times> IterKey) res" where
  "SetUserKey k key copy = SetKeyImpl (k\<lparr>it_is_user_key := True\<rparr>) key copy"

definition SetInternalKey :: "IterKey \<Rightarrow> KSlice \<Rightarrow> bool \<Rightarrow> (KSlice \<times> IterKey) res" where
  "SetInternalKey k key copy = SetKeyImpl (k\<lparr>it_is_user_key := False\<rparr>) key copy"

text \<open>The overload that also redirects \<open>ikey->user_key\<close>: the second slice of the result.\<close>

definition SetInternalKey_ikey :: "IterKey \<Rightarrow> KSlice \<Rightarrow> (KSlice \<times> KSlice \<times> IterKey) res" where
  "SetInternalKey_ikey k key =
     (let key_n = snd key in
      require (key_n \<ge> 8)
        (res_bind (SetInternalKey k key True) (\<lambda>(s, k).
          Inr ((it_key k, key_n), (it_key k, key_n - 8), k))))"

definition it_Reserve :: "IterKey \<Rightarrow> nat \<Rightarrow> IterKey res" where
  "it_Reserve k n = res_bind (EnlargeBufferIfNeeded k n) (\<lambda>k. Inr (k\<lparr>it_key_size := n\<rparr>))"

definition OwnKey :: "IterKey \<Rightarrow> IterKey res" where
  "OwnKey k =
     require (IsKeyPinned k)
       (res_bind (it_Reserve k (it_key_size k)) (\<lambda>k.
        res_bind (memcpy k (it_buf k) (it_key k) (it_key_size k)) (\<lambda>k.
          Inr (k\<lparr>it_key := it_buf k\<rparr>))))"

definition it_UpdateInternalKey :: "bool \<Rightarrow> IterKey \<Rightarrow> u64 \<Rightarrow> ValueType \<Rightarrow> IterKey res" where
  "it_UpdateInternalKey le k seq t =
     require (\<not> IsKeyPinned k) (require (it_key_size k \<ge> 8)
       (let newval = push_bit 8 seq OR ucast t in
        store k (ptr_add (it_buf k) (it_key_size k - 8)) (map Some (EncodeFixed64 le newval))))"

definition SetInternalKey_parts ::
  "bool \<Rightarrow> IterKey \<Rightarrow> KSlice \<Rightarrow> KSlice \<Rightarrow> SequenceNumber \<Rightarrow> ValueType \<Rightarrow> KSlice option \<Rightarrow> IterKey res" where
  "SetInternalKey_parts le k key_prefix user_key s value_type ts =
     (let psize = snd key_prefix; usize = snd user_key;
          ts_sz = (case ts of None \<Rightarrow> 0 | Some t \<Rightarrow> snd t) in
      res_bind (EnlargeBufferIfNeeded k (psize + usize + 8 + ts_sz)) (\<lambda>k.
      res_bind (if psize > 0 then memcpy k (it_buf k) (fst key_prefix) psize else Inr k) (\<lambda>k.
      res_bind (memcpy k (ptr_add (it_buf k) psize) (fst user_key) usize) (\<lambda>k.
      res_bind (case ts of
                  None \<Rightarrow> Inr k
                | Some t \<Rightarrow> memcpy k (ptr_add (it_buf k) (psize + usize)) (fst t) ts_sz) (\<lambda>k.
      res_bind (PackSequenceAndType s value_type) (\<lambda>p.
      res_bind (store k (ptr_add (it_buf k) (usize + psize + ts_sz)) (map Some (EncodeFixed64 le p))) (\<lambda>k.
        Inr (k\<lparr>it_key := it_buf k, it_key_size := psize + usize + 8 + ts_sz,
               it_is_user_key := False\<rparr>))))))))"

text \<open>The default argument \<open>Slice()\<close> points at the empty literal.\<close>

definition empty_slice :: KSlice where
  "empty_slice = (Ext [0] 0, 0)"

definition SetInternalKey_user ::
  "bool \<Rightarrow> IterKey \<Rightarrow> KSlice \<Rightarrow> SequenceNumber \<Rightarrow> ValueType \<Rightarrow> KSlice option \<Rightarrow> IterKey res" where
  "SetInternalKey_user le k user_key s value_type ts =
     SetInternalKey_parts le k empty_slice user_key s value_type ts"

text \<open>
  The overloads on a \<open>ParsedInternalKey\<close> take its user key as the slice it holds, and its sequence
  number and type.
\<close>

definition SetInternalKey_prefix_parsed ::
  "bool \<Rightarrow> IterKey \<Rightarrow> KSlice \<Rightarrow> KSlice \<Rightarrow> SequenceNumber \<Rightarrow> ValueType \<Rightarrow> IterKey res" where
  "SetInternalKey_prefix_parsed le k key_prefix user_key s t =
     SetInternalKey_parts le k key_prefix user_key s t None"

definition SetInternalKey_parsed ::
  "bool \<Rightarrow> IterKey \<Rightarrow> KSlice \<Rightarrow> SequenceNumber \<Rightarrow> ValueType \<Rightarrow> IterKey res" where
  "SetInternalKey_parsed le k user_key s t = SetInternalKey_prefix_parsed le k empty_slice user_key s t"

definition EncodeLengthPrefixedKey :: "IterKey \<Rightarrow> KSlice \<Rightarrow> IterKey res" where
  "EncodeLengthPrefixedKey k key =
     (let n = snd key in
      res_bind (EnlargeBufferIfNeeded k (n + VarintLength (of_nat n))) (\<lambda>k.
      let enc = EncodeVarint32 (of_nat n) in
      res_bind (store k (it_buf k) (map Some enc)) (\<lambda>k.
      res_bind (memcpy k (ptr_add (it_buf k) (length enc)) (fst key) n) (\<lambda>k.
        Inr (k\<lparr>it_key := it_buf k, it_is_user_key := True\<rparr>)))))"

text \<open>The destructor.\<close>

definition IterKey_dtor :: "IterKey \<Rightarrow> IterKey res" where
  "IterKey_dtor k = ResetBuffer k"

section \<open>The invariant\<close>

text \<open>
  The buffer is \<open>space_\<close> with nothing allocated, or the only array allocated and not yet released,
  of \<open>buf_size_\<close> bytes.
\<close>

definition buf_wf :: "IterKey \<Rightarrow> bool" where
  "buf_wf k \<longleftrightarrow> length (it_space k) = 32 \<and>
     (case it_buf k of
        Space p \<Rightarrow> p = 0 \<and> it_buf_size k = 32 \<and> it_heap k = Map.empty
      | Heap b p \<Rightarrow> p = 0 \<and> b < it_next k \<and>
          (case it_heap k b of
             None \<Rightarrow> False
           | Some m \<Rightarrow> length m = it_buf_size k \<and> it_heap k = [b \<mapsto> m])
      | Ext m p \<Rightarrow> False)"

text \<open>The key is at the start of the buffer, or in an object of the caller, and inside it.\<close>

definition key_wf :: "IterKey \<Rightarrow> bool" where
  "key_wf k \<longleftrightarrow>
     (if IsKeyPinned k then (case it_key k of Ext m p \<Rightarrow> p + it_key_size k \<le> length m | _ \<Rightarrow> False)
      else it_key_size k \<le> it_buf_size k)"

definition iter_wf :: "IterKey \<Rightarrow> bool" where
  "iter_wf k \<longleftrightarrow> buf_wf k \<and> key_wf k"

section \<open>The buffer as one block of cells\<close>

definition bufc :: "IterKey \<Rightarrow> cell list" where
  "bufc k = (case it_buf k of Space p \<Rightarrow> it_space k | Heap b p \<Rightarrow> the (it_heap k b) | Ext m p \<Rightarrow> [])"

definition set_bufc :: "IterKey \<Rightarrow> cell list \<Rightarrow> IterKey" where
  "set_bufc k cs = (case it_buf k of
       Space p \<Rightarrow> k\<lparr>it_space := cs\<rparr>
     | Heap b p \<Rightarrow> k\<lparr>it_heap := (it_heap k)(b \<mapsto> cs)\<rparr>
     | Ext m p \<Rightarrow> k)"

definition patch :: "'a list \<Rightarrow> nat \<Rightarrow> 'a list \<Rightarrow> 'a list" where
  "patch m p cs = take p m @ cs @ drop (p + length cs) m"

lemma length_patch [simp]: "p + length cs \<le> length m \<Longrightarrow> length (patch m p cs) = length m"
  by (simp add: patch_def)

lemma take_patch_end:
  "p + length cs \<le> length m \<Longrightarrow> take (p + length cs) (patch m p cs) = take p m @ cs"
  by (simp add: patch_def)

lemma take_patch_before: "n \<le> p \<Longrightarrow> p \<le> length m \<Longrightarrow> take n (patch m p cs) = take n m"
  by (simp add: patch_def)

lemma buf_wf_cases:
  assumes "buf_wf k"
  obtains "it_buf k = Space 0" "it_buf_size k = 32" "length (it_space k) = 32" "it_heap k = Map.empty"
  | b m where "it_buf k = Heap b 0" "it_heap k = [b \<mapsto> m]" "length m = it_buf_size k" "b < it_next k"
      "length (it_space k) = 32"
proof (cases "it_buf k")
  case (Heap b p)
  with assms obtain m where "it_heap k b = Some m" by (cases "it_heap k b") (auto simp: buf_wf_def)
  with Heap assms that(2) show ?thesis by (simp add: buf_wf_def)
qed (use assms that(1) in \<open>auto simp: buf_wf_def\<close>)

lemma set_bufc_fields [simp]:
  "it_buf (set_bufc k cs) = it_buf k" "it_key (set_bufc k cs) = it_key k"
  "it_key_size (set_bufc k cs) = it_key_size k" "it_buf_size (set_bufc k cs) = it_buf_size k"
  "it_is_user_key (set_bufc k cs) = it_is_user_key k"
  by (simp_all add: set_bufc_def split: ptr.split)

lemma bufc_set_bufc [simp]: "buf_wf k \<Longrightarrow> bufc (set_bufc k cs) = cs"
  by (erule buf_wf_cases) (simp_all add: bufc_def set_bufc_def)

lemma length_bufc [simp]: "buf_wf k \<Longrightarrow> length (bufc k) = it_buf_size k"
  by (erule buf_wf_cases) (simp_all add: bufc_def)

lemma buf_wf_set_bufc [simp]:
  "buf_wf k \<Longrightarrow> length cs = it_buf_size k \<Longrightarrow> buf_wf (set_bufc k cs)"
  by (erule buf_wf_cases) (simp_all add: buf_wf_def set_bufc_def)

text \<open>The fields that say where the key is do not affect the buffer.\<close>

lemma buf_wf_update [simp]:
  "buf_wf (k\<lparr>it_key := p\<rparr>) = buf_wf k" "buf_wf (k\<lparr>it_key_size := n\<rparr>) = buf_wf k"
  "buf_wf (k\<lparr>it_is_user_key := u\<rparr>) = buf_wf k"
  by (simp_all add: buf_wf_def split: ptr.split option.split)

lemma bufc_update [simp]:
  "bufc (k\<lparr>it_key := p\<rparr>) = bufc k" "bufc (k\<lparr>it_key_size := n\<rparr>) = bufc k"
  "bufc (k\<lparr>it_is_user_key := u\<rparr>) = bufc k"
  by (simp_all add: bufc_def split: ptr.split)

lemma load_update [simp]:
  "load (k\<lparr>it_key := x\<rparr>) p n = load k p n" "load (k\<lparr>it_key_size := m\<rparr>) p n = load k p n"
  "load (k\<lparr>it_is_user_key := u\<rparr>) p n = load k p n"
  by (cases p; simp)+

lemma key_wf_user [simp]: "key_wf (k\<lparr>it_is_user_key := u\<rparr>) = key_wf k"
  by (simp add: key_wf_def IsKeyPinned_def split: ptr.split)

lemma key_wf_clear: "key_wf k \<Longrightarrow> key_wf (k\<lparr>it_key_size := 0\<rparr>)"
  by (cases "it_key k") (simp_all add: key_wf_def IsKeyPinned_def split: if_splits)

lemma load_0: "load k p n = Inr cs \<Longrightarrow> load k p 0 = Inr []"
  by (cases p) (auto simp: read_bytes_def split: option.splits if_splits)

lemma ptr_add_0 [simp]: "ptr_add p 0 = p"
  by (cases p) simp_all

lemma load_buf:
  assumes "buf_wf k" shows "load k (it_buf k) n = read_bytes (bufc k) 0 n"
  using assms by (rule buf_wf_cases) (simp_all add: bufc_def)

lemma store_buf:
  assumes "buf_wf k" "p + length cs \<le> it_buf_size k"
  shows "store k (ptr_add (it_buf k) p) cs = Inr (set_bufc k (patch (bufc k) p cs))"
  using assms(1)
  by (rule buf_wf_cases) (use assms(2) in \<open>simp_all add: bufc_def set_bufc_def patch_def write_bytes_ok\<close>)

section \<open>Copies from memory of the caller\<close>

text \<open>\<open>ext_slice s bs\<close>: the slice \<open>s\<close> lies in an object of the caller and its bytes are \<open>bs\<close>.\<close>

fun ext_slice :: "KSlice \<Rightarrow> byte list \<Rightarrow> bool" where
  "ext_slice (Ext m p, n) bs \<longleftrightarrow> p + n \<le> length m \<and> bs = take n (drop p m)"
| "ext_slice s bs \<longleftrightarrow> False"

lemma ext_sliceE:
  assumes "ext_slice s bs"
  obtains m p where "s = (Ext m p, length bs)" "p + length bs \<le> length m" "bs = take (length bs) (drop p m)"
  using assms by (cases "(s, bs)" rule: ext_slice.cases) auto

lemma load_ext: "ext_slice s bs \<Longrightarrow> load k (fst s) (length bs) = Inr (map Some bs)"
  by (erule ext_sliceE) (auto simp: take_map drop_map)

lemma ext_slice_size: "ext_slice s bs \<Longrightarrow> snd s = length bs"
  by (erule ext_sliceE) simp

lemma memcpy_ext:
  assumes "buf_wf k" "ext_slice s bs" "p + length bs \<le> it_buf_size k"
  shows "memcpy k (ptr_add (it_buf k) p) (fst s) (length bs)
       = Inr (set_bufc k (patch (bufc k) p (map Some bs)))"
proof -
  from assms(2) have "\<not> overlaps (ptr_add (it_buf k) p) (fst s) (length bs)"
    by (elim ext_sliceE) (cases "it_buf k"; simp)
  with assms show ?thesis by (simp add: memcpy_def load_ext store_buf)
qed

lemmas memcpy_ext_0 = memcpy_ext [where p = 0, unfolded ptr_add_0]

section \<open>Growing the buffer\<close>

definition enlarged :: "IterKey \<Rightarrow> nat \<Rightarrow> IterKey" where
  "enlarged k n =
     (if n > it_buf_size k then
        k\<lparr>it_buf := Heap (it_next k) 0, it_heap := [it_next k \<mapsto> replicate n None],
          it_next := Suc (it_next k), it_buf_size := n, it_key_size := 0\<rparr>
      else k)"

lemma ResetBuffer_ok:
  assumes "buf_wf k"
  shows "ResetBuffer k = Inr (k\<lparr>it_buf := Space 0, it_heap := Map.empty, it_buf_size := 32, it_key_size := 0\<rparr>)"
  using assms by (rule buf_wf_cases) (simp_all add: ResetBuffer_def)

lemma EnlargeBufferIfNeeded_ok:
  "buf_wf k \<Longrightarrow> EnlargeBufferIfNeeded k n = Inr (enlarged k n)"
  by (simp add: EnlargeBufferIfNeeded_def EnlargeBuffer_def enlarged_def ResetBuffer_ok new_array_def)

lemma enlarged_fields [simp]:
  "it_key (enlarged k n) = it_key k" "it_is_user_key (enlarged k n) = it_is_user_key k"
  by (simp_all add: enlarged_def)

lemma buf_wf_enlarged [simp]: "buf_wf k \<Longrightarrow> buf_wf (enlarged k n)"
  by (auto simp: enlarged_def buf_wf_def)

lemma enlarged_size: "n \<le> it_buf_size (enlarged k n)"
  by (simp add: enlarged_def)


section \<open>What the object holds\<close>

text \<open>\<open>holds k bs u\<close>: the invariant, the bytes of the current key, and whether it is a user key.\<close>

definition holds :: "IterKey \<Rightarrow> byte list \<Rightarrow> bool \<Rightarrow> bool" where
  "holds k bs u \<longleftrightarrow> iter_wf k \<and> load k (it_key k) (it_key_size k) = Inr (map Some bs) \<and> it_is_user_key k = u"

lemma holds_bufI:
  assumes "buf_wf k" "it_key k = it_buf k" "it_key_size k = length bs" "length bs \<le> it_buf_size k"
    "take (length bs) (bufc k) = map Some bs" "it_is_user_key k = u"
  shows "holds k bs u \<and> \<not> IsKeyPinned k"
  using assms by (simp add: holds_def iter_wf_def key_wf_def IsKeyPinned_def load_buf)

lemma holds_length: "holds k bs u \<Longrightarrow> length bs = it_key_size k"
proof -
  have len: "length x = n" if "load k p n = Inr x" for p n x
    using that by (cases p) (auto simp: read_bytes_Inr_iff split: option.splits)
  assume "holds k bs u"
  then show ?thesis using len [of "it_key k" "it_key_size k" "map Some bs"] by (simp add: holds_def)
qed

lemma holds_buf_wf [simp]: "holds k bs u \<Longrightarrow> buf_wf k"
  by (simp add: holds_def iter_wf_def)

lemma holds_pinned_ext:
  assumes "holds k bs u" "IsKeyPinned k" "n \<le> length bs"
  shows "ext_slice (it_key k, n) (take n bs)"
proof -
  have n: "n \<le> it_key_size k" using assms(1,3) by (simp add: holds_length)
  have key: "(case it_key k of Ext m p \<Rightarrow> p + it_key_size k \<le> length m | _ \<Rightarrow> False)"
    and ld: "load k (it_key k) (it_key_size k) = Inr (map Some bs)"
    using assms(1,2) by (auto simp: holds_def iter_wf_def key_wf_def)
  from key obtain m p where e: "it_key k = Ext m p" "p + it_key_size k \<le> length m"
    by (cases "it_key k") auto
  with ld have "bs = take (it_key_size k) (drop p m)"
    by (simp add: take_map drop_map inj_map_eq_map)
  with e n show ?thesis by (simp add: min_def)
qed

lemma holds_buf:
  assumes "holds k bs u" "\<not> IsKeyPinned k"
  shows "it_key k = it_buf k" "length bs \<le> it_buf_size k" "take (length bs) (bufc k) = map Some bs"
proof -
  show key: "it_key k = it_buf k" using assms(2) by (simp add: IsKeyPinned_def)
  have "it_key_size k \<le> it_buf_size k" using assms by (simp add: holds_def iter_wf_def key_wf_def)
  then show len: "length bs \<le> it_buf_size k" using assms(1) by (simp add: holds_length)
  from assms(1) have "load k (it_buf k) (length bs) = Inr (map Some bs)"
    by (simp add: holds_length flip: key) (simp add: holds_def)
  with len assms(1) show "take (length bs) (bufc k) = map Some bs" by (simp add: load_buf)
qed

section \<open>Setting a key\<close>

lemma SetKeyImpl_copy:
  assumes "buf_wf k" "ext_slice s bs"
  shows "\<exists>k'. SetKeyImpl k s True = Inr (GetKey k', k') \<and> holds k' bs (it_is_user_key k) \<and> \<not> IsKeyPinned k'"
proof -
  let ?k = "set_bufc (enlarged k (length bs)) (patch (bufc (enlarged k (length bs))) 0 (map Some bs))"
  let ?k' = "?k\<lparr>it_key := it_buf ?k, it_key_size := length bs\<rparr>"
  have "SetKeyImpl k s True = Inr (GetKey ?k', ?k')"
    using assms by (simp add: SetKeyImpl_def EnlargeBufferIfNeeded_ok memcpy_ext_0 ext_slice_size
        enlarged_size GetKey_def Let_def)
  moreover have "holds ?k' bs (it_is_user_key k) \<and> \<not> IsKeyPinned ?k'"
    using assms enlarged_size [of "length bs" k]
      take_patch_end [of 0 "map Some bs" "bufc (enlarged k (length bs))"]
    by (intro holds_bufI) simp_all
  ultimately show ?thesis by blast
qed

lemma SetKeyImpl_pin:
  assumes "buf_wf k" "ext_slice s bs"
  shows "\<exists>k'. SetKeyImpl k s False = Inr (GetKey k', k') \<and> holds k' bs (it_is_user_key k) \<and> IsKeyPinned k'"
proof -
  let ?k' = "k\<lparr>it_key := fst s, it_key_size := length bs\<rparr>"
  have "it_buf k \<noteq> fst s" using assms by (elim buf_wf_cases ext_sliceE) simp_all
  then have pin: "IsKeyPinned ?k'" by (auto simp: IsKeyPinned_def)
  moreover have "SetKeyImpl k s False = Inr (GetKey ?k', ?k')"
    using assms by (simp add: SetKeyImpl_def ext_slice_size GetKey_def Let_def)
  moreover have "key_wf ?k'" unfolding key_wf_def using assms(2) pin by (elim ext_sliceE) simp
  then have "holds ?k' bs (it_is_user_key k)"
    using assms by (simp add: holds_def iter_wf_def load_ext)
  ultimately show ?thesis by blast
qed

lemma OwnKey_ok:
  assumes h: "holds k bs u" and "IsKeyPinned k"
  shows "\<exists>k'. OwnKey k = Inr k' \<and> holds k' bs u \<and> \<not> IsKeyPinned k'"
proof -
  let ?n = "length bs"
  let ?e = "enlarged k ?n\<lparr>it_key_size := ?n\<rparr>"
  let ?k = "set_bufc ?e (patch (bufc ?e) 0 (map Some bs))"
  let ?k' = "?k\<lparr>it_key := it_buf ?k\<rparr>"
  have ext: "ext_slice (it_key k, ?n) bs" using holds_pinned_ext [OF assms, of ?n] by simp
  have cp: "memcpy ?e (it_buf ?e) (it_key k) ?n = Inr ?k"
    using memcpy_ext_0 [of ?e "(it_key k, ?n)" bs] ext h enlarged_size [of ?n k] by simp
  have "OwnKey k = Inr ?k'"
    using assms cp by (simp add: OwnKey_def it_Reserve_def EnlargeBufferIfNeeded_ok holds_length)
  moreover have "holds ?k' bs u \<and> \<not> IsKeyPinned ?k'"
    using h enlarged_size [of ?n k] take_patch_end [of 0 "map Some bs" "bufc (enlarged k ?n)"]
    by (intro holds_bufI) (simp_all add: holds_def)
  ultimately show ?thesis by blast
qed

section \<open>Appending to a prefix of the key\<close>

text \<open>The state once the first \<open>shared_len\<close> bytes are in a buffer with room for \<open>total_size\<close> bytes.\<close>

lemma TrimAppend_pinned:
  assumes h: "holds k old u" and "IsKeyPinned k" "shared \<le> length old"
  shows "\<exists>k'. res_bind (EnlargeBufferIfNeeded k (shared + n)) (\<lambda>k. memcpy k (it_buf k) (it_key k) shared) = Inr k' \<and>
    buf_wf k' \<and> shared + n \<le> it_buf_size k' \<and> take shared (bufc k') = map Some (take shared old) \<and>
    it_is_user_key k' = u"
proof -
  let ?e = "enlarged k (shared + n)" and ?bs = "take shared old"
  have len: "length ?bs = shared" using assms(3) by simp
  have sz: "shared + n \<le> it_buf_size ?e" by (rule enlarged_size)
  have "memcpy ?e (it_buf ?e) (it_key ?e) shared = Inr (set_bufc ?e (patch (bufc ?e) 0 (map Some ?bs)))"
    using memcpy_ext_0 [of ?e "(it_key k, shared)" ?bs] holds_pinned_ext [OF assms] h len sz by simp
  moreover have "take shared (patch (bufc ?e) 0 (map Some ?bs)) = map Some ?bs"
    using take_patch_end [of 0 "map Some ?bs" "bufc ?e"] len sz h by simp
  ultimately show ?thesis
    using h sz len by (simp add: EnlargeBufferIfNeeded_ok) (simp add: holds_def)
qed

lemma TrimAppend_grow:
  assumes h: "holds k old u" and "\<not> IsKeyPinned k" "shared \<le> length old" "shared \<le> tot"
  shows "\<exists>k'. (let (p, k) = new_array k tot in
             res_bind (memcpy k p (it_key k) shared) (\<lambda>k.
             res_bind (if it_buf k \<noteq> Space 0 then delete_array k (it_buf k) else Inr k) (\<lambda>k.
               Inr (k\<lparr>it_buf := p, it_buf_size := tot\<rparr>)))) = Inr k' \<and>
    buf_wf k' \<and> tot \<le> it_buf_size k' \<and> take shared (bufc k') = map Some (take shared old) \<and>
    it_is_user_key k' = u"
proof -
  note hb = holds_buf [OF assms(1,2)]
  have "take shared (map Some old) = take shared (bufc k)"
    using hb(3) assms(3) by (metis min.absorb1 take_take)
  then have pre: "take shared (bufc k) = map Some (take shared old)" by (simp add: take_map)
  have u: "it_is_user_key k = u" using h by (simp add: holds_def)
  have "buf_wf k" using h by simp
  then show ?thesis
    by (rule buf_wf_cases)
      (use hb(1,2) assms(3,4) pre u in \<open>auto simp: new_array_def memcpy_def bufc_def buf_wf_def write_bytes_ok\<close>)
qed

lemma TrimAppend_ok:
  assumes h: "holds k old u" and "shared \<le> length old" and ext: "ext_slice (d, length bs) bs"
  shows "\<exists>k'. TrimAppend k shared d (length bs) = Inr k' \<and> holds k' (take shared old @ bs) u \<and> \<not> IsKeyPinned k'"
proof -
  let ?n = "shared + length bs"
  let ?m = "if IsKeyPinned k then
             res_bind (EnlargeBufferIfNeeded k ?n) (\<lambda>k. memcpy k (it_buf k) (it_key k) shared)
           else if ?n > it_buf_size k then
             let (p, k) = new_array k ?n in
             res_bind (memcpy k p (it_key k) shared) (\<lambda>k.
             res_bind (if it_buf k \<noteq> Space 0 then delete_array k (it_buf k) else Inr k) (\<lambda>k.
               Inr (k\<lparr>it_buf := p, it_buf_size := ?n\<rparr>)))
           else Inr k"
  have "take shared (bufc k) = map Some (take shared old)" if "\<not> IsKeyPinned k"
    using holds_buf(3) [OF h that] assms(2) by (metis min.absorb1 take_take take_map)
  then obtain k1 where k1: "?m = Inr k1" "buf_wf k1" "?n \<le> it_buf_size k1"
    "take shared (bufc k1) = map Some (take shared old)" "it_is_user_key k1 = u"
    using TrimAppend_pinned [OF h _ assms(2), of "length bs"] TrimAppend_grow [OF h _ assms(2), of ?n] h
    by (cases "IsKeyPinned k"; cases "?n > it_buf_size k") (auto simp: holds_def)
  let ?k = "set_bufc k1 (patch (bufc k1) shared (map Some bs))"
  let ?k' = "?k\<lparr>it_key := it_buf ?k, it_key_size := ?n\<rparr>"
  have cp: "memcpy k1 (ptr_add (it_buf k1) shared) d (length bs) = Inr ?k"
    using memcpy_ext [OF k1(2) ext, of shared] k1(3) by simp
  have "TrimAppend k shared d (length bs) = Inr ?k'"
    unfolding TrimAppend_def Let_def [of ?n] k1(1)
    using cp h assms(2) by (simp add: holds_length)
  moreover have "holds ?k' (take shared old @ bs) u \<and> \<not> IsKeyPinned ?k'"
    using k1 assms(2) take_patch_end [of shared "map Some bs" "bufc k1"]
    by (intro holds_bufI) (simp_all add: ac_simps)
  ultimately show ?thesis by blast
qed


section \<open>Composing an internal key in the buffer\<close>

text \<open>\<open>filled n k cs\<close>: a buffer of at least \<open>n\<close> bytes that starts with \<open>cs\<close>.\<close>

definition filled :: "nat \<Rightarrow> IterKey \<Rightarrow> cell list \<Rightarrow> bool" where
  "filled n k cs \<longleftrightarrow> buf_wf k \<and> n \<le> it_buf_size k \<and> length cs \<le> n \<and> take (length cs) (bufc k) = cs"

lemma filled_enlarged: "buf_wf k \<Longrightarrow> filled n (enlarged k n) []"
  by (simp add: filled_def enlarged_size)

lemma filled_store:
  assumes "filled n k cs" "length cs + length ds \<le> n"
  shows "\<exists>k'. store k (ptr_add (it_buf k) (length cs)) ds = Inr k' \<and> filled n k' (cs @ ds) \<and>
    it_buf k' = it_buf k \<and> it_key_size k' = it_key_size k"
  using assms take_patch_end [of "length cs" ds "bufc k"]
  by (simp add: filled_def store_buf)

lemma filled_memcpy:
  assumes "filled n k (map Some cs)" "length cs + length bs \<le> n" "ext_slice s bs"
  shows "\<exists>k'. memcpy k (ptr_add (it_buf k) (length cs)) (fst s) (length bs) = Inr k' \<and>
    filled n k' (map Some (cs @ bs)) \<and> it_buf k' = it_buf k \<and> it_key_size k' = it_key_size k"
  using assms take_patch_end [of "length cs" "map Some bs" "bufc k"]
  by (simp add: filled_def memcpy_ext)

lemma filled_holds:
  assumes "filled n k (map Some bs)"
  shows "holds (k\<lparr>it_key := it_buf k, it_key_size := length bs, it_is_user_key := u\<rparr>) bs u \<and>
    \<not> IsKeyPinned (k\<lparr>it_key := it_buf k, it_key_size := length bs, it_is_user_key := u\<rparr>)"
  using assms by (intro holds_bufI) (simp_all add: filled_def)

fun ext_opt :: "KSlice option \<Rightarrow> byte list \<Rightarrow> bool" where
  "ext_opt None bs \<longleftrightarrow> bs = []"
| "ext_opt (Some s) bs \<longleftrightarrow> ext_slice s bs"

lemma ext_opt_size: "ext_opt ts tb \<Longrightarrow> (case ts of None \<Rightarrow> 0 | Some t \<Rightarrow> snd t) = length tb"
  by (cases ts) (simp_all add: ext_slice_size)

lemma filled_prefix:
  assumes "filled n k []" "length bs \<le> n" "ext_slice s bs"
  shows "\<exists>k'. (if 0 < length bs then memcpy k (it_buf k) (fst s) (length bs) else Inr k) = Inr k' \<and>
    filled n k' (map Some bs) \<and> it_buf k' = it_buf k"
  using filled_memcpy [of n k "[]" bs s] assms by auto

lemma filled_opt:
  assumes "filled n k (map Some cs)" "length cs + length tb \<le> n" "ext_opt ts tb"
  shows "\<exists>k'. (case ts of None \<Rightarrow> Inr k
                 | Some t \<Rightarrow> memcpy k (ptr_add (it_buf k) (length cs)) (fst t) (length tb)) = Inr k' \<and>
    filled n k' (map Some (cs @ tb)) \<and> it_buf k' = it_buf k"
  using filled_memcpy [of n k cs tb] assms by (cases ts) fastforce+

text \<open>The copies of \<open>SetInternalKey\<close> always succeed; what is left is packing and storing the trailer.\<close>

lemma SetInternalKey_parts_copies:
  assumes "buf_wf k" "ext_slice ps pb" "ext_slice us ub" "ext_opt ts tb"
  defines "n \<equiv> length pb + length ub + 8 + length tb"
  shows "\<exists>k'. filled n k' (map Some (pb @ ub @ tb)) \<and>
    SetInternalKey_parts le k ps us s t ts =
      res_bind (PackSequenceAndType s t) (\<lambda>p.
      res_bind (store k' (ptr_add (it_buf k') (length ub + length pb + length tb))
          (map Some (EncodeFixed64 le p))) (\<lambda>k.
        Inr (k\<lparr>it_key := it_buf k, it_key_size := n, it_is_user_key := False\<rparr>)))"
proof -
  obtain k1 where k1: "EnlargeBufferIfNeeded k n = Inr k1" "filled n k1 []"
    using assms(1) by (simp add: EnlargeBufferIfNeeded_ok filled_enlarged)
  obtain k2 where k2: "(if 0 < length pb then memcpy k1 (it_buf k1) (fst ps) (length pb) else Inr k1) = Inr k2"
    "filled n k2 (map Some pb)"
    using filled_prefix [OF k1(2) _ assms(2)] by (auto simp: n_def)
  obtain k3 where k3: "memcpy k2 (ptr_add (it_buf k2) (length pb)) (fst us) (length ub) = Inr k3"
    "filled n k3 (map Some (pb @ ub))"
    using filled_memcpy [OF k2(2) _ assms(3)] by (auto simp: n_def)
  obtain k4 where k4: "(case ts of None \<Rightarrow> Inr k3
      | Some t \<Rightarrow> memcpy k3 (ptr_add (it_buf k3) (length (pb @ ub))) (fst t) (length tb)) = Inr k4"
    "filled n k4 (map Some ((pb @ ub) @ tb))"
    using filled_opt [OF k3(2) _ assms(4)] by (auto simp: n_def)
  have "SetInternalKey_parts le k ps us s t ts =
      res_bind (PackSequenceAndType s t) (\<lambda>p.
      res_bind (store k4 (ptr_add (it_buf k4) (length ub + length pb + length tb))
          (map Some (EncodeFixed64 le p))) (\<lambda>k.
        Inr (k\<lparr>it_key := it_buf k, it_key_size := n, it_is_user_key := False\<rparr>)))"
    by (simp only: SetInternalKey_parts_def Let_def ext_slice_size [OF assms(2)] ext_slice_size [OF assms(3)]
        ext_opt_size [OF assms(4)] n_def [symmetric] k1(1) k2(1) k3(1) k4(1) [unfolded length_append] res_bind_Inr)
  with k4(2) show ?thesis unfolding append.assoc by blast
qed

lemma SetInternalKey_parts_ok:
  assumes "buf_wf k" "ext_slice ps pb" "ext_slice us ub" "ext_opt ts tb"
    and p: "PackSequenceAndType s t = Inr p"
  shows "\<exists>k'. SetInternalKey_parts le k ps us s t ts = Inr k' \<and>
    holds k' (pb @ ub @ tb @ le_bytes 8 p) False \<and> \<not> IsKeyPinned k'"
proof -
  let ?n = "length pb + length ub + 8 + length tb"
  obtain k4 where k4: "filled ?n k4 (map Some (pb @ ub @ tb))"
    "SetInternalKey_parts le k ps us s t ts =
      res_bind (store k4 (ptr_add (it_buf k4) (length ub + length pb + length tb))
          (map Some (EncodeFixed64 le p))) (\<lambda>k.
        Inr (k\<lparr>it_key := it_buf k, it_key_size := ?n, it_is_user_key := False\<rparr>))"
    using SetInternalKey_parts_copies [OF assms(1-4), of le s t] unfolding p res_bind_Inr by blast
  obtain k5 where k5: "store k4 (ptr_add (it_buf k4) (length ub + length pb + length tb))
      (map Some (EncodeFixed64 le p)) = Inr k5"
    "filled ?n k5 (map Some (pb @ ub @ tb @ le_bytes 8 p))"
    using filled_store [OF k4(1), of "map Some (EncodeFixed64 le p)"] by (auto simp: codec_simps ac_simps)
  have "length (pb @ ub @ tb @ le_bytes 8 p) = ?n" by simp
  then show ?thesis
    using filled_holds [OF k5(2), of False] unfolding k4(2) k5(1) res_bind_Inr by metis
qed

lemma SetInternalKey_parts_fault:
  assumes "buf_wf k" "ext_slice ps pb" "ext_slice us ub" "ext_opt ts tb"
    and p: "PackSequenceAndType s t = Inl e"
  shows "SetInternalKey_parts le k ps us s t ts = Inl e"
  using SetInternalKey_parts_copies [OF assms(1-4), of le s t] by (auto simp: p)

lemma it_UpdateInternalKey_ok:
  assumes h: "holds k bs u" and "\<not> IsKeyPinned k" and "8 \<le> length bs"
  shows "\<exists>k'. it_UpdateInternalKey le k seq t = Inr k' \<and>
    holds k' (take (length bs - 8) bs @ le_bytes 8 (push_bit 8 seq OR ucast t :: u64)) u \<and>
    it_key k' = it_key k \<and> it_key_size k' = it_key_size k \<and> \<not> IsKeyPinned k'"
proof -
  note hb = holds_buf [OF assms(1,2)]
  let ?q = "length bs - 8" and ?v = "map Some (le_bytes 8 (push_bit 8 seq OR ucast t :: u64))"
  let ?k = "set_bufc k (patch (bufc k) ?q ?v)"
  have st: "store k (ptr_add (it_buf k) ?q) ?v = Inr ?k"
    using h hb(2) assms(3) by (intro store_buf) simp_all
  have tk: "take ?q (bufc k) = map Some (take ?q bs)"
    using arg_cong [OF hb(3), of "take ?q"] by (simp add: take_map)
  have "take (length bs) (patch (bufc k) ?q ?v) = take ?q (bufc k) @ ?v"
    using take_patch_end [of ?q ?v "bufc k"] assms(3) hb(2) h by simp
  moreover have "it_UpdateInternalKey le k seq t = Inr ?k"
    using st assms by (simp add: it_UpdateInternalKey_def holds_length codec_simps)
  moreover have "holds ?k (take ?q bs @ le_bytes 8 (push_bit 8 seq OR ucast t :: u64)) u \<and> \<not> IsKeyPinned ?k"
    using calculation(1) tk hb h assms(3)
    by (intro holds_bufI) (simp_all add: holds_length, simp_all add: holds_def)
  ultimately show ?thesis by auto
qed

section \<open>The abstract key\<close>

text \<open>
  What a client may think an \<open>IterKey\<close> is: the bytes of the key, whether they are a user key, and
  whether they are memory of the client. The client's operations, with slices into its own memory:
\<close>

datatype iter_op =
    OpSetIsUserKey bool
  | OpClear
  | OpTrimAppend nat ptr nat
  | OpSetKey KSlice bool
  | OpSetUserKey KSlice bool
  | OpSetInternalKey KSlice bool
  | OpSetInternalKey_ikey KSlice
  | OpSetInternalKey_parts KSlice KSlice SequenceNumber ValueType "KSlice option"
  | OpOwnKey
  | OpUpdateInternalKey u64 ValueType

fun exec_op :: "bool \<Rightarrow> iter_op \<Rightarrow> IterKey \<Rightarrow> IterKey res" where
  "exec_op le (OpSetIsUserKey b) k = Inr (SetIsUserKey k b)"
| "exec_op le OpClear k = Inr (it_Clear k)"
| "exec_op le (OpTrimAppend shared d n) k = TrimAppend k shared d n"
| "exec_op le (OpSetKey s c) k = res_bind (SetKey k s c) (\<lambda>(r, k). Inr k)"
| "exec_op le (OpSetUserKey s c) k = res_bind (SetUserKey k s c) (\<lambda>(r, k). Inr k)"
| "exec_op le (OpSetInternalKey s c) k = res_bind (SetInternalKey k s c) (\<lambda>(r, k). Inr k)"
| "exec_op le (OpSetInternalKey_ikey s) k = res_bind (SetInternalKey_ikey k s) (\<lambda>(r, uk, k). Inr k)"
| "exec_op le (OpSetInternalKey_parts ps us s t ts) k = SetInternalKey_parts le k ps us s t ts"
| "exec_op le OpOwnKey k = OwnKey k"
| "exec_op le (OpUpdateInternalKey seq t) k = it_UpdateInternalKey le k seq t"

type_synonym abs_key = "byte list \<times> bool \<times> bool"

fun ext_bytes :: "KSlice \<Rightarrow> byte list" where
  "ext_bytes (Ext m p, n) = take n (drop p m)"
| "ext_bytes s = []"

fun spec_op :: "iter_op \<Rightarrow> abs_key \<Rightarrow> abs_key res" where
  "spec_op (OpSetIsUserKey b) (bs, u, pin) = Inr (bs, b, pin)"
| "spec_op OpClear (bs, u, pin) = Inr ([], u, pin)"
| "spec_op (OpTrimAppend shared d n) (bs, u, pin) =
     require (shared \<le> length bs) (Inr (take shared bs @ ext_bytes (d, n), u, False))"
| "spec_op (OpSetKey s c) (bs, u, pin) = Inr (ext_bytes s, u, \<not> c)"
| "spec_op (OpSetUserKey s c) (bs, u, pin) = Inr (ext_bytes s, True, \<not> c)"
| "spec_op (OpSetInternalKey s c) (bs, u, pin) = Inr (ext_bytes s, False, \<not> c)"
| "spec_op (OpSetInternalKey_ikey s) (bs, u, pin) =
     require (snd s \<ge> 8) (Inr (ext_bytes s, False, False))"
| "spec_op (OpSetInternalKey_parts ps us s t ts) (bs, u, pin) =
     res_bind (PackSequenceAndType s t) (\<lambda>p.
       Inr (ext_bytes ps @ ext_bytes us @ (case ts of None \<Rightarrow> [] | Some x \<Rightarrow> ext_bytes x) @ le_bytes 8 p,
            False, False))"
| "spec_op OpOwnKey (bs, u, pin) = require pin (Inr (bs, u, False))"
| "spec_op (OpUpdateInternalKey seq t) (bs, u, pin) =
     require (\<not> pin) (require (8 \<le> length bs)
       (Inr (take (length bs - 8) bs @ le_bytes 8 (push_bit 8 seq OR ucast t :: u64), u, False)))"

text \<open>The slices of an operation lie inside objects of the client.\<close>

definition in_client :: "KSlice \<Rightarrow> bool" where
  "in_client s \<longleftrightarrow> ext_slice s (ext_bytes s)"

fun op_ok :: "iter_op \<Rightarrow> bool" where
  "op_ok (OpTrimAppend shared d n) = in_client (d, n)"
| "op_ok (OpSetKey s c) = in_client s"
| "op_ok (OpSetUserKey s c) = in_client s"
| "op_ok (OpSetInternalKey s c) = in_client s"
| "op_ok (OpSetInternalKey_ikey s) = in_client s"
| "op_ok (OpSetInternalKey_parts ps us s t ts) =
     (in_client ps \<and> in_client us \<and> (case ts of None \<Rightarrow> True | Some x \<Rightarrow> in_client x))"
| "op_ok _ = True"

fun exec_ops :: "bool \<Rightarrow> iter_op list \<Rightarrow> IterKey \<Rightarrow> IterKey res" where
  "exec_ops le [] k = Inr k"
| "exec_ops le (x # xs) k = res_bind (exec_op le x k) (exec_ops le xs)"

fun spec_ops :: "iter_op list \<Rightarrow> abs_key \<Rightarrow> abs_key res" where
  "spec_ops [] a = Inr a"
| "spec_ops (x # xs) a = res_bind (spec_op x a) (spec_ops xs)"

definition iter_rel :: "IterKey \<Rightarrow> abs_key \<Rightarrow> bool" where
  "iter_rel k a \<longleftrightarrow> (case a of (bs, u, pin) \<Rightarrow> holds k bs u \<and> IsKeyPinned k = pin)"

text \<open>Related results: the same fault, or related states.\<close>

definition rel_res :: "IterKey res \<Rightarrow> abs_key res \<Rightarrow> bool" where
  "rel_res r ar \<longleftrightarrow> (case ar of Inl e \<Rightarrow> r = Inl e | Inr a \<Rightarrow> (\<exists>k. r = Inr k \<and> iter_rel k a))"

lemma rel_res_simps [simp]:
  "rel_res r (Inl e) \<longleftrightarrow> r = Inl e" "rel_res (Inr k) (Inr a) \<longleftrightarrow> iter_rel k a"
  by (simp_all add: rel_res_def)

lemma rel_resI: "\<exists>k. r = Inr k \<and> holds k bs u \<and> IsKeyPinned k = pin \<Longrightarrow> rel_res r (Inr (bs, u, pin))"
  by (simp add: rel_res_def iter_rel_def)

lemma rel_res_bind:
  assumes "rel_res r ar" and "\<And>k a. iter_rel k a \<Longrightarrow> rel_res (f k) (g a)"
  shows "rel_res (res_bind r f) (res_bind ar g)"
proof (cases ar)
  case (Inr a)
  with assms(1) obtain k where "r = Inr k" "iter_rel k a" by (auto simp: rel_res_def)
  with Inr assms(2) show ?thesis by simp
qed (use assms(1) in simp)

lemma SetKeyImpl_rel:
  assumes "buf_wf k" "in_client s"
  shows "rel_res (res_bind (SetKeyImpl k s c) (\<lambda>(r, k). Inr k)) (Inr (ext_bytes s, it_is_user_key k, \<not> c))"
  using SetKeyImpl_copy [of k s "ext_bytes s"] SetKeyImpl_pin [of k s "ext_bytes s"] assms
  by (intro rel_resI) (cases c; auto simp: in_client_def)

lemma OpTrimAppend_simulation:
  assumes h: "holds k bs u" "IsKeyPinned k = pin" and ok: "op_ok (OpTrimAppend shared d n)"
  shows "rel_res (exec_op le (OpTrimAppend shared d n) k) (spec_op (OpTrimAppend shared d n) (bs, u, pin))"
proof -
  have "snd (d, n) = length (ext_bytes (d, n))" using ok by (intro ext_slice_size) (simp add: in_client_def)
  then have n: "length (ext_bytes (d, n)) = n" by simp
  show ?thesis
  proof (cases "shared \<le> length bs")
    case True
    then show ?thesis
      using TrimAppend_ok [OF h(1) True, of d "ext_bytes (d, n)"] ok n by (simp add: in_client_def) (rule rel_resI, blast)
  next
    case False
    then show ?thesis using h(1) by (simp add: TrimAppend_def holds_length)
  qed
qed

lemma OpSetInternalKey_parts_simulation:
  assumes "buf_wf k" and ok: "op_ok (OpSetInternalKey_parts ps us s t ts)"
  shows "rel_res (exec_op le (OpSetInternalKey_parts ps us s t ts) k) (spec_op (OpSetInternalKey_parts ps us s t ts) (bs, u, pin))"
proof -
  have ts: "ext_opt ts (case ts of None \<Rightarrow> [] | Some x \<Rightarrow> ext_bytes x)" using ok by (cases ts) (auto simp: in_client_def)
  have *: "ext_slice ps (ext_bytes ps)" "ext_slice us (ext_bytes us)" using ok by (auto simp: in_client_def)
  show ?thesis
  proof (cases "PackSequenceAndType s t")
    case (Inr p)
    then show ?thesis
      using SetInternalKey_parts_ok [OF assms(1) * ts Inr, of le]
      by (simp only: exec_op.simps spec_op.simps res_bind_Inr) (rule rel_resI, blast)
  next
    case (Inl e)
    then show ?thesis using SetInternalKey_parts_fault [OF assms(1) * ts Inl, of le] by simp
  qed
qed

lemma op_simulation:
  assumes "iter_rel k (bs, u, pin)" "op_ok x"
  shows "rel_res (exec_op le x k) (spec_op x (bs, u, pin))"
proof -
  have h: "holds k bs u" "IsKeyPinned k = pin" "buf_wf k" "it_is_user_key k = u"
    using assms(1) by (auto simp: iter_rel_def holds_def iter_wf_def)
  show ?thesis
  proof (cases x)
    case (OpSetIsUserKey b)
    then show ?thesis using h
      by (simp add: iter_rel_def holds_def SetIsUserKey_def iter_wf_def) (simp add: IsKeyPinned_def)
  next
    case OpClear
    from h(1) have ld: "load k (it_key k) (it_key_size k) = Inr (map Some bs)" by (simp add: holds_def)
    show ?thesis
      using OpClear h load_0 [OF ld] key_wf_clear [of k]
      by (simp add: iter_rel_def holds_def it_Clear_def iter_wf_def) (simp add: IsKeyPinned_def)
  next
    case (OpTrimAppend shared d n)
    then show ?thesis using OpTrimAppend_simulation h(1,2) assms(2) by blast
  next
    case (OpSetInternalKey_ikey s)
    have "snd s = length (ext_bytes s)"
      using assms(2) OpSetInternalKey_ikey by (intro ext_slice_size) (simp add: in_client_def)
    then show ?thesis
      using SetKeyImpl_copy [of "k\<lparr>it_is_user_key := False\<rparr>" s "ext_bytes s"] assms(2) h OpSetInternalKey_ikey
      by (cases "8 \<le> snd s")
        (auto simp: SetInternalKey_ikey_def SetInternalKey_def in_client_def Let_def intro!: rel_resI)
  next
    case (OpSetInternalKey_parts ps us s t ts)
    then show ?thesis using OpSetInternalKey_parts_simulation h(3) assms(2) by blast
  next
    case OpOwnKey
    then show ?thesis
      using OwnKey_ok [OF h(1)] h by (cases pin) (auto simp: OwnKey_def intro!: rel_resI)
  next
    case (OpUpdateInternalKey seq t)
    then show ?thesis
      using it_UpdateInternalKey_ok [OF h(1), of le seq t] h
      by (cases pin; cases "8 \<le> length bs")
        (auto simp: it_UpdateInternalKey_def holds_length intro!: rel_resI)
  qed (use assms(2) h SetKeyImpl_rel [of k] SetKeyImpl_rel [of "k\<lparr>it_is_user_key := True\<rparr>"]
       SetKeyImpl_rel [of "k\<lparr>it_is_user_key := False\<rparr>"] in
       \<open>simp_all add: SetKey_def SetUserKey_def SetInternalKey_def\<close>)
qed

lemma run_simulation:
  "iter_rel k a \<Longrightarrow> list_all op_ok xs \<Longrightarrow> rel_res (exec_ops le xs k) (spec_ops xs a)"
proof (induction xs arbitrary: k a)
  case (Cons x xs)
  then have "rel_res (exec_op le x k) (spec_op x a)" using op_simulation by (cases a) simp
  with Cons.IH Cons.prems show ?case by (simp add: rel_res_bind)
qed simp

lemma iter_rel_ctor: "iter_rel IterKey_ctor ([], True, False)"
  by (simp add: iter_rel_def IterKey_ctor_def holds_def iter_wf_def buf_wf_def key_wf_def IsKeyPinned_def)

lemma ucast_of_nat_u32_u64: "n < 2 ^ 32 \<Longrightarrow> ucast (of_nat n :: u32) = (of_nat n :: u64)"
  by (simp add: word_unat_eq_iff unat_ucast_u32_u64 unat_of_nat)

section \<open>Properties\<close>

text \<open>What a slice denotes in the memory of the object.\<close>

definition slice_cells :: "IterKey \<Rightarrow> KSlice \<Rightarrow> cell list res" where
  "slice_cells k s = load k (fst s) (snd s)"

lemma user_key_cells:
  assumes "holds k bs False" "8 \<le> length bs"
  shows "GetUserKey k = Inr (it_key k, length bs - 8)"
    and "load k (it_key k) (length bs - 8) = Inr (map Some (take (length bs - 8) bs))"
proof -
  show "GetUserKey k = Inr (it_key k, length bs - 8)"
    using assms holds_length [OF assms(1)] by (simp add: GetUserKey_def holds_def)
  have ld: "load k (it_key k) (length bs) = Inr (map Some bs)"
    using assms(1) holds_length [OF assms(1)] by (simp add: holds_def)
  have "load k p (m - 8) = Inr (take (m - 8) cs)" if "load k p m = Inr cs" for p m cs
    using that by (cases p) (auto simp: read_bytes_Inr_iff split: option.splits)
  from this [OF ld] show "load k (it_key k) (length bs - 8) = Inr (map Some (take (length bs - 8) bs))"
    by (simp add: take_map)
qed



text \<open>
  C37: an internal key composed in an \<open>IterKey\<close> parses back to its parts: after
  \<open>SetInternalKey\<close> with a parsed key, \<open>GetInternalKey\<close> gives the bytes \<open>AppendInternalKey\<close> writes,
  they parse to the same key, and \<open>GetUserKey\<close> gives the user key. \<open>UpdateInternalKey\<close> then replaces
  sequence number and type in place: the slices taken before stay valid and the user key is kept.
\<close>

theorem iter_key_internal_roundtrip:
  assumes "iter_rel k a" and us: "ext_slice us (pik_user_key key)"
    and "AppendInternalKey le [] key = Inr enc"
  shows "\<exists>k'. SetInternalKey_parsed le k us (pik_sequence key) (pik_type key) = Inr k' \<and>
      GetInternalKey k' = Inr (GetKey k') \<and> slice_cells k' (GetKey k') = Inr (map Some enc) \<and>
      ParseInternalKey le' enc = Inr (True, Some key) \<and>
      GetUserKey k' = Inr (it_key k', length (pik_user_key key)) \<and>
      slice_cells k' (it_key k', length (pik_user_key key)) = Inr (map Some (pik_user_key key)) \<and>
      (\<exists>k''. it_UpdateInternalKey le k' seq t = Inr k'' \<and> GetKey k'' = GetKey k' \<and>
         slice_cells k'' (GetKey k') =
           Inr (map Some (pik_user_key key @ le_bytes 8 (push_bit 8 seq OR ucast t :: u64))))"
proof -
  obtain p where p: "PackSequenceAndType (pik_sequence key) (pik_type key) = Inr p" "enc = pik_user_key key @ le_bytes 8 p"
    using assms(3) by (auto simp: AppendInternalKey_def res_bind_eq_Inr codec_simps)
  have ok: "pik_ok key" using p(1) by (auto simp: PackSequenceAndType_def pik_ok_def require_eq_Inr)
  then have enc: "enc = ikey_bytes key" using assms(3) by (simp add: AppendInternalKey_ok)
  have "buf_wf k" using assms(1) by (cases a) (simp add: iter_rel_def)
  moreover have "ext_slice empty_slice []" by (simp add: empty_slice_def)
  ultimately obtain k' where k': "SetInternalKey_parts le k empty_slice us (pik_sequence key) (pik_type key) None = Inr k'"
    "holds k' enc False" "\<not> IsKeyPinned k'"
    using SetInternalKey_parts_ok [OF _ _ us _ p(1), of k empty_slice "[]" None "[]" le] p(2) by auto
  obtain k'' where k'': "it_UpdateInternalKey le k' seq t = Inr k''"
    "holds k'' (pik_user_key key @ le_bytes 8 (push_bit 8 seq OR ucast t :: u64)) False"
    "it_key k'' = it_key k'" "it_key_size k'' = it_key_size k'"
    using it_UpdateInternalKey_ok [OF k'(2,3), of le seq t] p(2) by auto
  have "ParseInternalKey le' enc = Inr (True, Some key)"
    using enc ok by (simp add: ParseInternalKey_eq ikey_parsed_bytes) (simp add: pik_ok_def)
  then show ?thesis
    using k' k'' user_key_cells [OF k'(2)] p(2)
    by (intro exI [of _ k'] conjI exI [of _ k''])
      (simp_all add: SetInternalKey_parsed_def SetInternalKey_prefix_parsed_def GetInternalKey_def
        GetKey_def slice_cells_def, simp_all add: holds_def)
qed

theorem iter_key_internal_roundtrip_witness:
  "\<exists>k. SetInternalKey_parsed True IterKey_ctor (Ext [107] 0, 1) 9 1 = Inr k \<and>
     slice_cells k (GetKey k) = Inr (map Some [107, 1, 9, 0, 0, 0, 0, 0, 0])"
proof -
  let ?key = "\<lparr>pik_user_key = [107], pik_sequence = 9, pik_type = 1\<rparr>"
  have "AppendInternalKey True [] ?key = Inr [107, 1, 9, 0, 0, 0, 0, 0, 0]" by code_simp
  with iter_key_internal_roundtrip [OF iter_rel_ctor, of "(Ext [107] 0, 1)" ?key True "[107, 1, 9, 0, 0, 0, 0, 0, 0]"]
  show ?thesis by fastforce
qed

text \<open>
  the key must not be set from its own memory. Copying the current key of an object onto itself
  is an overlapping \<open>memcpy\<close>; composing an internal key from the object's own user key is a use of
  released memory when the buffer is on the heap and has to grow. \<open>EncodeLengthPrefixedKey\<close> writes
  the length and the bytes but never sets \<open>key_size_\<close>, so \<open>GetKey\<close> keeps the size of the previous
  key, or has size 0 when the buffer grew.
\<close>

theorem iter_key_pitfalls:
  assumes h: "iter_rel k (bs, u, False)" and "0 < length bs"
    and us: "ext_slice s key" and "length key < 2 ^ 32"
  shows "SetKey k (GetKey k) True = Inl OverlappingCopy \<and>
    (it_heap k \<noteq> Map.empty \<and> it_buf_size k < length bs + 8 \<longrightarrow>
       SetInternalKey_user le k (GetKey k) q t None = Inl UseAfterFree) \<and>
    (\<exists>k'. EncodeLengthPrefixedKey k s = Inr k' \<and>
       (let enc = EncodeVarint32 (of_nat (length key)) @ key in
        load k' (it_buf k') (length enc) = Inr (map Some enc) \<and>
        GetKey k' = (it_buf k', if it_buf_size k < length enc then 0 else length bs)))"
proof -
  have hk: "holds k bs u" "\<not> IsKeyPinned k" "buf_wf k" using h by (auto simp: iter_rel_def)
  note hb = holds_buf [OF hk(1,2)] and len = holds_length [OF hk(1)]
  have ov: "overlaps (it_buf k) (it_buf k) (length bs)"
    using hk(3) assms(2) by (elim buf_wf_cases) simp_all
  have own: "SetKey k (GetKey k) True = Inl OverlappingCopy"
    using hb ov len hk(3)
    by (simp add: SetKey_def SetKeyImpl_def GetKey_def EnlargeBufferIfNeeded_def memcpy_def load_buf)
  have uaf: "SetInternalKey_user le k (GetKey k) q t None = Inl UseAfterFree"
    if "it_heap k \<noteq> Map.empty" "it_buf_size k < length bs + 8"
    using hk(3)
    by (rule buf_wf_cases)
      (use that hk(3) hb(1) len in \<open>simp_all add: SetInternalKey_user_def SetInternalKey_parts_def empty_slice_def
         GetKey_def EnlargeBufferIfNeeded_ok enlarged_def memcpy_def\<close>)
  let ?e = "EncodeVarint32 (of_nat (length key))"
  let ?n = "length key + length ?e"
  have vl: "VarintLength (of_nat (length key)) = length ?e"
    using assms(4) by (simp add: EncodeVarint32_eq_EncodeVarint64 VarintLength_def VarintLength_loop_eq
        ucast_of_nat_u32_u64)
  obtain k2 where k2: "store (enlarged k ?n) (it_buf (enlarged k ?n)) (map Some ?e) = Inr k2"
    "filled ?n k2 (map Some ?e)" "it_key_size k2 = it_key_size (enlarged k ?n)"
    using filled_store [OF filled_enlarged [OF hk(3), of ?n], of "map Some ?e"] by auto
  obtain k3 where k3: "memcpy k2 (ptr_add (it_buf k2) (length ?e)) (fst s) (length key) = Inr k3"
    "filled ?n k3 (map Some (?e @ key))" "it_key_size k3 = it_key_size (enlarged k ?n)"
    using filled_memcpy [OF k2(2) _ us] k2(3) by auto
  let ?k = "k3\<lparr>it_key := it_buf k3, it_is_user_key := True\<rparr>"
  have "EncodeLengthPrefixedKey k s = Inr ?k"
    using vl k2(1) k3(1) hk(3) ext_slice_size [OF us]
    by (simp add: EncodeLengthPrefixedKey_def EnlargeBufferIfNeeded_ok Let_def)
  moreover have "load ?k (it_buf ?k) (length (?e @ key)) = Inr (map Some (?e @ key))"
    using k3(2) by (simp add: load_buf filled_def add.commute)
  moreover have "GetKey ?k = (it_buf ?k, if it_buf_size k < length (?e @ key) then 0 else length bs)"
    using k3(3) len by (simp add: GetKey_def enlarged_def add.commute)
  ultimately show ?thesis using own uaf by (auto simp: Let_def)
qed

text \<open>A key of forty bytes on the heap, and the key \<open>ab\<close> encoded into the same buffer.\<close>

theorem iter_key_pitfalls_witness:
  "\<exists>k. SetUserKey IterKey_ctor (Ext (replicate 40 7) 0, 40) True = Inr (GetKey k, k) \<and>
     SetInternalKey_user True k (GetKey k) 5 1 None = Inl UseAfterFree \<and>
     (\<exists>k'. EncodeLengthPrefixedKey k (Ext [97, 98] 0, 2) = Inr k' \<and> snd (GetKey k') = 40)"
proof -
  let ?b = "replicate 40 (7 :: byte)"
  let ?k = "\<lparr>it_buf = Heap 0 0, it_key = Heap 0 0, it_key_size = 40, it_buf_size = 40,
      it_space = replicate 32 None, it_is_user_key = True, it_heap = [0 \<mapsto> map Some ?b], it_next = 1\<rparr>"
  have e: "EncodeVarint32 (of_nat (length [97 :: byte, 98])) = [2]" by code_simp
  have set: "SetUserKey IterKey_ctor (Ext ?b 0, 40) True = Inr (GetKey ?k, ?k)"
    by (simp add: SetUserKey_def SetKeyImpl_def IterKey_ctor_def EnlargeBufferIfNeeded_def EnlargeBuffer_def
        ResetBuffer_def new_array_def memcpy_def write_bytes_def GetKey_def Let_def)
  have rel: "iter_rel ?k (?b, True, False)"
    by (simp add: iter_rel_def holds_def iter_wf_def buf_wf_def key_wf_def IsKeyPinned_def)
  have "it_heap ?k \<noteq> Map.empty \<and> it_buf_size ?k < length ?b + 8" by (simp add: fun_eq_iff)
  then have "SetInternalKey_user True ?k (GetKey ?k) 5 1 None = Inl UseAfterFree"
    "\<exists>k'. EncodeLengthPrefixedKey ?k (Ext [97, 98] 0, 2) = Inr k' \<and> snd (GetKey k') = 40"
    using iter_key_pitfalls [OF rel, of "(Ext [97, 98] 0, 2)" "[97, 98]" True 5 1] unfolding e by auto
  with set show ?thesis by blast
qed

end
