(* ===== verification/Cleanables.thy ===== *)
theory Cleanables
  imports Slices "HOL-Library.Multiset"
begin

text \<open>
  \<open>utils/cleanable.h\<close> and \<open>utils/cleanable.cc\<close>: an object that runs registered functions when it is
  reset or destroyed.

  The functions are in a singly linked list whose first node is embedded in the object, so the model
  has an explicit store of nodes: a \<open>Cleanable *\<close> is the address of its embedded node, the other
  nodes come from \<open>new\<close>. The store also keeps the log of the calls made. A function pointer and its
  arguments are numbers; a cleanup function is code of the client and does not touch the list. The
  two loops follow \<open>next\<close> pointers and are partial: \<open>None\<close> is a loop that does not end.
\<close>

section \<open>The store\<close>

record Cleanup =
  cl_function :: "nat option"  \<comment> \<open>\<open>None\<close> is \<open>nullptr\<close>\<close>
  cl_arg1 :: nat
  cl_arg2 :: nat
  cl_next :: "nat option"

type_synonym call = "nat \<times> nat \<times> nat"

record Mem =
  mm_node :: "nat \<Rightarrow> Cleanup option"
  mm_fresh :: nat
  mm_log :: "call list"

definition get_node :: "Mem \<Rightarrow> nat \<Rightarrow> Cleanup res" where
  "get_node m a = (case mm_node m a of None \<Rightarrow> Inl UseAfterFree | Some n \<Rightarrow> Inr n)"

definition put_node :: "Mem \<Rightarrow> nat \<Rightarrow> Cleanup \<Rightarrow> Mem" where
  "put_node m a n = m\<lparr>mm_node := (mm_node m)(a \<mapsto> n)\<rparr>"

definition new_node :: "Mem \<Rightarrow> Cleanup \<Rightarrow> nat \<times> Mem" where
  "new_node m n =
     (mm_fresh m, m\<lparr>mm_node := (mm_node m)(mm_fresh m \<mapsto> n), mm_fresh := Suc (mm_fresh m)\<rparr>)"

definition delete_node :: "Mem \<Rightarrow> nat \<Rightarrow> Mem res" where
  "delete_node m a =
     (if mm_node m a = None then Inl UseAfterFree else Inr (m\<lparr>mm_node := (mm_node m)(a := None)\<rparr>))"

section \<open>The class\<close>

text \<open>
  The constructor initialises \<open>function\<close> and \<open>next\<close>; what the arguments hold then is \<open>junk\<close>. The result is
  the object's address.
\<close>

definition Cleanable_ctor :: "nat \<times> nat \<Rightarrow> Mem \<Rightarrow> nat \<times> Mem" where
  "Cleanable_ctor junk m =
     new_node m \<lparr>cl_function = None, cl_arg1 = fst junk, cl_arg2 = snd junk, cl_next = None\<rparr>"

definition call_cleanup :: "Mem \<Rightarrow> Cleanup \<Rightarrow> Mem res" where
  "call_cleanup m n = (case cl_function n of
       None \<Rightarrow> Inl NullPointer
     | Some f \<Rightarrow> Inr (m\<lparr>mm_log := mm_log m @ [(f, cl_arg1 n, cl_arg2 n)]\<rparr>))"

partial_function (option) cleanup_loop :: "Mem \<Rightarrow> nat option \<Rightarrow> Mem res option" where
  [code]: "cleanup_loop m c = (case c of
       None \<Rightarrow> Some (Inr m)
     | Some a \<Rightarrow>
         (case res_bind (get_node m a) (\<lambda>n.
                 res_bind (call_cleanup m n) (\<lambda>m.
                 res_bind (delete_node m a) (\<lambda>m. Inr (cl_next n, m)))) of
            Inl e \<Rightarrow> Some (Inl e)
          | Inr (nxt, m) \<Rightarrow> cleanup_loop m nxt))"

definition DoCleanup :: "Mem \<Rightarrow> nat \<Rightarrow> Mem res option" where
  "DoCleanup m self =
     (case get_node m self of
        Inl e \<Rightarrow> Some (Inl e)
      | Inr h \<Rightarrow>
          if cl_function h \<noteq> None then
            (case call_cleanup m h of
               Inl e \<Rightarrow> Some (Inl e)
             | Inr m \<Rightarrow> cleanup_loop m (cl_next h))
          else Some (Inr m))"

definition clear_head :: "Mem \<Rightarrow> nat \<Rightarrow> Mem res" where
  "clear_head m self =
     res_bind (get_node m self) (\<lambda>h. Inr (put_node m self (h\<lparr>cl_function := None, cl_next := None\<rparr>)))"

definition Cleanable_Reset :: "Mem \<Rightarrow> nat \<Rightarrow> Mem res option" where
  "Cleanable_Reset m self =
     (case DoCleanup m self of
        None \<Rightarrow> None
      | Some r \<Rightarrow> Some (res_bind r (\<lambda>m. clear_head m self)))"

text \<open>The destructor; the embedded node goes with the object.\<close>

definition Cleanable_dtor :: "Mem \<Rightarrow> nat \<Rightarrow> Mem res option" where
  "Cleanable_dtor m self =
     (case DoCleanup m self of
        None \<Rightarrow> None
      | Some r \<Rightarrow> Some (res_bind r (\<lambda>m. delete_node m self)))"

definition Cleanable_move :: "Mem \<Rightarrow> nat \<Rightarrow> nat \<Rightarrow> Mem res" where
  "Cleanable_move m self other =
     (if self \<noteq> other then
        res_bind (get_node m other) (\<lambda>h. clear_head (put_node m self h) other)
      else Inr m)"

definition Cleanable_move_ctor :: "Cleanup \<Rightarrow> Mem \<Rightarrow> nat \<Rightarrow> (nat \<times> Mem) res" where
  "Cleanable_move_ctor junk m other =
     (let (self, m) = new_node m junk in res_bind (Cleanable_move m self other) (\<lambda>m. Inr (self, m)))"

definition RegisterCleanup :: "Mem \<Rightarrow> nat \<Rightarrow> nat option \<Rightarrow> nat \<Rightarrow> nat \<Rightarrow> Mem res" where
  "RegisterCleanup m self func arg1 arg2 =
     require (func \<noteq> None)
       (res_bind (get_node m self) (\<lambda>h.
         if cl_function h = None then
           Inr (put_node m self (h\<lparr>cl_function := func, cl_arg1 := arg1, cl_arg2 := arg2\<rparr>))
         else
           let (c, m) = new_node m \<lparr>cl_function = func, cl_arg1 = arg1, cl_arg2 = arg2, cl_next = cl_next h\<rparr> in
           Inr (put_node m self (h\<lparr>cl_next := Some c\<rparr>))))"

text \<open>The protected overload, which takes over the node \<open>c\<close>.\<close>

definition RegisterCleanup_node :: "Mem \<Rightarrow> nat \<Rightarrow> nat \<Rightarrow> Mem res" where
  "RegisterCleanup_node m self c =
     res_bind (get_node m self) (\<lambda>h.
     res_bind (get_node m c) (\<lambda>n.
       if cl_function h = None then
         delete_node (put_node m self (h\<lparr>cl_function := cl_function n, cl_arg1 := cl_arg1 n, cl_arg2 := cl_arg2 n\<rparr>)) c
       else
         let m = put_node m c (n\<lparr>cl_next := cl_next h\<rparr>) in
         res_bind (get_node m self) (\<lambda>h. Inr (put_node m self (h\<lparr>cl_next := Some c\<rparr>)))))"

partial_function (option) delegate_loop :: "Mem \<Rightarrow> nat \<Rightarrow> nat option \<Rightarrow> Mem res option" where
  [code]: "delegate_loop m other c = (case c of
       None \<Rightarrow> Some (Inr m)
     | Some a \<Rightarrow>
         (case res_bind (get_node m a) (\<lambda>n.
                 res_bind (RegisterCleanup_node m other a) (\<lambda>m. Inr (cl_next n, m))) of
            Inl e \<Rightarrow> Some (Inl e)
          | Inr (nxt, m) \<Rightarrow> delegate_loop m other nxt))"

definition DelegateCleanupsTo :: "Mem \<Rightarrow> nat \<Rightarrow> nat \<Rightarrow> Mem res option" where
  "DelegateCleanupsTo m self other =
     (case get_node m self of
        Inl e \<Rightarrow> Some (Inl e)
      | Inr h \<Rightarrow>
          if cl_function h = None then Some (Inr m)
          else
            (case res_bind (RegisterCleanup m other (cl_function h) (cl_arg1 h) (cl_arg2 h)) (\<lambda>m.
                    res_bind (get_node m self) (\<lambda>h. Inr (cl_next h, m))) of
               Inl e \<Rightarrow> Some (Inl e)
             | Inr (c, m) \<Rightarrow>
                 (case delegate_loop m other c of
                    None \<Rightarrow> None
                  | Some r \<Rightarrow> Some (res_bind r (\<lambda>m. clear_head m self)))))"

section \<open>Lists of cleanups in the store\<close>

lemma get_node_Some [simp]: "mm_node m a = Some n \<Longrightarrow> get_node m a = Inr n"
  by (simp add: get_node_def)

primrec lst :: "(nat \<Rightarrow> Cleanup option) \<Rightarrow> nat option \<Rightarrow> nat list \<Rightarrow> call list \<Rightarrow> bool" where
  "lst h p [] ts \<longleftrightarrow> p = None \<and> ts = []"
| "lst h p (a # as) ts \<longleftrightarrow> p = Some a \<and> (\<exists>n f ts'. h a = Some n \<and> cl_function n = Some f \<and>
     ts = (f, cl_arg1 n, cl_arg2 n) # ts' \<and> lst h (cl_next n) as ts')"

lemma lst_frame: "(\<And>a. a \<in> set ns \<Longrightarrow> h' a = h a) \<Longrightarrow> lst h' p ns ts = lst h p ns ts"
  by (induction ns arbitrary: p ts) auto

lemma lst_upd [simp]: "x \<notin> set ns \<Longrightarrow> lst (h(x := v)) p ns ts = lst h p ns ts"
  by (rule lst_frame) auto

text \<open>
  \<open>cleanable m c ns ts\<close>: the object at \<open>c\<close> owns the nodes \<open>ns\<close>, and \<open>ts\<close> are the calls it will make, in
  order.
\<close>

definition cleanable :: "Mem \<Rightarrow> nat \<Rightarrow> nat list \<Rightarrow> call list \<Rightarrow> bool" where
  "cleanable m c ns ts \<longleftrightarrow> distinct (c # ns) \<and> (\<forall>a \<in> set (c # ns). a < mm_fresh m) \<and>
     (\<exists>h. mm_node m c = Some h \<and>
       (case cl_function h of
          None \<Rightarrow> cl_next h = None \<and> ns = [] \<and> ts = []
        | Some f \<Rightarrow> (\<exists>ts'. lst (mm_node m) (cl_next h) ns ts' \<and> ts = (f, cl_arg1 h, cl_arg2 h) # ts')))"

lemma cleanable_frame:
  assumes "cleanable m c ns ts" "\<And>a. a \<in> set (c # ns) \<Longrightarrow> mm_node m' a = mm_node m a" "mm_fresh m \<le> mm_fresh m'"
  shows "cleanable m' c ns ts"
proof -
  have "lst (mm_node m') p ns ts' = lst (mm_node m) p ns ts'" for p ts'
    using assms(2) by (intro lst_frame) simp
  moreover have "\<forall>a \<in> set (c # ns). a < mm_fresh m'"
    using assms(1,3) unfolding cleanable_def by (meson order_less_le_trans)
  moreover have "mm_node m' c = mm_node m c" using assms(2) by simp
  ultimately show ?thesis using assms(1) unfolding cleanable_def by (simp cong: option.case_cong)
qed

lemma cleanable_nodes: "cleanable m c ns ts \<Longrightarrow> a \<in> set (c # ns) \<Longrightarrow> mm_node m a \<noteq> None \<and> a < mm_fresh m"
proof -
  have "mm_node m a \<noteq> None" if "lst (mm_node m) p ns ts" "a \<in> set ns" for p ts
    using that by (induction ns arbitrary: p ts) auto
  then show "cleanable m c ns ts \<Longrightarrow> a \<in> set (c # ns) \<Longrightarrow> mm_node m a \<noteq> None \<and> a < mm_fresh m"
    by (fastforce simp: cleanable_def split: option.splits)
qed

text \<open>A call is registered second, behind the embedded one.\<close>

fun insert2 :: "call \<Rightarrow> call list \<Rightarrow> call list" where
  "insert2 t [] = [t]"
| "insert2 t (u # us) = u # t # us"

lemma fold_Cons_insert2: "ts = t # ts' \<Longrightarrow> fold insert2 ts us = fold insert2 ts' (insert2 t us)"
  by simp

text \<open>
  The store of objects: which nodes each owns (\<open>ow\<close>) and which calls are pending (\<open>pend\<close>). The nodes \<open>L\<close> are leaked: allocated and owned by
  nobody.
\<close>

definition footprint :: "(nat \<Rightarrow> nat list option) \<Rightarrow> nat \<Rightarrow> nat set" where
  "footprint ow c = (case ow c of None \<Rightarrow> {} | Some ns \<Rightarrow> set (c # ns))"

definition leaky_inv :: "nat set \<Rightarrow> Mem \<Rightarrow> (nat \<Rightarrow> nat list option) \<Rightarrow> (nat \<Rightarrow> call list option) \<Rightarrow> bool" where
  "leaky_inv L m ow pend \<longleftrightarrow>
     (\<forall>c. case (ow c, pend c) of (None, None) \<Rightarrow> True | (Some ns, Some ts) \<Rightarrow> cleanable m c ns ts | _ \<Rightarrow> False) \<and>
     (\<forall>c d. c \<noteq> d \<longrightarrow> footprint ow c \<inter> footprint ow d = {}) \<and>
     {a. mm_node m a \<noteq> None} = (\<Union>c. footprint ow c) \<union> L \<and> L \<inter> (\<Union>c. footprint ow c) = {} \<and>
     (\<forall>a. mm_fresh m \<le> a \<longrightarrow> mm_node m a = None)"

abbreviation store_inv :: "Mem \<Rightarrow> (nat \<Rightarrow> nat list option) \<Rightarrow> (nat \<Rightarrow> call list option) \<Rightarrow> bool" where
  "store_inv \<equiv> leaky_inv {}"

lemmas store_inv_def = leaky_inv_def

lemma store_inv_cleanable:
  "leaky_inv L m ow pend \<Longrightarrow> pend c = Some ts \<Longrightarrow> \<exists>ns. ow c = Some ns \<and> cleanable m c ns ts"
  unfolding store_inv_def by (cases "ow c") (auto dest: spec [of _ c] split: option.splits)

lemma store_inv_owned: "leaky_inv L m ow pend \<Longrightarrow> ow c = None \<longleftrightarrow> pend c = None"
  unfolding store_inv_def by (cases "ow c"; cases "pend c") (auto dest: spec [of _ c])

lemma store_inv_disjoint:
  assumes "leaky_inv L m ow pend" "ow c = Some ns" "ow d = Some ds" "c \<noteq> d"
  shows "set (c # ns) \<inter> set (d # ds) = {}"
proof -
  have "footprint ow c \<inter> footprint ow d = {}" using assms(1,4) by (simp add: store_inv_def)
  with assms(2,3) show ?thesis by (simp add: footprint_def)
qed

lemma store_inv_fresh: "leaky_inv L m ow pend \<Longrightarrow> mm_fresh m \<le> a \<Longrightarrow> mm_node m a = None"
  by (simp add: store_inv_def)

lemma store_inv_apart: "leaky_inv L m ow pend \<Longrightarrow> c \<noteq> d \<Longrightarrow> footprint ow c \<inter> footprint ow d = {}"
  by (simp add: store_inv_def)

lemma store_inv_low:
  assumes "leaky_inv L m ow pend" "a \<in> footprint ow c"
  shows "a < mm_fresh m"
proof (rule ccontr)
  have "{a. mm_node m a \<noteq> None} = (\<Union>c. footprint ow c) \<union> L" using assms(1) by (simp add: store_inv_def)
  with assms(2) have "mm_node m a \<noteq> None" by blast
  moreover assume "\<not> a < mm_fresh m"
  ultimately show False using store_inv_fresh [OF assms(1), of a] by simp
qed

text \<open>What the objects in \<open>cs\<close> owned, and new nodes, are apart from every other object.\<close>

lemma store_inv_taken_apart:
  assumes "leaky_inv L m ow pend" "d \<notin> cs" "\<And>a. a \<in> A \<Longrightarrow> mm_fresh m \<le> a \<or> a \<in> (\<Union>c\<in>cs. footprint ow c)"
  shows "A \<inter> footprint ow d = {}"
proof (rule ccontr)
  assume "A \<inter> footprint ow d \<noteq> {}"
  then obtain a where a: "a \<in> A" "a \<in> footprint ow d" by blast
  have "\<not> mm_fresh m \<le> a" using store_inv_low [OF assms(1) a(2)] by simp
  with assms(3) [OF a(1)] obtain e where "e \<in> cs" "a \<in> footprint ow e" by (auto elim: UN_E)
  with a(2) assms(2) store_inv_apart [OF assms(1), of e d] show False by blast
qed

text \<open>
  An operation that changes the objects in \<open>cs\<close> only: it keeps the store correct when it leaves
  those objects correct and apart, takes no node of another object, changes no other node, and
  leaves no node of theirs behind.
\<close>

lemma store_inv_change:
  assumes inv: "leaky_inv L m ow pend"
    and same: "\<And>c. c \<notin> cs \<Longrightarrow> ow' c = ow c \<and> pend' c = pend c"
    and obj: "\<And>c. c \<in> cs \<Longrightarrow> case (ow' c, pend' c) of (None, None) \<Rightarrow> True
                | (Some ns, Some ts) \<Rightarrow> cleanable m' c ns ts | _ \<Rightarrow> False"
    and apart: "\<And>c d. c \<in> cs \<Longrightarrow> d \<in> cs \<Longrightarrow> c \<noteq> d \<Longrightarrow> footprint ow' c \<inter> footprint ow' d = {}"
    and take: "\<And>c a. c \<in> cs \<Longrightarrow> a \<in> footprint ow' c \<Longrightarrow> mm_fresh m \<le> a \<or> a \<in> (\<Union>c\<in>cs. footprint ow c)"
    and nodes: "\<And>a. a \<notin> (\<Union>c\<in>cs. footprint ow c) \<Longrightarrow> a \<notin> (\<Union>c\<in>cs. footprint ow' c) \<Longrightarrow> mm_node m' a = mm_node m a"
    and gone: "\<And>a. a \<in> (\<Union>c\<in>cs. footprint ow c) \<Longrightarrow> a \<notin> (\<Union>c\<in>cs. footprint ow' c) \<Longrightarrow> mm_node m' a = None"
    and fresh: "mm_fresh m \<le> mm_fresh m'" "\<And>a. mm_fresh m' \<le> a \<Longrightarrow> mm_node m' a = None"
  shows "leaky_inv L m' ow' pend'"
proof -
  note disj = store_inv_apart [OF inv]
  have other: "footprint ow' c = footprint ow c" if "c \<notin> cs" for c
    using same [OF that] by (simp add: footprint_def)
  have sep: "footprint ow' c \<inter> footprint ow d = {}" if "c \<in> cs" "d \<notin> cs" for c d
    using store_inv_taken_apart [OF inv that(2)] take [OF that(1)] by blast
  have 1: "case (ow' c, pend' c) of (None, None) \<Rightarrow> True
      | (Some ns, Some ts) \<Rightarrow> cleanable m' c ns ts | _ \<Rightarrow> False" for c
  proof (cases "c \<in> cs")
    case False
    then have oc: "case (ow c, pend c) of (None, None) \<Rightarrow> True
      | (Some ns, Some ts) \<Rightarrow> cleanable m c ns ts | _ \<Rightarrow> False"
      using inv by (simp add: store_inv_def)
    have "mm_node m' a = mm_node m a" if "a \<in> footprint ow c" for a
    proof (rule nodes)
      show "a \<notin> (\<Union>c\<in>cs. footprint ow c)" using that False disj by (metis UN_E disjoint_iff)
      show "a \<notin> (\<Union>c\<in>cs. footprint ow' c)" using that sep [OF _ False] by blast
    qed
    with oc same [OF False] fresh(1) show ?thesis
      by (auto simp: footprint_def intro: cleanable_frame split: option.splits)
  qed (rule obj)
  have 2: "footprint ow' c \<inter> footprint ow' d = {}" if "c \<noteq> d" for c d
    using that apart disj sep other by (cases "c \<in> cs"; cases "d \<in> cs") (metis inf_commute)+
  have leaked: "mm_node m a \<noteq> None" "a \<notin> footprint ow c" "a < mm_fresh m" if "a \<in> L" for a c
  proof -
    have "{a. mm_node m a \<noteq> None} = (\<Union>c. footprint ow c) \<union> L" "L \<inter> (\<Union>c. footprint ow c) = {}"
      using inv by (simp_all add: store_inv_def)
    then show n: "mm_node m a \<noteq> None" "a \<notin> footprint ow c" using that by blast+
    show "a < mm_fresh m" using n(1) store_inv_fresh [OF inv, of a] by (meson not_le)
  qed
  have apart': "L \<inter> (\<Union>c. footprint ow' c) = {}"
  proof (rule ccontr)
    assume "L \<inter> (\<Union>c. footprint ow' c) \<noteq> {}"
    then obtain a c where a: "a \<in> L" "a \<in> footprint ow' c" by blast
    show False using leaked [OF a(1)] a(2) other [of c] take [of c a] by (cases "c \<in> cs") auto
  qed
  have "mm_node m' a \<noteq> None \<longleftrightarrow> a \<in> (\<Union>c. footprint ow' c) \<union> L" for a
  proof
    assume a: "mm_node m' a \<noteq> None"
    show "a \<in> (\<Union>c. footprint ow' c) \<union> L"
    proof (cases "a \<in> (\<Union>c\<in>cs. footprint ow' c)")
      case False
      with a gone have "a \<notin> (\<Union>c\<in>cs. footprint ow c)" by metis
      with False a nodes have "mm_node m a \<noteq> None" by metis
      then have "a \<in> (\<Union>c. footprint ow c) \<union> L" using inv by (auto simp: store_inv_def)
      then consider c where "a \<in> footprint ow c" | "a \<in> L" by blast
      then show ?thesis
      proof cases
        case (1 c)
        with \<open>a \<notin> (\<Union>c\<in>cs. footprint ow c)\<close> have "c \<notin> cs" by blast
        with 1 have "a \<in> footprint ow' c" by (simp add: other)
        then show ?thesis by blast
      qed simp
    qed blast
  next
    assume "a \<in> (\<Union>c. footprint ow' c) \<union> L"
    then consider c where "a \<in> footprint ow' c" | "a \<in> L" by blast
    then show "mm_node m' a \<noteq> None"
    proof cases
      case (1 c)
      with \<open>\<And>c. case (ow' c, pend' c) of (None, None) \<Rightarrow> True
          | (Some ns, Some ts) \<Rightarrow> cleanable m' c ns ts | _ \<Rightarrow> False\<close> [of c] show ?thesis
        by (cases "ow' c"; cases "pend' c") (auto simp: footprint_def dest: cleanable_nodes)
    next
      case 2
      then have "mm_node m' a = mm_node m a" using leaked(2) apart' by (intro nodes) blast+
      with leaked(1) [OF 2] show ?thesis by simp
    qed
  qed
  then have "{a. mm_node m' a \<noteq> None} = (\<Union>c. footprint ow' c) \<union> L" by (intro set_eqI) simp
  then show ?thesis unfolding store_inv_def using 1 2 apart' fresh(2) by blast
qed

section \<open>The operations on one object\<close>

lemma Cleanable_ctor_inv:
  assumes "leaky_inv L m ow pend"
  shows "leaky_inv L (snd (Cleanable_ctor junk m)) (ow(mm_fresh m \<mapsto> [])) (pend(mm_fresh m \<mapsto> []))"
    and "pend (mm_fresh m) = None"
proof -
  have none: "mm_node m a = None" if "mm_fresh m \<le> a" for a using assms that by (simp add: store_inv_def)
  show free: "pend (mm_fresh m) = None"
  proof (cases "pend (mm_fresh m)")
    case (Some ts)
    from store_inv_cleanable [OF assms this] none [of "mm_fresh m"] show ?thesis
      by (auto dest: cleanable_nodes)
  qed
  then have "ow (mm_fresh m) = None" using assms by (simp add: store_inv_owned)
  then show "leaky_inv L (snd (Cleanable_ctor junk m)) (ow(mm_fresh m \<mapsto> [])) (pend(mm_fresh m \<mapsto> []))"
    by (intro store_inv_change [OF assms, where cs = "{mm_fresh m}"])
      (auto simp: footprint_def Cleanable_ctor_def new_node_def cleanable_def none)
qed

lemma RegisterCleanup_ok:
  assumes "leaky_inv L m ow pend" "pend c = Some ts"
  shows "\<exists>m' ns'. RegisterCleanup m c (Some f) a b = Inr m' \<and> mm_log m' = mm_log m \<and>
    leaky_inv L m' (ow(c \<mapsto> ns')) (pend(c \<mapsto> insert2 (f, a, b) ts)) \<and>
    (\<forall>d. d \<noteq> c \<longrightarrow> mm_node m d \<noteq> None \<longrightarrow> mm_node m' d = mm_node m d)"
proof -
  from store_inv_cleanable [OF assms] obtain ns where ns: "ow c = Some ns" "cleanable m c ns ts" by blast
  then obtain h where h: "mm_node m c = Some h" by (auto simp: cleanable_def)
  have none: "mm_node m a = None" if "mm_fresh m \<le> a" for a using assms that by (simp add: store_inv_def)
  show ?thesis
  proof (cases "cl_function h")
    case None
    let ?m = "put_node m c (h\<lparr>cl_function := Some f, cl_arg1 := a, cl_arg2 := b\<rparr>)"
    have e: "ns = []" "ts = []" "cl_next h = None" using ns(2) h None by (auto simp: cleanable_def)
    have "cleanable ?m c [] (insert2 (f, a, b) ts)" using ns(2) e by (simp add: cleanable_def put_node_def)
    then have "leaky_inv L ?m (ow(c \<mapsto> [])) (pend(c \<mapsto> insert2 (f, a, b) ts))"
      by (intro store_inv_change [OF assms(1), where cs = "{c}"])
        (use ns e none h in \<open>auto simp: footprint_def put_node_def\<close>)
    moreover have "RegisterCleanup m c (Some f) a b = Inr ?m" using h None by (simp add: RegisterCleanup_def)
    ultimately show ?thesis by (intro exI [of _ ?m] exI [of _ "[]"]) (simp add: put_node_def)
  next
    case (Some g)
    let ?n = "mm_fresh m"
    let ?m = "put_node (snd (new_node m \<lparr>cl_function = Some f, cl_arg1 = a, cl_arg2 = b, cl_next = cl_next h\<rparr>))
      c (h\<lparr>cl_next := Some ?n\<rparr>)"
    obtain ts' where ts: "lst (mm_node m) (cl_next h) ns ts'" "ts = (g, cl_arg1 h, cl_arg2 h) # ts'"
      using ns(2) h Some by (auto simp: cleanable_def)
    have fr: "?n \<notin> set ns" "?n \<noteq> c" "c \<notin> set ns" "distinct ns" using ns(2) by (auto simp: cleanable_def)
    have "cleanable ?m c (?n # ns) (insert2 (f, a, b) ts)"
      using ns(2) fr ts Some by (auto simp: cleanable_def put_node_def new_node_def)
    then have "leaky_inv L ?m (ow(c \<mapsto> ?n # ns)) (pend(c \<mapsto> insert2 (f, a, b) ts))"
      by (intro store_inv_change [OF assms(1), where cs = "{c}"])
        (use ns none fr h in \<open>auto simp: footprint_def put_node_def new_node_def\<close>)
    moreover have "RegisterCleanup m c (Some f) a b = Inr ?m"
      using h Some by (simp add: RegisterCleanup_def new_node_def)
    ultimately show ?thesis
      using none by (intro exI [of _ ?m] exI [of _ "?n # ns"]) (auto simp: put_node_def new_node_def)
  qed
qed

text \<open>The store after the nodes \<open>ns\<close> are released and the calls \<open>ts\<close> made.\<close>

definition released :: "Mem \<Rightarrow> nat list \<Rightarrow> call list \<Rightarrow> Mem" where
  "released m ns ts = m\<lparr>mm_log := mm_log m @ ts, mm_node := mm_node m |` (- set ns)\<rparr>"

lemma released_fields [simp]:
  "mm_log (released m ns ts) = mm_log m @ ts" "mm_fresh (released m ns ts) = mm_fresh m"
  "mm_node (released m ns ts) a = (if a \<in> set ns then None else mm_node m a)"
  by (simp_all add: released_def restrict_map_def)

lemma released_Nil [simp]: "released m [] [] = m"
  by (simp add: released_def restrict_map_def)

lemma released_append: "released (released m ns ts) ns' ts' = released m (ns @ ns') (ts @ ts')"
  by (simp add: released_def Int_commute)

lemma released_one:
  "m\<lparr>mm_log := mm_log m @ [t], mm_node := (mm_node m)(a := None)\<rparr> = released m [a] [t]"
  by (simp add: released_def restrict_complement_singleton_eq)

lemma released_call: "released (m\<lparr>mm_log := mm_log m @ [t]\<rparr>) ns ts = released m ns (t # ts)"
  by (simp add: released_def)

text \<open>The loop of \<open>DoCleanup\<close> ends, makes the calls in order and releases every node.\<close>

lemma cleanup_loop_ok:
  "lst (mm_node m) p ns ts \<Longrightarrow> distinct ns \<Longrightarrow>
   cleanup_loop m p = Some (Inr (released m ns ts))"
proof (induction ns arbitrary: m p ts)
  case Nil
  then show ?case by (subst cleanup_loop.simps) simp
next
  case (Cons a ns)
  from Cons.prems(1) obtain n f ts' where n: "p = Some a" "mm_node m a = Some n" "cl_function n = Some f"
    "ts = (f, cl_arg1 n, cl_arg2 n) # ts'" "lst (mm_node m) (cl_next n) ns ts'" by auto
  let ?m = "released m [a] [(f, cl_arg1 n, cl_arg2 n)]"
  have "lst (mm_node ?m) (cl_next n) ns ts'"
    by (subst lst_frame [where h = "mm_node m"]) (use n(5) Cons.prems(2) in auto)
  from Cons.IH [OF this] Cons.prems(2)
  have "cleanup_loop ?m (cl_next n) = Some (Inr (released ?m ns ts'))" by simp
  moreover have "released ?m ns ts' = released m (a # ns) ts" using n(4) by (simp add: released_append)
  ultimately show ?case
    using n by (subst cleanup_loop.simps) (simp add: call_cleanup_def delete_node_def released_one)
qed

lemma DoCleanup_ok:
  assumes "cleanable m c ns ts"
  shows "DoCleanup m c = Some (Inr (released m ns ts))"
proof -
  from assms obtain h where h: "mm_node m c = Some h" by (auto simp: cleanable_def)
  show ?thesis
  proof (cases "cl_function h")
    case None
    then show ?thesis using assms h by (auto simp: DoCleanup_def cleanable_def)
  next
    case (Some f)
    then obtain ts' where "lst (mm_node m) (cl_next h) ns ts'" "ts = (f, cl_arg1 h, cl_arg2 h) # ts'" "distinct ns"
      using assms h by (auto simp: cleanable_def)
    then show ?thesis
      using h Some cleanup_loop_ok [of "m\<lparr>mm_log := mm_log m @ [(f, cl_arg1 h, cl_arg2 h)]\<rparr>" "cl_next h" ns ts']
      by (simp add: DoCleanup_def call_cleanup_def released_call)
  qed
qed

lemma Cleanable_Reset_ok:
  assumes "leaky_inv L m ow pend" "pend c = Some ts"
  shows "\<exists>m'. Cleanable_Reset m c = Some (Inr m') \<and> mm_log m' = mm_log m @ ts \<and>
    leaky_inv L m' (ow(c \<mapsto> [])) (pend(c \<mapsto> []))"
proof -
  from store_inv_cleanable [OF assms] obtain ns where ns: "ow c = Some ns" "cleanable m c ns ts" by blast
  then obtain h where h: "mm_node m c = Some h" "c \<notin> set ns" "c < mm_fresh m" by (auto simp: cleanable_def)
  have none: "mm_node m a = None" if "mm_fresh m \<le> a" for a using assms that by (simp add: store_inv_def)
  let ?d = "released m ns ts"
  let ?m = "put_node ?d c (h\<lparr>cl_function := None, cl_next := None\<rparr>)"
  have "Cleanable_Reset m c = Some (Inr ?m)"
    using ns h by (simp add: Cleanable_Reset_def DoCleanup_ok clear_head_def)
  moreover have "leaky_inv L ?m (ow(c \<mapsto> [])) (pend(c \<mapsto> []))"
    by (intro store_inv_change [OF assms(1), where cs = "{c}"])
      (use ns h none in \<open>auto simp: footprint_def put_node_def cleanable_def\<close>)
  ultimately show ?thesis by (simp add: put_node_def)
qed

lemma Cleanable_dtor_ok:
  assumes "leaky_inv L m ow pend" "pend c = Some ts"
  shows "\<exists>m'. Cleanable_dtor m c = Some (Inr m') \<and> mm_log m' = mm_log m @ ts \<and>
    leaky_inv L m' (ow(c := None)) (pend(c := None))"
proof -
  from store_inv_cleanable [OF assms] obtain ns where ns: "ow c = Some ns" "cleanable m c ns ts" by blast
  then obtain h where h: "mm_node m c = Some h" "c \<notin> set ns" "c < mm_fresh m" by (auto simp: cleanable_def)
  have none: "mm_node m a = None" if "mm_fresh m \<le> a" for a using assms that by (simp add: store_inv_def)
  let ?d = "released m ns ts"
  let ?m = "?d\<lparr>mm_node := (mm_node ?d)(c := None)\<rparr>"
  have "Cleanable_dtor m c = Some (Inr ?m)"
    using ns h by (simp add: Cleanable_dtor_def DoCleanup_ok delete_node_def)
  moreover have "leaky_inv L ?m (ow(c := None)) (pend(c := None))"
    by (intro store_inv_change [OF assms(1), where cs = "{c}"])
      (use ns h none in \<open>auto simp: footprint_def\<close>)
  ultimately show ?thesis by simp
qed

section \<open>Delegation\<close>

text \<open>
  The loop of \<open>DelegateCleanupsTo\<close>: the target ends up owning its nodes and those handed over, and the
  calls are inserted one after the other; only those nodes and the target change.
\<close>

lemma RegisterCleanup_node_ok:
  assumes "cleanable m d ds us" "us \<noteq> []" "mm_node m a = Some n" "cl_function n = Some f"
    "a \<notin> set (d # ds)" "a < mm_fresh m"
  shows "\<exists>m'. RegisterCleanup_node m d a = Inr m' \<and>
    cleanable m' d (a # ds) (insert2 (f, cl_arg1 n, cl_arg2 n) us) \<and>
    (\<forall>x. x \<noteq> d \<longrightarrow> x \<noteq> a \<longrightarrow> mm_node m' x = mm_node m x) \<and>
    mm_fresh m' = mm_fresh m \<and> mm_log m' = mm_log m"
proof -
  from assms(1,2) obtain h g us' where h: "mm_node m d = Some h" "cl_function h = Some g"
    "lst (mm_node m) (cl_next h) ds us'" "us = (g, cl_arg1 h, cl_arg2 h) # us'"
    by (auto simp: cleanable_def split: option.splits)
  let ?m = "put_node (put_node m a (n\<lparr>cl_next := cl_next h\<rparr>)) d (h\<lparr>cl_next := Some a\<rparr>)"
  have "RegisterCleanup_node m d a = Inr ?m"
    using h assms(3,5) by (simp add: RegisterCleanup_node_def put_node_def)
  moreover have "cleanable ?m d (a # ds) (insert2 (f, cl_arg1 n, cl_arg2 n) us)"
    using assms h by (auto simp: cleanable_def put_node_def)
  ultimately show ?thesis by (intro exI [of _ ?m]) (simp add: put_node_def)
qed

lemma insert2_nonempty [simp]: "insert2 t us \<noteq> []"
  by (cases us) simp_all

lemma delegate_loop_ok:
  "lst (mm_node m) p ns ts \<Longrightarrow> distinct ns \<Longrightarrow> cleanable m d ds us \<Longrightarrow> us \<noteq> [] \<Longrightarrow>
   set ns \<inter> set (d # ds) = {} \<Longrightarrow> \<forall>a \<in> set ns. a < mm_fresh m \<Longrightarrow>
   \<exists>m'. delegate_loop m d p = Some (Inr m') \<and> cleanable m' d (rev ns @ ds) (fold insert2 ts us) \<and>
     (\<forall>x. x \<noteq> d \<longrightarrow> x \<notin> set ns \<longrightarrow> mm_node m' x = mm_node m x) \<and>
     mm_fresh m' = mm_fresh m \<and> mm_log m' = mm_log m"
proof (induction ns arbitrary: m p ts ds us)
  case Nil
  then show ?case by (subst delegate_loop.simps) simp
next
  case (Cons a ns)
  from Cons.prems(1) obtain n f ts' where n: "p = Some a" "mm_node m a = Some n" "cl_function n = Some f"
    "ts = (f, cl_arg1 n, cl_arg2 n) # ts'" "lst (mm_node m) (cl_next n) ns ts'" by auto
  obtain m1 where m1: "RegisterCleanup_node m d a = Inr m1"
    "cleanable m1 d (a # ds) (insert2 (f, cl_arg1 n, cl_arg2 n) us)"
    "\<forall>x. x \<noteq> d \<longrightarrow> x \<noteq> a \<longrightarrow> mm_node m1 x = mm_node m x" "mm_fresh m1 = mm_fresh m" "mm_log m1 = mm_log m"
    using RegisterCleanup_node_ok [OF Cons.prems(3,4) n(2,3)] Cons.prems(5,6) by auto
  have "lst (mm_node m1) (cl_next n) ns ts'"
    by (subst lst_frame [where h = "mm_node m"]) (use n(5) m1(3) Cons.prems(2,5) in auto)
  from Cons.IH [OF this _ m1(2)] Cons.prems(2,5,6) m1(4)
  obtain m' where "delegate_loop m1 d (cl_next n) = Some (Inr m')"
    "cleanable m' d (rev ns @ a # ds) (fold insert2 ts' (insert2 (f, cl_arg1 n, cl_arg2 n) us))"
    "\<forall>x. x \<noteq> d \<longrightarrow> x \<notin> set ns \<longrightarrow> mm_node m' x = mm_node m1 x" "mm_fresh m' = mm_fresh m1" "mm_log m' = mm_log m1"
    by auto
  with n m1 show ?case by (subst delegate_loop.simps) simp
qed

text \<open>The branch with something to delegate: the embedded call is registered anew, the nodes are moved, the head is cleared.\<close>

lemma DelegateCleanupsTo_nonempty:
  assumes inv: "leaky_inv L m ow pend" and "pend c = Some ts" "pend d = Some us" "c \<noteq> d"
    and ns: "ow c = Some ns" "cleanable m c ns ts" and h: "mm_node m c = Some h" and f: "cl_function h = Some f"
  obtains m1 ds m2 where "leaky_inv L m1 (ow(d \<mapsto> ds)) (pend(d \<mapsto> insert2 (f, cl_arg1 h, cl_arg2 h) us))"
    "DelegateCleanupsTo m c d = Some (Inr (put_node m2 c (h\<lparr>cl_function := None, cl_next := None\<rparr>)))"
    "cleanable m1 c ns ts" "cleanable m1 d ds (insert2 (f, cl_arg1 h, cl_arg2 h) us)"
    "cleanable m2 d (rev ns @ ds) (fold insert2 ts us)" "distinct (c # ns)" "set (c # ns) \<inter> set (d # ds) = {}"
    "\<forall>x. x \<noteq> d \<longrightarrow> x \<notin> set ns \<longrightarrow> mm_node m2 x = mm_node m1 x" "mm_fresh m2 = mm_fresh m1" "mm_log m2 = mm_log m"
proof -
  obtain ts' where ts': "lst (mm_node m) (cl_next h) ns ts'" "ts = (f, cl_arg1 h, cl_arg2 h) # ts'" "distinct (c # ns)"
    using ns h f by (auto simp: cleanable_def)
  let ?us = "insert2 (f, cl_arg1 h, cl_arg2 h) us"
  obtain m1 ds where m1: "RegisterCleanup m d (Some f) (cl_arg1 h) (cl_arg2 h) = Inr m1" "mm_log m1 = mm_log m"
    "leaky_inv L m1 (ow(d \<mapsto> ds)) (pend(d \<mapsto> ?us))"
    "\<forall>x. x \<noteq> d \<longrightarrow> mm_node m x \<noteq> None \<longrightarrow> mm_node m1 x = mm_node m x"
    using RegisterCleanup_ok [OF inv assms(3)] by blast
  have d1: "cleanable m1 d ds ?us" using store_inv_cleanable [OF m1(3), of d ?us] by auto
  have c1: "cleanable m1 c ns ts" using store_inv_cleanable [OF m1(3), of c ts] assms(2,4) ns(1) by auto
  have dis: "set (c # ns) \<inter> set (d # ds) = {}"
    using store_inv_disjoint [OF m1(3), of c ns d ds] assms(4) ns(1) by simp
  have hc: "mm_node m1 c = Some h" using m1(4) h assms(4) by simp
  have l1: "lst (mm_node m1) (cl_next h) ns ts'" using c1 hc f ts'(2) by (auto simp: cleanable_def)
  obtain m2 where m2: "delegate_loop m1 d (cl_next h) = Some (Inr m2)"
    "cleanable m2 d (rev ns @ ds) (fold insert2 ts' ?us)"
    "\<forall>x. x \<noteq> d \<longrightarrow> x \<notin> set ns \<longrightarrow> mm_node m2 x = mm_node m1 x" "mm_fresh m2 = mm_fresh m1" "mm_log m2 = mm_log m1"
    using delegate_loop_ok [OF l1 _ d1 _ _] c1 ts'(3) dis by (auto simp: cleanable_def)
  have hc2: "mm_node m2 c = Some h" using m2(3) hc ts'(3) assms(4) by simp
  have "DelegateCleanupsTo m c d = Some (Inr (put_node m2 c (h\<lparr>cl_function := None, cl_next := None\<rparr>)))"
    using h f m1(1) hc m2(1) hc2 by (simp add: DelegateCleanupsTo_def clear_head_def)
  then show thesis
    using m1(2,3) d1 c1 dis ts'(3) m2 fold_Cons_insert2 [OF ts'(2)] by (intro that [of m1 ds m2]) simp_all
qed

lemma DelegateCleanupsTo_ok:
  assumes inv: "leaky_inv L m ow pend" and "pend c = Some ts" "pend d = Some us" "c \<noteq> d"
  shows "\<exists>m' ns'. DelegateCleanupsTo m c d = Some (Inr m') \<and> mm_log m' = mm_log m \<and>
    leaky_inv L m' (ow(c \<mapsto> [], d \<mapsto> ns')) (pend(c \<mapsto> [], d \<mapsto> fold insert2 ts us))"
proof -
  from store_inv_cleanable [OF inv assms(2)] obtain ns where ns: "ow c = Some ns" "cleanable m c ns ts" by blast
  then obtain h where h: "mm_node m c = Some h" "c < mm_fresh m" by (auto simp: cleanable_def)
  show ?thesis
  proof (cases "cl_function h")
    case None
    then have e: "ns = []" "ts = []" using ns h by (auto simp: cleanable_def)
    obtain ds where "ow d = Some ds" using store_inv_cleanable [OF inv assms(3)] by blast
    with e ns assms have "ow(c \<mapsto> [], d \<mapsto> ds) = ow" "pend(c \<mapsto> [], d \<mapsto> fold insert2 ts us) = pend"
      by (auto simp: fun_upd_idem_iff)
    with None h inv show ?thesis by (intro exI [of _ m] exI [of _ ds]) (simp add: DelegateCleanupsTo_def)
  next
    case (Some f)
    let ?us = "insert2 (f, cl_arg1 h, cl_arg2 h) us"
    obtain m1 ds m2 where m1: "leaky_inv L m1 (ow(d \<mapsto> ds)) (pend(d \<mapsto> ?us))"
      and del: "DelegateCleanupsTo m c d = Some (Inr (put_node m2 c (h\<lparr>cl_function := None, cl_next := None\<rparr>)))"
      and c1: "cleanable m1 c ns ts" and d1: "cleanable m1 d ds ?us"
      and d2: "cleanable m2 d (rev ns @ ds) (fold insert2 ts us)" and dist: "distinct (c # ns)"
      and dis: "set (c # ns) \<inter> set (d # ds) = {}"
      and m2: "\<forall>x. x \<noteq> d \<longrightarrow> x \<notin> set ns \<longrightarrow> mm_node m2 x = mm_node m1 x" "mm_fresh m2 = mm_fresh m1" "mm_log m2 = mm_log m"
      using DelegateCleanupsTo_nonempty [OF assms ns h(1) Some] by blast
    let ?m = "put_node m2 c (h\<lparr>cl_function := None, cl_next := None\<rparr>)"
    have dm: "cleanable ?m d (rev ns @ ds) (fold insert2 ts us)"
      by (rule cleanable_frame [OF d2]) (use dis dist in \<open>auto simp: put_node_def\<close>)
    have cm: "cleanable ?m c [] []" using c1 m2(2) by (simp add: cleanable_def put_node_def)
    let ?ow = "(ow(d \<mapsto> ds))(c \<mapsto> [], d \<mapsto> rev ns @ ds)"
    have old: "(\<Union>x\<in>{c, d}. footprint (ow(d \<mapsto> ds)) x) = set (c # ns) \<union> set (d # ds)"
      using ns(1) assms(4) by (simp add: footprint_def)
    have new: "(\<Union>x\<in>{c, d}. footprint ?ow x) = set (c # ns) \<union> set (d # ds)"
      "footprint ?ow c = {c}" "footprint ?ow d = set (d # rev ns @ ds)"
      using assms(4) by (auto simp: footprint_def)
    have "leaky_inv L ?m ?ow ((pend(d \<mapsto> ?us))(c \<mapsto> [], d \<mapsto> fold insert2 ts us))"
    proof (rule store_inv_change [OF m1, where cs = "{c, d}"], unfold old new(1), goal_cases)
      case (3 x y)
      then show ?case using new(2,3) dis dist by auto
    next
      case (4 x a)
      then show ?case using new(2,3) by auto
    next
      case (8 a)
      then have "a \<noteq> c" "a \<noteq> d" "a \<notin> set ns" "mm_node m1 a = None"
        using c1 d1 m2(2) store_inv_fresh [OF m1] by (auto simp: cleanable_def put_node_def)
      then show ?case using m2(1) by (simp add: put_node_def)
    qed (use dm cm assms(4) m2(1,2) in \<open>auto simp: put_node_def\<close>)
    then show ?thesis using del m2(3) assms(4)
      by (intro exI [of _ ?m] exI [of _ "rev ns @ ds"]) (simp add: put_node_def fun_upd_twist)
  qed
qed

section \<open>Moving\<close>

text \<open>Nothing is pending at an object exactly when its embedded function is null.\<close>

lemma idle_iff: "cleanable m c ns ts \<Longrightarrow> mm_node m c = Some h \<Longrightarrow> cl_function h = None \<longleftrightarrow> ts = []"
  by (auto simp: cleanable_def split: option.splits)

lemma Cleanable_move_ok:
  assumes inv: "leaky_inv L m ow pend" and "pend c = Some []" "pend d = Some ts" "c \<noteq> d"
  shows "\<exists>m' ns. Cleanable_move m c d = Inr m' \<and> mm_log m' = mm_log m \<and>
    leaky_inv L m' (ow(c \<mapsto> ns, d \<mapsto> [])) (pend(c \<mapsto> ts, d \<mapsto> []))"
proof -
  obtain ns where ns: "ow d = Some ns" "cleanable m d ns ts" using store_inv_cleanable [OF inv assms(3)] by blast
  obtain cs where cs: "ow c = Some cs" "cleanable m c cs []" using store_inv_cleanable [OF inv assms(2)] by blast
  have cs0: "cs = []" and cf: "c < mm_fresh m" using cs(2) by (auto simp: cleanable_def split: option.splits)
  obtain h where h: "mm_node m d = Some h" using ns(2) by (auto simp: cleanable_def)
  have dis: "set (c # cs) \<inter> set (d # ns) = {}" by (rule store_inv_disjoint [OF inv cs(1) ns(1) assms(4)])
  let ?m = "put_node (put_node m c h) d (h\<lparr>cl_function := None, cl_next := None\<rparr>)"
  have mv: "Cleanable_move m c d = Inr ?m"
    using h assms(4) by (simp add: Cleanable_move_def clear_head_def put_node_def)
  have fr: "lst (mm_node ?m) p ns us = lst (mm_node m) p ns us" for p us
    using dis ns(2) by (auto simp: put_node_def cleanable_def)
  have cm: "cleanable ?m c ns ts"
    using ns(2) h dis cf assms(4) fr by (auto simp: cleanable_def put_node_def split: option.splits)
  have dm: "cleanable ?m d [] []" using ns(2) by (simp add: cleanable_def put_node_def)
  have "leaky_inv L ?m (ow(c \<mapsto> ns, d \<mapsto> [])) (pend(c \<mapsto> ts, d \<mapsto> []))"
  proof (rule store_inv_change [OF inv, where cs = "{c, d}"], goal_cases)
    case (3 x y)
    then show ?case using ns(2) dis assms(4) by (auto simp: footprint_def cleanable_def)
  next
    case (8 a)
    then show ?case using store_inv_fresh [OF inv] ns(2) cf by (auto simp: put_node_def cleanable_def)
  qed (use cm dm cs ns cs0 assms(4) in \<open>auto simp: footprint_def put_node_def split: if_splits\<close>)
  with mv show ?thesis by (intro exI [of _ ?m] exI [of _ ns]) (simp add: put_node_def)
qed

section \<open>Losing calls\<close>

text \<open>
  Two operations drop what is pending at an object without a call: a move onto it, and a delegation to itself. The list nodes of the object are
  then leaked, with the nodes allocated meanwhile.
\<close>

lemma leaky_inv_abandon:
  assumes inv: "leaky_inv L m ow pend" and ns: "ow c = Some ns" "pend c = Some us"
    and head: "mm_node m' c = Some h" "cl_function h = None" "cl_next h = None"
    and same: "\<And>x. x \<notin> set (c # ns) \<Longrightarrow> x < mm_fresh m \<Longrightarrow> mm_node m' x = mm_node m x"
    and kept: "\<And>x. x \<in> set ns \<or> mm_fresh m \<le> x \<and> x < mm_fresh m' \<Longrightarrow> mm_node m' x \<noteq> None"
    and fresh: "mm_fresh m \<le> mm_fresh m'" "\<And>a. mm_fresh m' \<le> a \<Longrightarrow> mm_node m' a = None"
  shows "leaky_inv (L \<union> set ns \<union> {mm_fresh m..<mm_fresh m'}) m' (ow(c \<mapsto> [])) (pend(c \<mapsto> []))"
proof -
  let ?ow = "ow(c \<mapsto> [])" and ?pend = "pend(c \<mapsto> [])" and ?L = "L \<union> set ns \<union> {mm_fresh m..<mm_fresh m'}"
  have cl: "cleanable m c ns us" using store_inv_cleanable [OF inv ns(2)] ns(1) by auto
  then have c: "c < mm_fresh m" "c \<notin> set ns" by (auto simp: cleanable_def)
  have fc: "footprint ow c = set (c # ns)" using ns(1) by (simp add: footprint_def)
  have fp: "footprint ?ow x = (if x = c then {c} else footprint ow x)" for x by (simp add: footprint_def)
  have alloc: "mm_node m a \<noteq> None \<longleftrightarrow> (\<exists>x. a \<in> footprint ow x) \<or> a \<in> L" and L: "a \<in> L \<Longrightarrow> a \<notin> footprint ow x" for a x
  proof -
    have "{a. mm_node m a \<noteq> None} = (\<Union>c. footprint ow c) \<union> L" "L \<inter> (\<Union>c. footprint ow c) = {}"
      using inv by (simp_all add: leaky_inv_def)
    then show "mm_node m a \<noteq> None \<longleftrightarrow> (\<exists>x. a \<in> footprint ow x) \<or> a \<in> L" "a \<in> L \<Longrightarrow> a \<notin> footprint ow x" by blast+
  qed
  note low = store_inv_low [OF inv] and sep = store_inv_apart [OF inv]
  have Lc: "a \<notin> set (c # ns)" if "a \<in> L" for a using L [OF that, of c] unfolding fc .
  have Llow: "a < mm_fresh m" if "a \<in> L" for a using alloc [of a] that store_inv_fresh [OF inv, of a] by (meson not_le)
  have 1: "case (?ow x, ?pend x) of (None, None) \<Rightarrow> True | (Some ns, Some ts) \<Rightarrow> cleanable m' x ns ts | _ \<Rightarrow> False" for x
  proof (cases "x = c")
    case True
    then show ?thesis using head c(1) fresh(1) by (simp add: cleanable_def)
  next
    case False
    have "mm_node m' a = mm_node m a" if "a \<in> footprint ow x" for a
      using that sep [OF False] low [OF that] unfolding fc by (intro same) blast+
    moreover have "case (ow x, pend x) of (None, None) \<Rightarrow> True | (Some ns, Some ts) \<Rightarrow> cleanable m x ns ts | _ \<Rightarrow> False"
      using inv by (simp add: leaky_inv_def)
    ultimately show ?thesis using False fresh(1)
      by (auto simp: footprint_def intro: cleanable_frame split: option.splits)
  qed
  have 2: "footprint ?ow x \<inter> footprint ?ow y = {}" if "x \<noteq> y" for x y
    using sep [OF that] that fc by (auto simp: fp split: if_splits)
  have sub: "footprint ?ow x \<subseteq> footprint ow x" for x using fc by (auto simp: fp)
  have 3: "mm_node m' a \<noteq> None \<longleftrightarrow> (\<exists>x. a \<in> footprint ?ow x) \<or> a \<in> ?L" for a
  proof -
    consider "mm_fresh m' \<le> a" | "mm_fresh m \<le> a" "a < mm_fresh m'" | "a < mm_fresh m" "a \<in> set ns" | "a = c"
      | "a < mm_fresh m" "a \<notin> set (c # ns)" by fastforce
    then show ?thesis
    proof cases
      case 1
      have "a \<notin> footprint ?ow x" for x using low [of a x] sub [of x] 1 fresh(1) by fastforce
      moreover have "a \<notin> ?L" using Llow [of a] low [of a c] fc 1 fresh(1) by fastforce
      ultimately show ?thesis using fresh(2) [OF 1] by blast
    next
      case 4
      then show ?thesis using head(1) fp [of c] by auto
    next
      case 5
      have "a \<in> footprint ?ow x \<longleftrightarrow> a \<in> footprint ow x" for x using 5(2) fc by (auto simp: fp)
      then show ?thesis using same [OF 5(2,1)] alloc [of a] 5 by auto
    qed (use kept [of a] in auto)
  qed
  have 4: "a \<notin> footprint ?ow x" if l: "a \<in> ?L" for a x
  proof -
    consider "a \<in> L" | "a \<in> set ns" | "mm_fresh m \<le> a" using l by auto
    then show ?thesis
    proof cases
      case 1
      then show ?thesis using L sub by blast
    next
      case 2
      then show ?thesis using sep [of c x] c(2) fc by (auto simp: fp)
    next
      case 3
      then show ?thesis using low [of a x] sub [of x] by fastforce
    qed
  qed
  have "{a. mm_node m' a \<noteq> None} = (\<Union>c. footprint ?ow c) \<union> ?L" using 3 by blast
  moreover have "?L \<inter> (\<Union>c. footprint ?ow c) = {}" using 4 by blast
  ultimately show ?thesis unfolding leaky_inv_def using 1 2 fresh(2) by blast
qed

lemma Cleanable_move_pending:
  assumes inv: "leaky_inv L m ow pend" and "pend c = Some us" "pend d = Some ts" "c \<noteq> d"
  shows "\<exists>L' m' ns. Cleanable_move m c d = Inr m' \<and> mm_log m' = mm_log m \<and>
    leaky_inv L' m' (ow(c \<mapsto> ns, d \<mapsto> [])) (pend(c \<mapsto> ts, d \<mapsto> [])) \<and> (us = [] \<longrightarrow> L' = L)"
proof -
  obtain cs where cs: "ow c = Some cs" "cleanable m c cs us" using store_inv_cleanable [OF inv assms(2)] by blast
  obtain h g where h: "mm_node m c = Some h" "mm_node m d = Some g"
    using cs(2) store_inv_cleanable [OF inv assms(3)] by (auto simp: cleanable_def)
  have low: "c < mm_fresh m" "\<forall>a \<in> set cs. mm_node m a \<noteq> None" using cleanable_nodes [OF cs(2)] by auto
  let ?m = "put_node m c (h\<lparr>cl_function := None, cl_next := None\<rparr>)"
  have "leaky_inv (L \<union> set cs \<union> {mm_fresh m..<mm_fresh ?m}) ?m (ow(c \<mapsto> [])) (pend(c \<mapsto> []))"
    by (rule leaky_inv_abandon [OF inv cs(1) assms(2)])
      (use low store_inv_fresh [OF inv] in \<open>auto simp: put_node_def\<close>)
  then have "leaky_inv (L \<union> set cs) ?m (ow(c \<mapsto> [])) (pend(c \<mapsto> []))" by (simp add: put_node_def)
  from Cleanable_move_ok [OF this, of c d ts] assms(3,4) obtain m' ns where m': "Cleanable_move ?m c d = Inr m'" "mm_log m' = mm_log m"
    "leaky_inv (L \<union> set cs) m' (ow(c \<mapsto> ns, d \<mapsto> [])) (pend(c \<mapsto> ts, d \<mapsto> []))" by (auto simp: put_node_def)
  moreover have "Cleanable_move ?m c d = Cleanable_move m c d"
    using h assms(4) by (simp add: Cleanable_move_def put_node_def)
  moreover have "us = [] \<longrightarrow> cs = []" using cs(2) by (auto simp: cleanable_def split: option.splits)
  ultimately show ?thesis by (intro exI [of _ "L \<union> set cs"] exI [of _ m'] exI [of _ ns]) auto
qed

text \<open>A list delegated to the object it belongs to: its nodes are relinked to each other, and no call is made.\<close>

lemma delegate_loop_self:
  "lst (mm_node m) p ns ts \<Longrightarrow> distinct ns \<Longrightarrow> c \<notin> set ns \<Longrightarrow> mm_node m c = Some h \<Longrightarrow> cl_function h \<noteq> None \<Longrightarrow>
   \<exists>m' nxt. delegate_loop m c p = Some (Inr m') \<and> mm_node m' c = Some (h\<lparr>cl_next := nxt\<rparr>) \<and>
     (\<forall>x. x \<noteq> c \<longrightarrow> x \<notin> set ns \<longrightarrow> mm_node m' x = mm_node m x) \<and> (\<forall>x \<in> set ns. mm_node m' x \<noteq> None) \<and>
     mm_fresh m' = mm_fresh m \<and> mm_log m' = mm_log m"
proof (induction ns arbitrary: m p ts h)
  case Nil
  then show ?case by (subst delegate_loop.simps) (auto intro!: exI [of _ "cl_next h"])
next
  case (Cons a ns)
  from Cons.prems(1) obtain n f ts' where n: "p = Some a" "mm_node m a = Some n" "cl_function n = Some f"
    "ts = (f, cl_arg1 n, cl_arg2 n) # ts'" "lst (mm_node m) (cl_next n) ns ts'" by auto
  let ?m = "put_node (put_node m a (n\<lparr>cl_next := cl_next h\<rparr>)) c (h\<lparr>cl_next := Some a\<rparr>)"
  have reg: "RegisterCleanup_node m c a = Inr ?m"
    using Cons.prems n by (auto simp: RegisterCleanup_node_def put_node_def)
  have "lst (mm_node ?m) (cl_next n) ns ts'"
    by (subst lst_frame [where h = "mm_node m"]) (use n(5) Cons.prems(2,3) in \<open>auto simp: put_node_def\<close>)
  from Cons.IH [OF this, of "h\<lparr>cl_next := Some a\<rparr>"] Cons.prems(2,3,5)
  obtain m' nxt where "delegate_loop ?m c (cl_next n) = Some (Inr m')" "mm_node m' c = Some (h\<lparr>cl_next := nxt\<rparr>)"
    "\<forall>x. x \<noteq> c \<longrightarrow> x \<notin> set ns \<longrightarrow> mm_node m' x = mm_node ?m x" "\<forall>x \<in> set ns. mm_node m' x \<noteq> None"
    "mm_fresh m' = mm_fresh ?m" "mm_log m' = mm_log ?m"
    by (auto simp: put_node_def)
  then show ?case using n reg Cons.prems(2,3) by (subst delegate_loop.simps) (auto simp: put_node_def)
qed

lemma DelegateCleanupsTo_self:
  assumes inv: "leaky_inv L m ow pend" and "pend c = Some us"
  shows "\<exists>L' m' ns. DelegateCleanupsTo m c c = Some (Inr m') \<and> mm_log m' = mm_log m \<and>
    leaky_inv L' m' (ow(c \<mapsto> ns)) (pend(c \<mapsto> [])) \<and> (us = [] \<longrightarrow> L' = L)"
proof -
  obtain cs where cs: "ow c = Some cs" "cleanable m c cs us" using store_inv_cleanable [OF inv assms(2)] by blast
  obtain h where h: "mm_node m c = Some h" using cs(2) by (auto simp: cleanable_def)
  show ?thesis
  proof (cases "cl_function h")
    case None
    then have "us = []" "cs = []" using cs(2) h by (auto simp: cleanable_def)
    then show ?thesis using None h inv cs(1) assms(2) by (intro exI [of _ L] exI [of _ m] exI [of _ "[]"]) (simp add: DelegateCleanupsTo_def fun_upd_idem)
  next
    case (Some f)
    let ?t = "(f, cl_arg1 h, cl_arg2 h)" and ?n = "mm_fresh m"
    obtain us' where us: "us = ?t # us'" "lst (mm_node m) (cl_next h) cs us'" using cs(2) h Some by (auto simp: cleanable_def)
    let ?m = "put_node (snd (new_node m \<lparr>cl_function = Some f, cl_arg1 = cl_arg1 h, cl_arg2 = cl_arg2 h, cl_next = cl_next h\<rparr>))
      c (h\<lparr>cl_next := Some ?n\<rparr>)"
    have fr: "c \<noteq> ?n" "c \<notin> set cs" "?n \<notin> set cs" "distinct cs" "c < ?n" "\<forall>x \<in> set cs. x < ?n"
      using cs(2) by (auto simp: cleanable_def)
    have reg: "RegisterCleanup m c (Some f) (cl_arg1 h) (cl_arg2 h) = Inr ?m"
      using h Some by (simp add: RegisterCleanup_def new_node_def)
    have mc: "mm_node ?m c = Some (h\<lparr>cl_next := Some ?n\<rparr>)" by (simp add: put_node_def)
    have "lst (mm_node ?m) (Some ?n) (?n # cs) us" using us fr by (simp add: put_node_def new_node_def)
    from delegate_loop_self [OF this _ _ mc] Some fr
    obtain m' nxt where m': "delegate_loop ?m c (Some ?n) = Some (Inr m')" "mm_node m' c = Some (h\<lparr>cl_next := nxt\<rparr>)"
      "\<forall>x. x \<noteq> c \<longrightarrow> x \<notin> set (?n # cs) \<longrightarrow> mm_node m' x = mm_node ?m x" "\<forall>x \<in> set (?n # cs). mm_node m' x \<noteq> None"
      "mm_fresh m' = Suc ?n" "mm_log m' = mm_log m" by (auto simp: put_node_def new_node_def)
    let ?m' = "put_node m' c (h\<lparr>cl_function := None, cl_next := None\<rparr>)"
    have del: "DelegateCleanupsTo m c c = Some (Inr ?m')"
      using h Some reg mc m'(1,2) by (simp add: DelegateCleanupsTo_def clear_head_def)
    have "leaky_inv (L \<union> set cs \<union> {mm_fresh m..<mm_fresh ?m'}) ?m' (ow(c \<mapsto> [])) (pend(c \<mapsto> []))"
    proof (rule leaky_inv_abandon [OF inv cs(1) assms(2)])
      show "mm_node ?m' x \<noteq> None" if "x \<in> set cs \<or> mm_fresh m \<le> x \<and> x < mm_fresh ?m'" for x
        using that m'(4,5) by (auto simp: put_node_def less_Suc_eq_le)
      show "mm_node ?m' a = None" if "mm_fresh ?m' \<le> a" for a
      proof -
        have "Suc ?n \<le> a" using that m'(5) by (simp add: put_node_def)
        then have "a \<noteq> c" "a \<noteq> ?n" "a \<notin> set cs" using fr(5,6) by auto
        then show ?thesis using m'(3) store_inv_fresh [OF inv, of a] \<open>Suc ?n \<le> a\<close> by (simp add: put_node_def new_node_def)
      qed
    qed (use m'(3,5) in \<open>auto simp: put_node_def new_node_def\<close>)
    then show ?thesis using del m'(6) us(1)
      by (intro exI [of _ "L \<union> set cs \<union> {mm_fresh m..<mm_fresh ?m'}"] exI [of _ ?m'] exI [of _ "[]"]) (simp add: put_node_def)
  qed
qed

section \<open>Counting calls\<close>

definition pending_all :: "(nat \<Rightarrow> call list option) \<Rightarrow> call multiset" where
  "pending_all pend = (\<Sum>c \<in> dom pend. mset (the (pend c)))"

lemma pending_all_empty [simp]: "pending_all Map.empty = {#}"
  by (simp add: pending_all_def)

lemma pending_all_remove:
  assumes "finite (dom pend)" "pend c = Some ts"
  shows "pending_all pend = mset ts + pending_all (pend(c := None))"
proof -
  have "pending_all pend = mset ts + (\<Sum>x \<in> dom pend - {c}. mset (the (pend x)))"
    using assms by (simp add: pending_all_def sum.remove [of "dom pend" c] domI)
  also have "(\<Sum>x \<in> dom pend - {c}. mset (the (pend x))) = pending_all (pend(c := None))"
    unfolding pending_all_def by (rule sum.cong) auto
  finally show ?thesis .
qed

lemma pending_all_new:
  assumes "finite (dom pend)" "pend c = None"
  shows "pending_all (pend(c \<mapsto> ts)) = mset ts + pending_all pend"
  using pending_all_remove [of "pend(c \<mapsto> ts)" c ts] assms by (simp add: fun_upd_idem)

lemma pending_all_upd:
  assumes "finite (dom pend)" "pend c = Some us"
  shows "pending_all (pend(c \<mapsto> ts)) + mset us = pending_all pend + mset ts"
  using pending_all_new [of "pend(c := None)" c ts] pending_all_remove [OF assms] assms(1)
  by (simp add: ac_simps)

lemma mset_insert2: "mset (insert2 t us) = add_mset t (mset us)"
  by (cases us) simp_all

lemma mset_fold_insert2: "mset (fold insert2 ts us) = mset ts + mset us"
  by (induction ts arbitrary: us) (simp_all add: mset_insert2)

section \<open>Runs of a client\<close>

text \<open>
  A client creates objects, also from other ones by moving, registers calls, delegates, moves, resets and destroys, in any order.
  \<open>cl_run m objs reg lost\<close>: such a run ends in the store \<open>m\<close> with the objects \<open>objs\<close> alive, and has
  registered the calls \<open>reg\<close>. The move assignment overwrites the target without running what is
  pending there, and a delegation to the object itself ends with an empty list: the calls \<open>lost\<close> are those that were pending there.
\<close>

inductive cl_run :: "Mem \<Rightarrow> nat set \<Rightarrow> call list \<Rightarrow> call list \<Rightarrow> bool" where
  start: "cl_run \<lparr>mm_node = Map.empty, mm_fresh = 0, mm_log = []\<rparr> {} [] []"
| ctor: "cl_run m objs reg lost \<Longrightarrow> Cleanable_ctor junk m = (c, m') \<Longrightarrow> cl_run m' (insert c objs) reg lost"
| move_ctor: "cl_run m objs reg lost \<Longrightarrow> d \<in> objs \<Longrightarrow> Cleanable_move_ctor memory m d = Inr (c, m') \<Longrightarrow>
    cl_run m' (insert c objs) reg lost"
| register: "cl_run m objs reg lost \<Longrightarrow> c \<in> objs \<Longrightarrow> RegisterCleanup m c (Some f) a b = Inr m' \<Longrightarrow>
    cl_run m' objs (reg @ [(f, a, b)]) lost"
| delegate: "cl_run m objs reg lost \<Longrightarrow> c \<in> objs \<Longrightarrow> d \<in> objs \<Longrightarrow> c \<noteq> d \<Longrightarrow>
    DelegateCleanupsTo m c d = Some (Inr m') \<Longrightarrow> cl_run m' objs reg lost"
| delegate_self: "cl_run m objs reg lost \<Longrightarrow> c \<in> objs \<Longrightarrow> cleanable m c ns us \<Longrightarrow>
    DelegateCleanupsTo m c c = Some (Inr m') \<Longrightarrow> cl_run m' objs reg (lost @ us)"
| move: "cl_run m objs reg lost \<Longrightarrow> c \<in> objs \<Longrightarrow> d \<in> objs \<Longrightarrow> c \<noteq> d \<Longrightarrow> cleanable m c ns us \<Longrightarrow>
    Cleanable_move m c d = Inr m' \<Longrightarrow> cl_run m' objs reg (lost @ us)"
| move_self: "cl_run m objs reg lost \<Longrightarrow> c \<in> objs \<Longrightarrow> Cleanable_move m c c = Inr m' \<Longrightarrow> cl_run m' objs reg lost"
| reset: "cl_run m objs reg lost \<Longrightarrow> c \<in> objs \<Longrightarrow> Cleanable_Reset m c = Some (Inr m') \<Longrightarrow> cl_run m' objs reg lost"
| destroy: "cl_run m objs reg lost \<Longrightarrow> c \<in> objs \<Longrightarrow> Cleanable_dtor m c = Some (Inr m') \<Longrightarrow>
    cl_run m' (objs - {c}) reg lost"

definition run_inv :: "Mem \<Rightarrow> nat set \<Rightarrow> call list \<Rightarrow> call list \<Rightarrow> bool" where
  "run_inv m objs reg lost \<longleftrightarrow> finite objs \<and> (\<exists>L ow pend. leaky_inv L m ow pend \<and> dom pend = objs \<and>
     mset reg = mset (mm_log m) + mset lost + pending_all pend \<and> (lost = [] \<longrightarrow> L = {}))"

lemma run_invI:
  "finite objs \<Longrightarrow> leaky_inv L m ow pend \<Longrightarrow> dom pend = objs \<Longrightarrow>
   mset reg = mset (mm_log m) + mset lost + pending_all pend \<Longrightarrow> lost = [] \<longrightarrow> L = {} \<Longrightarrow> run_inv m objs reg lost"
  by (auto simp: run_inv_def)

lemma run_invE:
  assumes "run_inv m objs reg lost"
  obtains L ow pend where "finite objs" "finite (dom pend)" "leaky_inv L m ow pend" "dom pend = objs"
    "mset reg = mset (mm_log m) + mset lost + pending_all pend" "lost = [] \<longrightarrow> L = {}"
  using assms by (auto simp: run_inv_def)

text \<open>Each operation of a run succeeds and keeps the invariant.\<close>

lemma run_ctor:
  assumes "run_inv m objs reg lost" "Cleanable_ctor junk m = (c, m')"
  shows "run_inv m' (insert c objs) reg lost"
  using assms(1)
proof (rule run_invE)
  fix L ow pend assume i: "finite objs" "finite (dom pend)" "leaky_inv L m ow pend" "dom pend = objs"
    "mset reg = mset (mm_log m) + mset lost + pending_all pend" "lost = [] \<longrightarrow> L = {}"
  have c: "c = mm_fresh m" "m' = snd (Cleanable_ctor junk m)" "mm_log m' = mm_log m"
    using assms(2) by (auto simp: Cleanable_ctor_def new_node_def)
  show ?thesis
    by (rule run_invI [OF _ Cleanable_ctor_inv(1) [OF i(3), of junk, folded c(1,2)]])
      (use i c Cleanable_ctor_inv(2) [OF i(3)] in \<open>auto simp: pending_all_new\<close>)
qed

lemma run_register:
  assumes "run_inv m objs reg lost" "c \<in> objs"
  shows "\<exists>m'. RegisterCleanup m c (Some f) a b = Inr m' \<and> run_inv m' objs (reg @ [(f, a, b)]) lost"
  using assms(1)
proof (rule run_invE)
  fix L ow pend assume i: "finite objs" "finite (dom pend)" "leaky_inv L m ow pend" "dom pend = objs"
    "mset reg = mset (mm_log m) + mset lost + pending_all pend" "lost = [] \<longrightarrow> L = {}"
  obtain ts where ts: "pend c = Some ts" using assms(2) i(4) by blast
  obtain m' ns' where m': "RegisterCleanup m c (Some f) a b = Inr m'" "mm_log m' = mm_log m"
    "leaky_inv L m' (ow(c \<mapsto> ns')) (pend(c \<mapsto> insert2 (f, a, b) ts))"
    using RegisterCleanup_ok [OF i(3) ts, of f a b] by blast
  have "run_inv m' objs (reg @ [(f, a, b)]) lost"
    by (rule run_invI [OF i(1) m'(3)])
      (use i ts m'(2) pending_all_upd [OF i(2) ts, of "insert2 (f, a, b) ts"] in \<open>auto simp: mset_insert2\<close>)
  with m'(1) show ?thesis by blast
qed

lemma run_delegate:
  assumes "run_inv m objs reg lost" "c \<in> objs" "d \<in> objs" "c \<noteq> d"
  shows "\<exists>m'. DelegateCleanupsTo m c d = Some (Inr m') \<and> run_inv m' objs reg lost"
  using assms(1)
proof (rule run_invE)
  fix L ow pend assume i: "finite objs" "finite (dom pend)" "leaky_inv L m ow pend" "dom pend = objs"
    "mset reg = mset (mm_log m) + mset lost + pending_all pend" "lost = [] \<longrightarrow> L = {}"
  obtain ts us where ts: "pend c = Some ts" "pend d = Some us" using assms(2,3) i(4) by blast
  obtain m' ns' where m': "DelegateCleanupsTo m c d = Some (Inr m')" "mm_log m' = mm_log m"
    "leaky_inv L m' (ow(c \<mapsto> [], d \<mapsto> ns')) (pend(c \<mapsto> [], d \<mapsto> fold insert2 ts us))"
    using DelegateCleanupsTo_ok [OF i(3) ts assms(4)] by blast
  have "pending_all (pend(c \<mapsto> [], d \<mapsto> fold insert2 ts us)) = pending_all pend"
    using pending_all_upd [OF i(2) ts(1), of "[]"] pending_all_upd [of "pend(c \<mapsto> [])" d us "fold insert2 ts us"]
      i(2) ts assms(4) by (auto simp: mset_fold_insert2)
  then have "run_inv m' objs reg lost"
    by (intro run_invI [OF i(1) m'(3)]) (use i assms(2,3) m'(2) in auto)
  with m'(1) show ?thesis by blast
qed

lemma run_move:
  assumes "run_inv m objs reg lost" "c \<in> objs" "d \<in> objs" "c \<noteq> d"
  shows "\<exists>m' ns us. Cleanable_move m c d = Inr m' \<and> cleanable m c ns us \<and> run_inv m' objs reg (lost @ us)"
  using assms(1)
proof (rule run_invE)
  fix L ow pend assume i: "finite objs" "finite (dom pend)" "leaky_inv L m ow pend" "dom pend = objs"
    "mset reg = mset (mm_log m) + mset lost + pending_all pend" "lost = [] \<longrightarrow> L = {}"
  obtain us ts where ts: "pend c = Some us" "pend d = Some ts" using assms(2,3) i(4) by blast
  obtain cs where cs: "cleanable m c cs us" using store_inv_cleanable [OF i(3) ts(1)] by blast
  obtain L' m' ns where m': "Cleanable_move m c d = Inr m'" "mm_log m' = mm_log m"
    "leaky_inv L' m' (ow(c \<mapsto> ns, d \<mapsto> [])) (pend(c \<mapsto> ts, d \<mapsto> []))" "us = [] \<longrightarrow> L' = L"
    using Cleanable_move_pending [OF i(3) ts assms(4)] by blast
  have upd: "pending_all (pend(c \<mapsto> ts)) + mset us = pending_all pend + mset ts"
    "pending_all (pend(c \<mapsto> ts, d \<mapsto> [])) + mset ts = pending_all (pend(c \<mapsto> ts))"
    using pending_all_upd [OF i(2) ts(1), of ts] pending_all_upd [of "pend(c \<mapsto> ts)" d ts "[]"] i(2) ts assms(4) by auto
  have "(pending_all (pend(c \<mapsto> ts, d \<mapsto> [])) + mset us) + mset ts = (pending_all (pend(c \<mapsto> ts, d \<mapsto> [])) + mset ts) + mset us"
    by (simp only: ac_simps)
  also have "\<dots> = pending_all pend + mset ts" unfolding upd(2) by (rule upd(1))
  finally have "pending_all (pend(c \<mapsto> ts, d \<mapsto> [])) + mset us = pending_all pend" by simp
  then have "run_inv m' objs reg (lost @ us)"
    by (intro run_invI [OF i(1) m'(3)]) (use i assms(2,3) m'(2,4) in \<open>auto simp: ac_simps\<close>)
  with m'(1) cs show ?thesis by blast
qed

text \<open>The move constructor is the default constructor and a move: the embedded node is overwritten.\<close>

lemma run_move_ctor:
  assumes "run_inv m objs reg lost" "d \<in> objs"
  shows "\<exists>c m'. Cleanable_move_ctor memory m d = Inr (c, m') \<and> run_inv m' (insert c objs) reg lost"
proof -
  let ?c = "mm_fresh m"
  let ?m = "snd (Cleanable_ctor (0, 0) m)"
  have ctor: "Cleanable_ctor (0, 0) m = (?c, ?m)" by (simp add: Cleanable_ctor_def new_node_def)
  have inv: "run_inv ?m (insert ?c objs) reg lost" by (rule run_ctor [OF assms(1) ctor])
  have new: "?c \<notin> objs" using assms(1)
  proof (rule run_invE)
    fix L ow pend assume "leaky_inv L m ow pend" "dom pend = objs"
    then show ?thesis using Cleanable_ctor_inv(2) by fastforce
  qed
  then have d: "?c \<noteq> d" using assms(2) by blast
  obtain m' ns us where m': "Cleanable_move ?m ?c d = Inr m'" "cleanable ?m ?c ns us" "run_inv m' (insert ?c objs) reg (lost @ us)"
    using run_move [OF inv _ _ d] assms(2) by blast
  have "us = []" using m'(2) by (auto simp: cleanable_def Cleanable_ctor_def new_node_def)
  moreover have "Cleanable_move (snd (new_node m memory)) ?c d = Cleanable_move ?m ?c d"
    using d by (simp add: Cleanable_move_def Cleanable_ctor_def new_node_def get_node_def put_node_def)
  then have "Cleanable_move (snd (new_node m memory)) ?c d = Inr m'" unfolding m'(1) .
  then have "Cleanable_move_ctor memory m d = Inr (?c, m')"
    by (simp add: Cleanable_move_ctor_def case_prod_unfold Let_def) (simp add: new_node_def)
  ultimately show ?thesis using m'(3) by auto
qed

lemma run_delegate_self:
  assumes "run_inv m objs reg lost" "c \<in> objs"
  shows "\<exists>m' ns us. DelegateCleanupsTo m c c = Some (Inr m') \<and> cleanable m c ns us \<and> run_inv m' objs reg (lost @ us)"
  using assms(1)
proof (rule run_invE)
  fix L ow pend assume i: "finite objs" "finite (dom pend)" "leaky_inv L m ow pend" "dom pend = objs"
    "mset reg = mset (mm_log m) + mset lost + pending_all pend" "lost = [] \<longrightarrow> L = {}"
  obtain us where us: "pend c = Some us" using assms(2) i(4) by blast
  obtain cs where cs: "cleanable m c cs us" using store_inv_cleanable [OF i(3) us] by blast
  obtain L' m' ns where m': "DelegateCleanupsTo m c c = Some (Inr m')" "mm_log m' = mm_log m"
    "leaky_inv L' m' (ow(c \<mapsto> ns)) (pend(c \<mapsto> []))" "us = [] \<longrightarrow> L' = L"
    using DelegateCleanupsTo_self [OF i(3) us] by blast
  have "run_inv m' objs reg (lost @ us)"
    by (rule run_invI [OF i(1) m'(3)])
      (use i assms(2) m'(2,4) pending_all_upd [OF i(2) us, of "[]"] in \<open>auto simp: ac_simps\<close>)
  with m'(1) cs show ?thesis by blast
qed

text \<open>What is pending at an object is determined by the store.\<close>

lemma lst_unique: "lst h p ns ts \<Longrightarrow> lst h p ns' ts' \<Longrightarrow> ns = ns' \<and> ts = ts'"
proof (induction ns arbitrary: p ns' ts ts')
  case Nil
  then show ?case by (cases ns') auto
next
  case (Cons a ns)
  then show ?case by (cases ns') auto
qed

lemma cleanable_unique: "cleanable m c ns ts \<Longrightarrow> cleanable m c ns' ts' \<Longrightarrow> ns = ns' \<and> ts = ts'"
  by (auto simp: cleanable_def split: option.splits dest: lst_unique)

lemma run_reset:
  assumes "run_inv m objs reg lost" "c \<in> objs"
  shows "\<exists>m'. Cleanable_Reset m c = Some (Inr m') \<and> run_inv m' objs reg lost"
  using assms(1)
proof (rule run_invE)
  fix L ow pend assume i: "finite objs" "finite (dom pend)" "leaky_inv L m ow pend" "dom pend = objs"
    "mset reg = mset (mm_log m) + mset lost + pending_all pend" "lost = [] \<longrightarrow> L = {}"
  obtain ts where ts: "pend c = Some ts" using assms(2) i(4) by blast
  obtain m' where m': "Cleanable_Reset m c = Some (Inr m')" "mm_log m' = mm_log m @ ts"
    "leaky_inv L m' (ow(c \<mapsto> [])) (pend(c \<mapsto> []))"
    using Cleanable_Reset_ok [OF i(3) ts] by blast
  have "run_inv m' objs reg lost"
    by (rule run_invI [OF i(1) m'(3)])
      (use i ts m'(2) pending_all_upd [OF i(2) ts, of "[]"] in \<open>auto simp: ac_simps\<close>)
  with m'(1) show ?thesis by blast
qed

lemma run_destroy:
  assumes "run_inv m objs reg lost" "c \<in> objs"
  shows "\<exists>m'. Cleanable_dtor m c = Some (Inr m') \<and> run_inv m' (objs - {c}) reg lost"
  using assms(1)
proof (rule run_invE)
  fix L ow pend assume i: "finite objs" "finite (dom pend)" "leaky_inv L m ow pend" "dom pend = objs"
    "mset reg = mset (mm_log m) + mset lost + pending_all pend" "lost = [] \<longrightarrow> L = {}"
  obtain ts where ts: "pend c = Some ts" using assms(2) i(4) by blast
  obtain m' where m': "Cleanable_dtor m c = Some (Inr m')" "mm_log m' = mm_log m @ ts"
    "leaky_inv L m' (ow(c := None)) (pend(c := None))"
    using Cleanable_dtor_ok [OF i(3) ts] by blast
  have "run_inv m' (objs - {c}) reg lost"
    by (rule run_invI [OF _ m'(3)])
      (use i ts m'(2) pending_all_remove [OF i(2) ts] in \<open>auto simp: ac_simps\<close>)
  with m'(1) show ?thesis by blast
qed

lemma cl_run_inv: "cl_run m objs reg lost \<Longrightarrow> run_inv m objs reg lost"
proof (induction rule: cl_run.induct)
  case start
  show ?case by (rule run_invI [of _ "{}" _ Map.empty Map.empty]) (auto simp: store_inv_def footprint_def)
next
  case (ctor m objs reg lost junk c m')
  then show ?case by (simp add: run_ctor)
next
  case (move_ctor m objs reg lost d memory c m')
  then show ?case using run_move_ctor [OF move_ctor.IH move_ctor.hyps(2), of memory] by auto
next
  case (register m objs reg lost c f a b m')
  then show ?case using run_register [OF register.IH register.hyps(2), of f a b] by auto
next
  case (delegate m objs reg lost c d m')
  then show ?case using run_delegate [OF delegate.IH delegate.hyps(2-4)] by auto
next
  case (delegate_self m objs reg lost c ns us m')
  then show ?case using run_delegate_self [OF delegate_self.IH delegate_self.hyps(2)] by (auto dest: cleanable_unique)
next
  case (move m objs reg lost c d ns us m')
  then show ?case using run_move [OF move.IH move.hyps(2-4)] by (auto dest: cleanable_unique)
next
  case (move_self m objs reg lost c m')
  then show ?case by (simp add: Cleanable_move_def)
next
  case (reset m objs reg lost c m')
  then show ?case using run_reset [OF reset.IH reset.hyps(2)] by auto
next
  case (destroy m objs reg lost c m')
  then show ?case using run_destroy [OF destroy.IH destroy.hyps(2)] by auto
qed

section \<open>Properties\<close>

text \<open>
  C15: every registered cleanup is called once, is still pending, or was dropped by one of two operations. A run of a client creates, fills, delegates, moves,
  resets and destroys \<open>Cleanable\<close> objects in any order, with the move constructor, moves onto any object and delegation of an object to itself included. A move onto
  another object drops what is pending there, and so does a delegation to itself; \<open>lost\<close> are the calls dropped. The calls made so far, the calls dropped
  and the calls still pending are together exactly the calls registered: none is made that was not registered, or more often. Once every object is destroyed each
  registered call has been made or dropped, exactly once; and if no call was dropped, every registered call has been made exactly once and no node is left allocated.
\<close>

theorem cleanups_exactly_once:
  assumes "cl_run m objs reg lost"
  shows "set (mm_log m) \<subseteq> set reg \<and> mset (mm_log m) + mset lost \<subseteq># mset reg \<and>
    (objs = {} \<longrightarrow> mset (mm_log m) + mset lost = mset reg) \<and>
    (objs = {} \<and> lost = [] \<longrightarrow> mset (mm_log m) = mset reg \<and> (\<forall>a. mm_node m a = None))"
proof -
  from cl_run_inv [OF assms] obtain L ow pend where i: "leaky_inv L m ow pend" "dom pend = objs"
    "mset reg = mset (mm_log m) + mset lost + pending_all pend" "lost = [] \<longrightarrow> L = {}" by (auto simp: run_inv_def)
  then have sub: "mset (mm_log m) + mset lost \<subseteq># mset reg" by simp
  then have "set (mm_log m) \<subseteq> set reg" using set_mset_mono [OF sub] by simp
  moreover have e: "pend = Map.empty" "ow = Map.empty" if "objs = {}"
    using i(1,2) that store_inv_owned [OF i(1)] by (auto simp: fun_eq_iff)
  moreover have "\<forall>a. mm_node m a = None" if "objs = {}" "lost = []"
    using i(1,4) e that by (simp add: leaky_inv_def footprint_def)
  ultimately show ?thesis using i(3) sub by auto
qed

text \<open>
  C38: the operations of a run end and do not fault. From every store a client can reach, registering,
  delegating to any object, the object itself included, moving onto any object, constructing by a move, resetting and destroying return normally, whatever has happened to
  the lists before: in particular the loops over the \<open>next\<close> pointers end.
\<close>

theorem cleanable_operations_return:
  assumes "cl_run m objs reg lost" "c \<in> objs" "d \<in> objs"
  shows "is_ok (RegisterCleanup m c (Some f) a b) \<and>
    (\<exists>m'. DelegateCleanupsTo m c d = Some (Inr m')) \<and> is_ok (Cleanable_move m c d) \<and> is_ok (Cleanable_move_ctor memory m d) \<and>
    (\<exists>m'. Cleanable_Reset m c = Some (Inr m')) \<and> (\<exists>m'. Cleanable_dtor m c = Some (Inr m'))"
proof -
  note inv = cl_run_inv [OF assms(1)]
  have "\<exists>m'. DelegateCleanupsTo m c d = Some (Inr m')" "is_ok (Cleanable_move m c d)"
    using run_delegate [OF inv assms(2,3)] run_delegate_self [OF inv assms(2)] run_move [OF inv assms(2,3)]
    by (cases "c = d"; fastforce simp: Cleanable_move_def)+
  then show ?thesis
    using run_register [OF inv assms(2), of f a b] run_move_ctor [OF inv assms(3), of memory] run_reset [OF inv assms(2)] run_destroy [OF inv assms(2)]
    by fastforce
qed

text \<open>Two objects; the calls registered at the first are handed to the second.\<close>

lemma run_two_objects:
  "\<exists>m. cl_run m {0, 1} [] []"
proof -
  let ?m0 = "\<lparr>mm_node = Map.empty, mm_fresh = 0, mm_log = []\<rparr>"
  have "cl_run (snd (Cleanable_ctor (0, 0) ?m0)) {0} [] []"
    using cl_run.ctor [OF cl_run.start, of "(0, 0)" 0] by (simp add: Cleanable_ctor_def new_node_def)
  from cl_run.ctor [OF this, of "(0, 0)" 1] show ?thesis
    by (auto simp: Cleanable_ctor_def new_node_def insert_commute)
qed

theorem cleanable_operations_return_witness:
  "\<exists>m. cl_run m {0, 1} [] [] \<and> is_ok (RegisterCleanup m 0 (Some 7) 1 2) \<and>
    (\<exists>m'. DelegateCleanupsTo m 0 1 = Some (Inr m'))"
proof -
  obtain m where "cl_run m {0, 1} [] []" using run_two_objects by blast
  with cleanable_operations_return [OF this, of 0 1 7 1 2] show ?thesis by auto
qed

theorem cleanups_exactly_once_witness:
  "\<exists>m. cl_run m {} [(7, 1, 2), (8, 3, 4)] [] \<and> mset (mm_log m) = {#(7, 1, 2), (8, 3, 4)#} \<and>
    (\<forall>a. mm_node m a = None)"
proof -
  obtain m0 where r0: "cl_run m0 {0, 1} [] []" using run_two_objects by blast
  obtain m1 where r1: "cl_run m1 {0, 1} [(7, 1, 2)] []"
    using run_register [OF cl_run_inv [OF r0], of 0 7 1 2] cl_run.register [OF r0, of 0 7 1 2] by auto
  obtain m2 where r2: "cl_run m2 {0, 1} [(7, 1, 2), (8, 3, 4)] []"
    using run_register [OF cl_run_inv [OF r1], of 0 8 3 4] cl_run.register [OF r1, of 0 8 3 4] by auto
  obtain m3 where r3: "cl_run m3 {0, 1} [(7, 1, 2), (8, 3, 4)] []"
    using run_delegate [OF cl_run_inv [OF r2], of 0 1] cl_run.delegate [OF r2, of 0 1] by auto
  obtain m4 where r4: "cl_run m4 ({0, 1} - {0}) [(7, 1, 2), (8, 3, 4)] []"
    using run_destroy [OF cl_run_inv [OF r3], of 0] cl_run.destroy [OF r3, of 0] by auto
  obtain m5 where r5: "cl_run m5 ({0, 1} - {0} - {1}) [(7, 1, 2), (8, 3, 4)] []"
    using run_destroy [OF cl_run_inv [OF r4], of 1] cl_run.destroy [OF r4, of 1] by auto
  then have "cl_run m5 {} [(7, 1, 2), (8, 3, 4)] []" by simp
  with cleanups_exactly_once [OF this] show ?thesis by auto
qed

end
