(* ===== verification/PinnableSlices.thy ===== *)
theory PinnableSlices
  imports Cleanables
begin

text \<open>
  The class \<open>PinnableSlice\<close> of \<open>include/slice.h\<close> and \<open>utils/slice.cc\<close>: a slice that either refers to
  memory kept alive by cleanup functions, or to a string, its own (\<open>self_space_\<close>) or one of the client.

  The object is a record with the address of its embedded \<open>Cleanable\<close> part (theory \<open>Cleanables\<close>); the
  strings of the client are a map \<open>strs\<close> from names to contents. \<open>buf_\<close> is \<open>NoBuf\<close> until something is
  stored in it: the move constructor does not initialise it.
\<close>

datatype strref = Self | Str nat | NoBuf

datatype dptr =
    Literal               \<comment> \<open>the empty literal of \<open>Slice()\<close>\<close>
  | Pin "byte list" nat   \<comment> \<open>an object of the client, offset\<close>
  | BufData strref        \<comment> \<open>\<open>data()\<close> of a string\<close>

record PinnableSlice =
  ps_head :: nat
  ps_data :: dptr
  ps_size :: nat
  ps_self_space :: "byte list"
  ps_buf :: strref
  ps_pinned :: bool

type_synonym strings = "nat \<Rightarrow> byte list"

fun string_of :: "strings \<Rightarrow> PinnableSlice \<Rightarrow> strref \<Rightarrow> byte list res" where
  "string_of strs p Self = Inr (ps_self_space p)"
| "string_of strs p (Str i) = Inr (strs i)"
| "string_of strs p NoBuf = Inl Uninitialised"

definition set_string :: "strings \<Rightarrow> PinnableSlice \<Rightarrow> byte list \<Rightarrow> (strings \<times> PinnableSlice) res" where
  "set_string strs p bs = (case ps_buf p of
       Self \<Rightarrow> Inr (strs, p\<lparr>ps_self_space := bs\<rparr>)
     | Str i \<Rightarrow> Inr (strs(i := bs), p)
     | NoBuf \<Rightarrow> Inl Uninitialised)"

section \<open>The class\<close>

definition PinnableSlice_default :: "nat \<times> nat \<Rightarrow> Mem \<Rightarrow> PinnableSlice \<times> Mem" where
  "PinnableSlice_default junk m =
     (let (c, m) = Cleanable_ctor junk m in
      (\<lparr>ps_head = c, ps_data = Literal, ps_size = 0, ps_self_space = [], ps_buf = Self, ps_pinned = False\<rparr>, m))"

definition PinnableSlice_buf :: "nat \<times> nat \<Rightarrow> Mem \<Rightarrow> nat \<Rightarrow> PinnableSlice \<times> Mem" where
  "PinnableSlice_buf junk m buf =
     (let (c, m) = Cleanable_ctor junk m in
      (\<lparr>ps_head = c, ps_data = Literal, ps_size = 0, ps_self_space = [], ps_buf = Str buf, ps_pinned = False\<rparr>, m))"

definition PinSlice ::
  "Mem \<Rightarrow> PinnableSlice \<Rightarrow> Slice \<Rightarrow> nat option \<Rightarrow> nat \<Rightarrow> nat \<Rightarrow> (Mem \<times> PinnableSlice) res" where
  "PinSlice m p s f arg1 arg2 =
     require (\<not> ps_pinned p)
       (let p = p\<lparr>ps_pinned := True, ps_data := Pin (sl_base s) (sl_data s), ps_size := sl_size s\<rparr> in
        res_bind (RegisterCleanup m (ps_head p) f arg1 arg2) (\<lambda>m.
          require (ps_pinned p) (Inr (m, p))))"

definition PinSlice_cleanable ::
  "Mem \<Rightarrow> PinnableSlice \<Rightarrow> Slice \<Rightarrow> nat \<Rightarrow> (Mem \<times> PinnableSlice) res option" where
  "PinSlice_cleanable m p s cl =
     (if \<not> ps_pinned p then
        let p = p\<lparr>ps_pinned := True, ps_data := Pin (sl_base s) (sl_data s), ps_size := sl_size s\<rparr> in
        (case DelegateCleanupsTo m cl (ps_head p) of
           None \<Rightarrow> None
         | Some r \<Rightarrow> Some (res_bind r (\<lambda>m. require (ps_pinned p) (Inr (m, p)))))
      else Some (Inl AssertFailed))"

definition PinSelf :: "strings \<Rightarrow> PinnableSlice \<Rightarrow> PinnableSlice res" where
  "PinSelf strs p =
     require (\<not> ps_pinned p)
       (res_bind (string_of strs p (ps_buf p)) (\<lambda>b.
         Inr (p\<lparr>ps_data := BufData (ps_buf p), ps_size := length b\<rparr>)))"

definition PinSelf_slice :: "strings \<Rightarrow> PinnableSlice \<Rightarrow> Slice \<Rightarrow> (strings \<times> PinnableSlice) res" where
  "PinSelf_slice strs p s =
     require (\<not> ps_pinned p)
       (res_bind (slice_read s) (\<lambda>bs.
        res_bind (set_string strs p bs) (\<lambda>(strs, p).
        res_bind (string_of strs p (ps_buf p)) (\<lambda>b.
          Inr (strs, p\<lparr>ps_data := BufData (ps_buf p), ps_size := length b\<rparr>)))))"

text \<open>\<open>std::string::erase\<close> throws when the position is beyond the end.\<close>

definition string_erase :: "byte list \<Rightarrow> nat \<Rightarrow> nat \<Rightarrow> byte list res" where
  "string_erase b pos n = (if pos > length b then Inl OutOfBounds else Inr (take pos b @ drop (pos + n) b))"

definition ps_remove_suffix :: "strings \<Rightarrow> PinnableSlice \<Rightarrow> nat \<Rightarrow> (strings \<times> PinnableSlice) res" where
  "ps_remove_suffix strs p n =
     require (n \<le> ps_size p)
       (if ps_pinned p then Inr (strs, p\<lparr>ps_size := ps_size p - n\<rparr>)
        else
          res_bind (string_of strs p (ps_buf p)) (\<lambda>b.
          res_bind (string_erase b (ps_size p - n) n) (\<lambda>b.
          res_bind (set_string strs p b) (\<lambda>(strs, p).
          res_bind (PinSelf strs p) (\<lambda>p. Inr (strs, p))))))"

definition ps_remove_prefix :: "strings \<Rightarrow> PinnableSlice \<Rightarrow> nat \<Rightarrow> (strings \<times> PinnableSlice) res" where
  "ps_remove_prefix strs p n =
     require (n \<le> ps_size p)
       (if ps_pinned p then
          Inr (strs, p\<lparr>ps_data := (case ps_data p of Pin m d \<Rightarrow> Pin m (d + n) | x \<Rightarrow> x), ps_size := ps_size p - n\<rparr>)
        else
          res_bind (string_of strs p (ps_buf p)) (\<lambda>b.
          res_bind (string_erase b 0 n) (\<lambda>b.
          res_bind (set_string strs p b) (\<lambda>(strs, p).
          res_bind (PinSelf strs p) (\<lambda>p. Inr (strs, p))))))"

definition ps_Reset :: "Mem \<Rightarrow> PinnableSlice \<Rightarrow> (Mem \<times> PinnableSlice) res option" where
  "ps_Reset m p =
     (case Cleanable_Reset m (ps_head p) of
        None \<Rightarrow> None
      | Some r \<Rightarrow> Some (res_bind r (\<lambda>m. Inr (m, p\<lparr>ps_pinned := False, ps_size := 0\<rparr>))))"

text \<open>The part of the move assignment after the \<open>Cleanable\<close> parts have been dealt with.\<close>

definition move_fields :: "PinnableSlice \<Rightarrow> PinnableSlice \<Rightarrow> PinnableSlice res" where
  "move_fields p other =
     (let p = p\<lparr>ps_size := ps_size other, ps_pinned := ps_pinned other\<rparr> in
      if ps_pinned p then Inr (p\<lparr>ps_data := ps_data other\<rparr>)
      else (case ps_buf other of
          Self \<Rightarrow> Inr (p\<lparr>ps_self_space := ps_self_space other, ps_buf := Self, ps_data := BufData Self\<rparr>)
        | Str i \<Rightarrow> Inr (p\<lparr>ps_buf := Str i, ps_data := ps_data other\<rparr>)
        | NoBuf \<Rightarrow> Inl Uninitialised))"

definition PinnableSlice_assign ::
  "Mem \<Rightarrow> strings \<Rightarrow> PinnableSlice \<Rightarrow> PinnableSlice \<Rightarrow> (Mem \<times> PinnableSlice \<times> PinnableSlice) res option" where
  "PinnableSlice_assign m strs p other =
     (if ps_head p \<noteq> ps_head other then
        (case Cleanable_Reset m (ps_head p) of
           None \<Rightarrow> None
         | Some r \<Rightarrow> Some (
             res_bind r (\<lambda>m.
             res_bind (Cleanable_move m (ps_head p) (ps_head other)) (\<lambda>m.
             res_bind (move_fields p other) (\<lambda>p.
             res_bind (PinSelf strs (other\<lparr>ps_self_space := [], ps_buf := Self, ps_pinned := False\<rparr>)) (\<lambda>other'.
               Inr (m, p, other')))))))
      else Some (Inr (m, p, other)))"

text \<open>
  The move constructor: the bases are default-constructed, \<open>self_space_\<close> is empty, \<open>pinned_\<close> false and
  \<open>buf_\<close> left alone; then the assignment.
\<close>

definition PinnableSlice_move_ctor ::
  "nat \<times> nat \<Rightarrow> Mem \<Rightarrow> strings \<Rightarrow> PinnableSlice \<Rightarrow> (Mem \<times> PinnableSlice \<times> PinnableSlice) res option" where
  "PinnableSlice_move_ctor junk m strs other =
     (let (c, m) = Cleanable_ctor junk m in
      PinnableSlice_assign m strs
        \<lparr>ps_head = c, ps_data = Literal, ps_size = 0, ps_self_space = [], ps_buf = NoBuf, ps_pinned = False\<rparr> other)"

section \<open>What the slice denotes\<close>

definition ps_bytes :: "strings \<Rightarrow> PinnableSlice \<Rightarrow> byte list res" where
  "ps_bytes strs p = (case ps_data p of
       Literal \<Rightarrow> read_bytes [0] 0 (ps_size p)
     | Pin m d \<Rightarrow> read_bytes m d (ps_size p)
     | BufData r \<Rightarrow> res_bind (string_of strs p r) (\<lambda>b. read_bytes (b @ [0]) 0 (ps_size p)))"

text \<open>
  \<open>shows_bytes strs p bs\<close>: the slice denotes \<open>bs\<close>; when it is not pinned, \<open>bs\<close> is the whole string behind
  \<open>buf_\<close>.
\<close>

definition shows_bytes :: "strings \<Rightarrow> PinnableSlice \<Rightarrow> byte list \<Rightarrow> bool" where
  "shows_bytes strs p bs \<longleftrightarrow> ps_bytes strs p = Inr bs \<and> ps_size p = length bs \<and>
     (if ps_pinned p then (case ps_data p of Pin m d \<Rightarrow> True | _ \<Rightarrow> False)
      else ps_data p = BufData (ps_buf p) \<and> string_of strs p (ps_buf p) = Inr bs)"

lemma shows_self:
  "\<not> ps_pinned p \<Longrightarrow> string_of strs p (ps_buf p) = Inr bs \<Longrightarrow>
   \<exists>p'. PinSelf strs p = Inr p' \<and> shows_bytes strs p' bs \<and> ps_pinned p' = ps_pinned p \<and> ps_head p' = ps_head p \<and> ps_buf p' = ps_buf p"
proof -
  assume "\<not> ps_pinned p" "string_of strs p (ps_buf p) = Inr bs"
  moreover have "string_of strs (p\<lparr>ps_data := d, ps_size := n\<rparr>) r = string_of strs p r" for d n r
    by (cases r) simp_all
  ultimately show ?thesis by (simp add: PinSelf_def shows_bytes_def ps_bytes_def)
qed

lemma set_string_ok:
  assumes "string_of strs p (ps_buf p) = Inr b"
  shows "\<exists>strs' p'. set_string strs p bs = Inr (strs', p') \<and> string_of strs' p' (ps_buf p') = Inr bs \<and>
    ps_pinned p' = ps_pinned p \<and> ps_head p' = ps_head p \<and> ps_buf p' = ps_buf p \<and>
    (\<forall>i. ps_buf p \<noteq> Str i \<longrightarrow> strs' i = strs i)"
  using assms by (cases "ps_buf p") (auto simp: set_string_def)

section \<open>Properties\<close>

lemma erase_ok:
  assumes "\<not> ps_pinned p" "string_of strs p (ps_buf p) = Inr bs" "pos \<le> length bs"
  shows "\<exists>strs' p'. res_bind (string_of strs p (ps_buf p)) (\<lambda>b.
          res_bind (string_erase b pos n) (\<lambda>b.
          res_bind (set_string strs p b) (\<lambda>(strs, p).
          res_bind (PinSelf strs p) (\<lambda>p. Inr (strs, p))))) = Inr (strs', p') \<and>
     shows_bytes strs' p' (take pos bs @ drop (pos + n) bs) \<and> \<not> ps_pinned p'"
proof -
  let ?b = "take pos bs @ drop (pos + n) bs"
  obtain strs' p1 where p1: "set_string strs p ?b = Inr (strs', p1)" "string_of strs' p1 (ps_buf p1) = Inr ?b"
    "\<not> ps_pinned p1"
    using set_string_ok [OF assms(2)] assms(1) by metis
  obtain p' where "PinSelf strs' p1 = Inr p'" "shows_bytes strs' p' ?b" "\<not> ps_pinned p'"
    using shows_self [OF p1(3,2)] p1(3) by blast
  with p1(1) assms(2,3) show ?thesis by (simp add: string_erase_def)
qed

lemma shows_pinned:
  "ps_pinned p \<Longrightarrow> shows_bytes strs p bs \<longleftrightarrow>
     (\<exists>m d. ps_data p = Pin m d \<and> d + ps_size p \<le> length m \<and> bs = take (ps_size p) (drop d m))"
  by (auto simp: shows_bytes_def ps_bytes_def read_bytes_Inr_iff split: dptr.splits)

lemma shows_size: "shows_bytes strs p bs \<Longrightarrow> ps_size p = length bs"
  by (simp add: shows_bytes_def)

lemma shows_string: "shows_bytes strs p bs \<Longrightarrow> \<not> ps_pinned p \<Longrightarrow> string_of strs p (ps_buf p) = Inr bs"
  by (simp add: shows_bytes_def)

lemma remove_prefix_shows:
  assumes sh: "shows_bytes strs p bs" and n: "n \<le> length bs"
  shows "\<exists>strs' p'. ps_remove_prefix strs p n = Inr (strs', p') \<and> shows_bytes strs' p' (drop n bs) \<and> ps_pinned p' = ps_pinned p"
proof (cases "ps_pinned p")
  case True
  with sh obtain m d where md: "ps_data p = Pin m d" "d + ps_size p \<le> length m" "bs = take (ps_size p) (drop d m)"
    by (auto simp: shows_pinned)
  have "n \<le> ps_size p" using n shows_size [OF sh] by simp
  moreover have "drop n bs = take (ps_size p - n) (drop (d + n) m)" by (simp add: md(3) drop_take add.commute)
  ultimately show ?thesis using True md(1,2) by (simp add: ps_remove_prefix_def shows_pinned)
next
  case False
  then show ?thesis
    using erase_ok [OF False shows_string [OF sh], of 0 n] n shows_size [OF sh] by (simp add: ps_remove_prefix_def)
qed

lemma remove_suffix_shows:
  assumes sh: "shows_bytes strs p bs" and n: "n \<le> length bs"
  shows "\<exists>strs' p'. ps_remove_suffix strs p n = Inr (strs', p') \<and> shows_bytes strs' p' (take (length bs - n) bs) \<and>
    ps_pinned p' = ps_pinned p"
proof (cases "ps_pinned p")
  case True
  with sh obtain m d where md: "ps_data p = Pin m d" "d + ps_size p \<le> length m" "bs = take (ps_size p) (drop d m)"
    by (auto simp: shows_pinned)
  have k: "n \<le> ps_size p" using n shows_size [OF sh] by simp
  have "take (ps_size p - n) bs = take (ps_size p - n) (drop d m)" unfolding md(3) by simp
  then show ?thesis
    unfolding shows_size [OF sh, symmetric] using True md(1,2) k by (simp add: ps_remove_suffix_def shows_pinned)
next
  case False
  then show ?thesis
    using erase_ok [OF False shows_string [OF sh], of "length bs - n" n] n shows_size [OF sh]
    by (simp add: ps_remove_suffix_def)
qed

lemma PinSelf_slice_shows:
  assumes sh: "shows_bytes strs p bs" and wf: "slice_wf s" and np: "\<not> ps_pinned p"
  shows "\<exists>strs' p'. PinSelf_slice strs p s = Inr (strs', p') \<and> shows_bytes strs' p' (slice_bytes s)"
proof -
  obtain strs' p1 where p1: "set_string strs p (slice_bytes s) = Inr (strs', p1)"
    "string_of strs' p1 (ps_buf p1) = Inr (slice_bytes s)" "\<not> ps_pinned p1"
    using set_string_ok [OF shows_string [OF sh np]] np by metis
  then obtain p' where "PinSelf strs' p1 = Inr p'" "shows_bytes strs' p' (slice_bytes s)"
    using shows_self [OF p1(3,2)] by blast
  with p1 wf np show ?thesis by (simp add: PinSelf_slice_def PinSelf_def slice_read_def slice_wf_def slice_bytes_def)
qed

text \<open>
  a \<open>PinnableSlice\<close> behaves like the byte string it shows, pinned or not: \<open>remove_prefix\<close> drops bytes
  at the front and \<open>remove_suffix\<close> at the back (by moving the bounds of a pinned slice, by erasing from
  the string of the other kind), both fail their assertion exactly when there are not enough bytes, and
  \<open>PinSelf\<close> makes it show a copy of the given slice.
\<close>

theorem pinnable_slice_bytes:
  assumes sh: "shows_bytes strs p bs"
  shows "(if n \<le> length bs
          then (\<exists>strs' p'. ps_remove_prefix strs p n = Inr (strs', p') \<and> shows_bytes strs' p' (drop n bs)
                  \<and> ps_pinned p' = ps_pinned p) \<and>
               (\<exists>strs' p'. ps_remove_suffix strs p n = Inr (strs', p') \<and>
                  shows_bytes strs' p' (take (length bs - n) bs) \<and> ps_pinned p' = ps_pinned p)
          else ps_remove_prefix strs p n = Inl AssertFailed \<and> ps_remove_suffix strs p n = Inl AssertFailed) \<and>
    (slice_wf s \<longrightarrow>
       (if ps_pinned p then PinSelf_slice strs p s = Inl AssertFailed
        else \<exists>strs' p'. PinSelf_slice strs p s = Inr (strs', p') \<and> shows_bytes strs' p' (slice_bytes s)))"
proof -
  have "PinSelf_slice strs p s = Inl AssertFailed" if "ps_pinned p" using that by (simp add: PinSelf_slice_def)
  with PinSelf_slice_shows [OF sh] have "slice_wf s \<longrightarrow>
       (if ps_pinned p then PinSelf_slice strs p s = Inl AssertFailed
        else \<exists>strs' p'. PinSelf_slice strs p s = Inr (strs', p') \<and> shows_bytes strs' p' (slice_bytes s))"
    by (cases "ps_pinned p") simp_all
  moreover have "ps_remove_prefix strs p n = Inl AssertFailed \<and> ps_remove_suffix strs p n = Inl AssertFailed"
    if "\<not> n \<le> length bs"
    using that shows_size [OF sh] by (simp add: ps_remove_prefix_def ps_remove_suffix_def)
  ultimately show ?thesis
    using remove_prefix_shows [OF sh, of n] remove_suffix_shows [OF sh, of n]
    by (cases "n \<le> length bs") (simp_all only: if_True if_False simp_thms)
qed

theorem pinnable_slice_bytes_witness:
  "\<exists>strs' p'. ps_remove_prefix (\<lambda>i. [97, 98, 99])
       \<lparr>ps_head = 0, ps_data = BufData (Str 4), ps_size = 3, ps_self_space = [], ps_buf = Str 4, ps_pinned = False\<rparr> 2
     = Inr (strs', p') \<and> shows_bytes strs' p' [99]"
proof -
  let ?p = "\<lparr>ps_head = 0, ps_data = BufData (Str 4), ps_size = 3, ps_self_space = [], ps_buf = Str 4, ps_pinned = False\<rparr>"
  have "shows_bytes (\<lambda>i. [97, 98, 99]) ?p [97, 98, 99]" by (simp add: shows_bytes_def ps_bytes_def)
  from pinnable_slice_bytes [OF this, of 2 Slice_default] show ?thesis by auto
qed

text \<open>
  C11: pinning and releasing. Pinning a slice that is valid makes the object show its bytes without
  copying; the next \<open>Reset\<close> makes the calls that were pending and the registered one, each once, and
  leaves the object empty, unpinned and with nothing pending. A second \<open>PinSlice\<close> before that fails
  its assertion.
\<close>

theorem pin_slice_lifecycle:
  assumes inv: "store_inv m ow pend" and pend: "pend (ps_head p) = Some ts"
    and "\<not> ps_pinned p" "slice_wf s"
  shows "\<exists>m1 p1 m2 p2. PinSlice m p s (Some f) a b = Inr (m1, p1) \<and> shows_bytes strs p1 (slice_bytes s) \<and>
    PinSlice m1 p1 s' g a' b' = Inl AssertFailed \<and>
    ps_Reset m1 p1 = Some (Inr (m2, p2)) \<and> mm_log m2 = mm_log m @ insert2 (f, a, b) ts \<and>
    ps_size p2 = 0 \<and> \<not> ps_pinned p2 \<and> (\<exists>ow'. store_inv m2 ow' (pend(ps_head p \<mapsto> [])))"
proof -
  let ?p = "p\<lparr>ps_pinned := True, ps_data := Pin (sl_base s) (sl_data s), ps_size := sl_size s\<rparr>"
  obtain m1 ns where m1: "RegisterCleanup m (ps_head p) (Some f) a b = Inr m1" "mm_log m1 = mm_log m"
    "store_inv m1 (ow(ps_head p \<mapsto> ns)) (pend(ps_head p \<mapsto> insert2 (f, a, b) ts))"
    using RegisterCleanup_ok [OF inv pend, of f a b] by blast
  obtain m2 where m2: "Cleanable_Reset m1 (ps_head p) = Some (Inr m2)" "mm_log m2 = mm_log m1 @ insert2 (f, a, b) ts"
    "store_inv m2 (ow(ps_head p \<mapsto> ns, ps_head p \<mapsto> [])) (pend(ps_head p \<mapsto> insert2 (f, a, b) ts, ps_head p \<mapsto> []))"
    using Cleanable_Reset_ok [OF m1(3), of "ps_head p"] by auto
  have "PinSlice m p s (Some f) a b = Inr (m1, ?p)" using assms(3) m1(1) by (simp add: PinSlice_def)
  moreover have "shows_bytes strs ?p (slice_bytes s)"
    using assms(4) by (simp add: shows_pinned slice_wf_def slice_bytes_def)
  moreover have "PinSlice m1 ?p s' g a' b' = Inl AssertFailed" by (simp add: PinSlice_def)
  moreover have "ps_Reset m1 ?p = Some (Inr (m2, ?p\<lparr>ps_pinned := False, ps_size := 0\<rparr>))"
    using m2(1) by (simp add: ps_Reset_def)
  ultimately show ?thesis using m1(2) m2(2,3) by fastforce
qed

text \<open>A fresh store with one object.\<close>

definition one_object :: Mem where
  "one_object = snd (Cleanable_ctor (0, 0) \<lparr>mm_node = Map.empty, mm_fresh = 0, mm_log = []\<rparr>)"

lemma one_object_inv: "store_inv one_object [0 \<mapsto> []] [0 \<mapsto> []]"
proof -
  have "store_inv \<lparr>mm_node = Map.empty, mm_fresh = 0, mm_log = []\<rparr> Map.empty Map.empty"
    by (simp add: store_inv_def footprint_def)
  from Cleanable_ctor_inv(1) [OF this, of "(0, 0)"] show ?thesis by (simp add: one_object_def)
qed

theorem pin_slice_lifecycle_witness:
  "\<exists>m1 p1 m2 p2. PinSlice one_object
       \<lparr>ps_head = 0, ps_data = Literal, ps_size = 0, ps_self_space = [], ps_buf = Self, ps_pinned = False\<rparr>
       (Slice_ptr [97, 98, 99] 1 2) (Some 7) 1 2 = Inr (m1, p1) \<and> shows_bytes (\<lambda>i. []) p1 [98, 99] \<and>
     ps_Reset m1 p1 = Some (Inr (m2, p2)) \<and> mm_log m2 = [(7, 1, 2)]"
proof -
  let ?p = "\<lparr>ps_head = 0, ps_data = Literal, ps_size = 0, ps_self_space = [], ps_buf = Self, ps_pinned = False\<rparr>"
  have s: "slice_wf (Slice_ptr [97, 98, 99] 1 2)" "slice_bytes (Slice_ptr [97, 98, 99] 1 2) = [98, 99]"
    "mm_log one_object = []"
    by (simp_all add: slice_wf_def slice_bytes_def Slice_ptr_def one_object_def Cleanable_ctor_def new_node_def)
  show ?thesis
    using pin_slice_lifecycle [OF one_object_inv, of ?p "[]" "Slice_ptr [97, 98, 99] 1 2" 7 1 2 "\<lambda>i. []"
        Slice_default None 0 0] s by auto
qed

lemma PinnableSlice_assign_ok:
  assumes inv: "store_inv m ow pend" and "pend (ps_head p) = Some ts" "pend (ps_head q) = Some us"
    and "ps_head p \<noteq> ps_head q" and sh: "shows_bytes strs q bs"
  shows "\<exists>m' p' q'. PinnableSlice_assign m strs p q = Some (Inr (m', p', q')) \<and>
    mm_log m' = mm_log m @ ts \<and> shows_bytes strs p' bs \<and> ps_pinned p' = ps_pinned q \<and> ps_head p' = ps_head p \<and>
    (ps_pinned q \<longrightarrow> ps_buf p' = ps_buf p) \<and> shows_bytes strs q' [] \<and> \<not> ps_pinned q' \<and> ps_head q' = ps_head q \<and>
    (\<exists>ow'. store_inv m' ow' (pend(ps_head p \<mapsto> us, ps_head q \<mapsto> [])))"
proof -
  obtain m1 where m1: "Cleanable_Reset m (ps_head p) = Some (Inr m1)" "mm_log m1 = mm_log m @ ts"
    "store_inv m1 (ow(ps_head p \<mapsto> [])) (pend(ps_head p \<mapsto> []))"
    using Cleanable_Reset_ok [OF inv assms(2)] by blast
  obtain m2 ns where m2: "Cleanable_move m1 (ps_head p) (ps_head q) = Inr m2" "mm_log m2 = mm_log m1"
    "store_inv m2 (ow(ps_head p \<mapsto> [], ps_head p \<mapsto> ns, ps_head q \<mapsto> [])) (pend(ps_head p \<mapsto> [], ps_head p \<mapsto> us, ps_head q \<mapsto> []))"
    using Cleanable_move_ok [OF m1(3), of "ps_head p" "ps_head q" us] assms(3,4) by auto
  let ?q = "q\<lparr>ps_self_space := [], ps_buf := Self, ps_pinned := False\<rparr>"
  obtain q' where q': "PinSelf strs ?q = Inr q'" "shows_bytes strs q' []" "\<not> ps_pinned q'" "ps_head q' = ps_head q"
    using shows_self [of ?q strs "[]"] by auto
  have "\<exists>p'. move_fields p q = Inr p' \<and> shows_bytes strs p' bs \<and> ps_pinned p' = ps_pinned q \<and> ps_head p' = ps_head p \<and>
    (ps_pinned q \<longrightarrow> ps_buf p' = ps_buf p)"
  proof (cases "ps_pinned q")
    case True
    then show ?thesis using sh by (auto simp: move_fields_def shows_pinned)
  next
    case False
    then show ?thesis using sh
      by (cases "ps_buf q") (auto simp: move_fields_def shows_bytes_def ps_bytes_def)
  qed
  then obtain p' where "move_fields p q = Inr p'" "shows_bytes strs p' bs" "ps_pinned p' = ps_pinned q" "ps_head p' = ps_head p"
    "ps_pinned q \<longrightarrow> ps_buf p' = ps_buf p"
    by blast
  moreover from this have "PinnableSlice_assign m strs p q = Some (Inr (m2, p', q'))"
    using m1(1) m2(1) q'(1) assms(4) by (simp add: PinnableSlice_assign_def)
  ultimately show ?thesis using m1(2) m2(2,3) q'(2-4) by fastforce
qed

text \<open>
  move assignment. The calls pending at the target are made first; then the target shows the
  bytes of the source, pinned or not as the source was, and has taken over its pending calls in order,
  and the source is empty, unpinned and has nothing pending.
\<close>

theorem pinnable_slice_move:
  assumes inv: "store_inv m ow pend" and "pend (ps_head p) = Some ts" "pend (ps_head q) = Some us"
    and "ps_head p \<noteq> ps_head q" and sh: "shows_bytes strs q bs"
  shows "\<exists>m' p' q'. PinnableSlice_assign m strs p q = Some (Inr (m', p', q')) \<and>
    mm_log m' = mm_log m @ ts \<and> shows_bytes strs p' bs \<and> ps_pinned p' = ps_pinned q \<and> ps_head p' = ps_head p \<and>
    shows_bytes strs q' [] \<and> \<not> ps_pinned q' \<and> ps_head q' = ps_head q \<and>
    (\<exists>ow'. store_inv m' ow' (pend(ps_head p \<mapsto> us, ps_head q \<mapsto> [])))"
  using PinnableSlice_assign_ok [OF assms] by blast

theorem pinnable_slice_move_witness:
  "\<exists>m' p' q'. PinnableSlice_assign (snd (Cleanable_ctor (0, 0) one_object)) (\<lambda>i. [])
      \<lparr>ps_head = 0, ps_data = Literal, ps_size = 0, ps_self_space = [], ps_buf = Self, ps_pinned = False\<rparr>
      \<lparr>ps_head = 1, ps_data = Pin [97, 98] 0, ps_size = 2, ps_self_space = [], ps_buf = Self, ps_pinned = True\<rparr>
    = Some (Inr (m', p', q')) \<and> shows_bytes (\<lambda>i. []) p' [97, 98] \<and> \<not> ps_pinned q'"
proof -
  let ?p = "\<lparr>ps_head = 0, ps_data = Literal, ps_size = 0, ps_self_space = [], ps_buf = Self, ps_pinned = False\<rparr>"
  let ?q = "\<lparr>ps_head = 1, ps_data = Pin [97, 98] 0, ps_size = 2, ps_self_space = [], ps_buf = Self, ps_pinned = True\<rparr>"
  have "mm_fresh one_object = 1" by (simp add: one_object_def Cleanable_ctor_def new_node_def)
  then have inv: "store_inv (snd (Cleanable_ctor (0, 0) one_object)) [0 \<mapsto> [], 1 \<mapsto> []] [0 \<mapsto> [], 1 \<mapsto> []]"
    using Cleanable_ctor_inv(1) [OF one_object_inv, of "(0, 0)"] by simp
  have sh: "shows_bytes (\<lambda>i. []) ?q [97, 98]" by (simp add: shows_pinned)
  show ?thesis using pinnable_slice_move [OF inv, of ?p "[]" ?q "[]" "\<lambda>i. []" "[97, 98]"] sh by auto
qed

text \<open>
  an object that was move-constructed from a pinned one has no usable \<open>buf_\<close>: its constructor does
  not initialise the pointer and the assignment skips it for a pinned source, so that after \<open>Reset\<close>
  the object is unpinned but \<open>PinSelf\<close> reads an uninitialised pointer.
\<close>

theorem move_constructed_has_no_buffer:
  assumes inv: "store_inv m ow pend" and "pend (ps_head q) = Some us"
    and "shows_bytes strs q bs" "ps_pinned q"
  shows "\<exists>m1 p q' m2 p2. PinnableSlice_move_ctor junk m strs q = Some (Inr (m1, p, q')) \<and>
    shows_bytes strs p bs \<and> ps_Reset m1 p = Some (Inr (m2, p2)) \<and> \<not> ps_pinned p2 \<and>
    PinSelf strs p2 = Inl Uninitialised \<and> PinSelf_slice strs p2 Slice_default = Inl Uninitialised"
proof -
  let ?c = "mm_fresh m" and ?m = "snd (Cleanable_ctor junk m)"
  let ?p = "\<lparr>ps_head = ?c, ps_data = Literal, ps_size = 0, ps_self_space = [], ps_buf = NoBuf, ps_pinned = False\<rparr>"
  have inv': "store_inv ?m (ow(?c \<mapsto> [])) (pend(?c \<mapsto> []))" by (rule Cleanable_ctor_inv(1) [OF inv])
  have ne: "?c \<noteq> ps_head q" using Cleanable_ctor_inv(2) [OF inv] assms(2) by auto
  obtain m1 p q' ow' where 1: "PinnableSlice_assign ?m strs ?p q = Some (Inr (m1, p, q'))" "shows_bytes strs p bs"
    "ps_head p = ?c" "ps_buf p = NoBuf" "store_inv m1 ow' (pend(?c \<mapsto> [], ?c \<mapsto> us, ps_head q \<mapsto> []))"
    using PinnableSlice_assign_ok [OF inv', of ?p "[]" q us strs bs] assms(2-4) ne by auto
  obtain m2 where 2: "Cleanable_Reset m1 ?c = Some (Inr m2)"
    using Cleanable_Reset_ok [OF 1(5), of ?c us] ne by auto
  have "PinnableSlice_move_ctor junk m strs q = Some (Inr (m1, p, q'))"
    using 1(1) by (simp add: PinnableSlice_move_ctor_def Cleanable_ctor_def new_node_def)
  moreover have "ps_Reset m1 p = Some (Inr (m2, p\<lparr>ps_pinned := False, ps_size := 0\<rparr>))"
    using 2 1(3) by (simp add: ps_Reset_def)
  ultimately show ?thesis using 1(2,4)
    by (simp add: PinSelf_def PinSelf_slice_def set_string_def slice_simps)
qed

theorem move_constructed_has_no_buffer_witness:
  "\<exists>m1 p q' m2 p2. PinnableSlice_move_ctor (0, 0) one_object (\<lambda>i. [])
      \<lparr>ps_head = 0, ps_data = Pin [97, 98] 0, ps_size = 2, ps_self_space = [], ps_buf = Self, ps_pinned = True\<rparr>
    = Some (Inr (m1, p, q')) \<and> ps_Reset m1 p = Some (Inr (m2, p2)) \<and> PinSelf (\<lambda>i. []) p2 = Inl Uninitialised"
proof -
  let ?q = "\<lparr>ps_head = 0, ps_data = Pin [97, 98] 0, ps_size = 2, ps_self_space = [], ps_buf = Self, ps_pinned = True\<rparr>"
  have "shows_bytes (\<lambda>i. []) ?q [97, 98]" by (simp add: shows_pinned)
  then show ?thesis
    using move_constructed_has_no_buffer [OF one_object_inv, of ?q "[]" "\<lambda>i. []" "[97, 98]" "(0, 0)"] by auto
qed

end
