(* ===== verification/Statuses.thy ===== *)
theory Statuses
  imports Slices
begin

text \<open>
  \<open>include/status.h\<close>: the result of an operation, with a message in a heap array that the object owns.

  Objects live under names (numbers), so that \<open>this != &s\<close> is a comparison of names, and the arrays are
  the elements of a heap: \<open>Some\<close> for an allocated array, \<open>None\<close> for one that was released. The bodies of
  \<open>CopyState\<close> and of the constructor that builds the message are not part of the repository; they are the
  arguments \<open>cp\<close> and \<open>mk\<close>. What they are documented to do, a fresh copy of the array, and an object of the given codes, without a
  severity, with a fresh array of the two messages, is \<open>CopyState_ok\<close> and \<open>MakeState_ok\<close>. The checks of \<open>ROCKSDB_ASSERT_STATUS_CHECKED\<close> are
  compiled out.
\<close>

section \<open>The data\<close>

datatype Code = kOk | kNotFound | kCorruption | kNotSupported | kInvalidArgument | kIOError | kMergeInProgress
  | kIncomplete | kShutdownInProgress | kTimedOut | kAborted | kBusy | kExpired | kTryAgain | kCompactionTooLarge
  | kColumnFamilyDropped | kMaxCode

datatype SubCode = kNone | kMutexTimeout | kLockTimeout | kLockLimit | kNoSpace | kDeadlock | kStaleFile | kMemoryLimit
  | kSpaceLimit | kPathNotFound | KMergeOperandsInsufficientCapacity | kManualCompactionPaused | kOverwritten
  | kTxnNotPrepared | kMaxSubCode

datatype Severity = kNoError | kSoftError | kHardError | kFatalError | kUnrecoverableError | kMaxSeverity

record Status =
  st_code :: Code
  st_subcode :: SubCode
  st_sev :: Severity
  st_state :: "nat option" \<comment> \<open>the address of an array, or null\<close>

type_synonym arrays = "byte list option list"

definition array_at :: "arrays \<Rightarrow> nat \<Rightarrow> byte list option" where
  "array_at h p = (if p < length h then h ! p else None)"

text \<open>\<open>delete[]\<close>: nothing on null, and a fault on an array that is not allocated.\<close>

definition delete_state :: "arrays \<Rightarrow> nat option \<Rightarrow> arrays res" where
  "delete_state h a =
     (case a of
        None \<Rightarrow> Inr h
      | Some p \<Rightarrow> if array_at h p = None then Inl UseAfterFree else Inr (h[p := None]))"

record StatusWorld =
  sw_heap :: arrays
  sw_objs :: "nat \<Rightarrow> Status option"

definition with_status :: "StatusWorld \<Rightarrow> nat \<Rightarrow> (Status \<Rightarrow> 'a res) \<Rightarrow> 'a res" where
  "with_status w x f = (case sw_objs w x of None \<Rightarrow> Inl UseAfterFree | Some s \<Rightarrow> f s)"

section \<open>Constructors\<close>

definition Status_default :: Status where
  "Status_default = \<lparr>st_code = kOk, st_subcode = kNone, st_sev = kNoError, st_state = None\<rparr>"

definition Status_code :: "Code \<Rightarrow> SubCode \<Rightarrow> Status" where
  "Status_code c sub = \<lparr>st_code = c, st_subcode = sub, st_sev = kNoError, st_state = None\<rparr>"

text \<open>What the repository only declares: \<open>Status(Code, SubCode, const Slice &, const Slice &)\<close> and \<open>CopyState\<close>.\<close>

type_synonym MakeState = "arrays \<Rightarrow> Code \<Rightarrow> SubCode \<Rightarrow> byte list \<Rightarrow> byte list \<Rightarrow> Status \<times> arrays"
type_synonym CopyState = "arrays \<Rightarrow> nat \<Rightarrow> nat \<times> arrays"

text \<open>The constructor without a subcode delegates to it.\<close>

definition Status_msg :: "MakeState \<Rightarrow> arrays \<Rightarrow> Code \<Rightarrow> byte list \<Rightarrow> byte list \<Rightarrow> Status \<times> arrays" where
  "Status_msg mk h c msg msg2 = mk h c kNone msg msg2"

text \<open>
  The factories are overloaded: with a subcode (\<open>Inl\<close>), or with one or two messages (\<open>Inr\<close>); a missing
  second message is the empty slice.
\<close>

definition make_status :: "MakeState \<Rightarrow> arrays \<Rightarrow> Code \<Rightarrow> SubCode + (byte list \<times> byte list) \<Rightarrow> Status \<times> arrays" where
  "make_status mk h c arg =
     (case arg of
        Inl sub \<Rightarrow> (Status_code c sub, h)
      | Inr (msg, msg2) \<Rightarrow> Status_msg mk h c msg msg2)"

definition Status_OK :: Status where "Status_OK = Status_default"
definition OkOverwritten :: Status where "OkOverwritten = Status_code kOk kOverwritten"
definition NotFound where "NotFound mk h arg = make_status mk h kNotFound arg"
definition Corruption where "Corruption mk h arg = make_status mk h kCorruption arg"
definition NotSupported where "NotSupported mk h arg = make_status mk h kNotSupported arg"
definition InvalidArgument where "InvalidArgument mk h arg = make_status mk h kInvalidArgument arg"
definition IOError where "IOError mk h arg = make_status mk h kIOError arg"
definition MergeInProgress where "MergeInProgress mk h arg = make_status mk h kMergeInProgress arg"
definition Incomplete where "Incomplete mk h arg = make_status mk h kIncomplete arg"
definition ShutdownInProgress where "ShutdownInProgress mk h arg = make_status mk h kShutdownInProgress arg"
definition Aborted where "Aborted mk h arg = make_status mk h kAborted arg"
definition Busy where "Busy mk h arg = make_status mk h kBusy arg"
definition TimedOut where "TimedOut mk h arg = make_status mk h kTimedOut arg"
definition Expired where "Expired mk h arg = make_status mk h kExpired arg"
definition TryAgain where "TryAgain mk h arg = make_status mk h kTryAgain arg"
definition CompactionTooLarge where "CompactionTooLarge mk h arg = make_status mk h kCompactionTooLarge arg"
definition ColumnFamilyDropped where "ColumnFamilyDropped mk h arg = make_status mk h kColumnFamilyDropped arg"

text \<open>The factories with a fixed subcode: without (\<open>None\<close>) or with messages.\<close>

definition make_sub_status ::
  "MakeState \<Rightarrow> arrays \<Rightarrow> Code \<Rightarrow> SubCode \<Rightarrow> (byte list \<times> byte list) option \<Rightarrow> Status \<times> arrays" where
  "make_sub_status mk h c sub arg =
     (case arg of None \<Rightarrow> (Status_code c sub, h) | Some (msg, msg2) \<Rightarrow> mk h c sub msg msg2)"

definition NoSpace where "NoSpace mk h arg = make_sub_status mk h kIOError kNoSpace arg"
definition MemoryLimit where "MemoryLimit mk h arg = make_sub_status mk h kAborted kMemoryLimit arg"
definition SpaceLimit where "SpaceLimit mk h arg = make_sub_status mk h kIOError kSpaceLimit arg"
definition PathNotFound where "PathNotFound mk h arg = make_sub_status mk h kIOError kPathNotFound arg"
definition TxnNotPrepared where "TxnNotPrepared mk h arg = make_sub_status mk h kInvalidArgument kTxnNotPrepared arg"

section \<open>Queries\<close>

definition status_ok :: "Status \<Rightarrow> bool" where "status_ok s \<longleftrightarrow> st_code s = kOk"
definition IsOkOverwritten :: "Status \<Rightarrow> bool" where "IsOkOverwritten s \<longleftrightarrow> st_code s = kOk \<and> st_subcode s = kOverwritten"
definition IsNotFound :: "Status \<Rightarrow> bool" where "IsNotFound s \<longleftrightarrow> st_code s = kNotFound"
definition IsCorruption :: "Status \<Rightarrow> bool" where "IsCorruption s \<longleftrightarrow> st_code s = kCorruption"
definition IsNotSupported :: "Status \<Rightarrow> bool" where "IsNotSupported s \<longleftrightarrow> st_code s = kNotSupported"
definition IsInvalidArgument :: "Status \<Rightarrow> bool" where "IsInvalidArgument s \<longleftrightarrow> st_code s = kInvalidArgument"
definition IsIOError :: "Status \<Rightarrow> bool" where "IsIOError s \<longleftrightarrow> st_code s = kIOError"
definition IsMergeInProgress :: "Status \<Rightarrow> bool" where "IsMergeInProgress s \<longleftrightarrow> st_code s = kMergeInProgress"
definition IsIncomplete :: "Status \<Rightarrow> bool" where "IsIncomplete s \<longleftrightarrow> st_code s = kIncomplete"
definition IsShutdownInProgress :: "Status \<Rightarrow> bool" where "IsShutdownInProgress s \<longleftrightarrow> st_code s = kShutdownInProgress"
definition IsTimedOut :: "Status \<Rightarrow> bool" where "IsTimedOut s \<longleftrightarrow> st_code s = kTimedOut"
definition IsAborted :: "Status \<Rightarrow> bool" where "IsAborted s \<longleftrightarrow> st_code s = kAborted"
definition IsLockLimit :: "Status \<Rightarrow> bool" where "IsLockLimit s \<longleftrightarrow> st_code s = kAborted \<and> st_subcode s = kLockLimit"
definition IsBusy :: "Status \<Rightarrow> bool" where "IsBusy s \<longleftrightarrow> st_code s = kBusy"
definition IsDeadlock :: "Status \<Rightarrow> bool" where "IsDeadlock s \<longleftrightarrow> st_code s = kBusy \<and> st_subcode s = kDeadlock"
definition IsExpired :: "Status \<Rightarrow> bool" where "IsExpired s \<longleftrightarrow> st_code s = kExpired"
definition IsTryAgain :: "Status \<Rightarrow> bool" where "IsTryAgain s \<longleftrightarrow> st_code s = kTryAgain"
definition IsCompactionTooLarge :: "Status \<Rightarrow> bool" where "IsCompactionTooLarge s \<longleftrightarrow> st_code s = kCompactionTooLarge"
definition IsColumnFamilyDropped :: "Status \<Rightarrow> bool" where "IsColumnFamilyDropped s \<longleftrightarrow> st_code s = kColumnFamilyDropped"
definition IsNoSpace :: "Status \<Rightarrow> bool" where "IsNoSpace s \<longleftrightarrow> st_code s = kIOError \<and> st_subcode s = kNoSpace"
definition IsMemoryLimit :: "Status \<Rightarrow> bool" where "IsMemoryLimit s \<longleftrightarrow> st_code s = kAborted \<and> st_subcode s = kMemoryLimit"
definition IsPathNotFound :: "Status \<Rightarrow> bool" where "IsPathNotFound s \<longleftrightarrow> st_code s = kIOError \<and> st_subcode s = kPathNotFound"
definition IsManualCompactionPaused :: "Status \<Rightarrow> bool" where
  "IsManualCompactionPaused s \<longleftrightarrow> st_code s = kIncomplete \<and> st_subcode s = kManualCompactionPaused"
definition IsTxnNotPrepared :: "Status \<Rightarrow> bool" where
  "IsTxnNotPrepared s \<longleftrightarrow> st_code s = kInvalidArgument \<and> st_subcode s = kTxnNotPrepared"

definition Status_eq :: "Status \<Rightarrow> Status \<Rightarrow> bool" where "Status_eq s r \<longleftrightarrow> st_code s = st_code r"
definition Status_ne :: "Status \<Rightarrow> Status \<Rightarrow> bool" where "Status_ne s r \<longleftrightarrow> \<not> Status_eq s r"

section \<open>Copying, moving, destroying\<close>

definition copy_state :: "CopyState \<Rightarrow> arrays \<Rightarrow> nat option \<Rightarrow> (nat option \<times> arrays) res" where
  "copy_state cp h a =
     (case a of
        None \<Rightarrow> Inr (None, h)
      | Some p \<Rightarrow>
          if array_at h p = None then Inl UseAfterFree else (let (q, h) = cp h p in Inr (Some q, h)))"

definition Status_copy_ctor :: "CopyState \<Rightarrow> StatusWorld \<Rightarrow> nat \<Rightarrow> nat \<Rightarrow> StatusWorld res" where
  "Status_copy_ctor cp w this s =
     with_status w s (\<lambda>st.
     res_bind (copy_state cp (sw_heap w) (st_state st)) (\<lambda>(p, h).
       Inr \<lparr>sw_heap = h, sw_objs = (sw_objs w)(this \<mapsto>
         \<lparr>st_code = st_code st, st_subcode = st_subcode st, st_sev = st_sev st, st_state = p\<rparr>)\<rparr>))"

definition Status_copy_sev_ctor :: "CopyState \<Rightarrow> StatusWorld \<Rightarrow> nat \<Rightarrow> nat \<Rightarrow> Severity \<Rightarrow> StatusWorld res" where
  "Status_copy_sev_ctor cp w this s sev =
     with_status w s (\<lambda>st.
     res_bind (copy_state cp (sw_heap w) (st_state st)) (\<lambda>(p, h).
       Inr \<lparr>sw_heap = h, sw_objs = (sw_objs w)(this \<mapsto>
         \<lparr>st_code = st_code st, st_subcode = st_subcode st, st_sev = sev, st_state = p\<rparr>)\<rparr>))"

definition Status_copy_assign :: "CopyState \<Rightarrow> StatusWorld \<Rightarrow> nat \<Rightarrow> nat \<Rightarrow> StatusWorld res" where
  "Status_copy_assign cp w this s =
     (if this \<noteq> s then
        with_status w this (\<lambda>th. with_status w s (\<lambda>st.
        res_bind (delete_state (sw_heap w) (st_state th)) (\<lambda>h.
        res_bind (copy_state cp h (st_state st)) (\<lambda>(p, h).
          Inr \<lparr>sw_heap = h, sw_objs = (sw_objs w)(this \<mapsto>
            \<lparr>st_code = st_code st, st_subcode = st_subcode st, st_sev = st_sev st, st_state = p\<rparr>)\<rparr>))))
      else Inr w)"

definition Status_move_assign :: "StatusWorld \<Rightarrow> nat \<Rightarrow> nat \<Rightarrow> StatusWorld res" where
  "Status_move_assign w this s =
     (if this \<noteq> s then
        with_status w this (\<lambda>th. with_status w s (\<lambda>st.
        res_bind (delete_state (sw_heap w) (st_state th)) (\<lambda>h.
          Inr \<lparr>sw_heap = h, sw_objs = (sw_objs w)(
            this \<mapsto> \<lparr>st_code = st_code st, st_subcode = st_subcode st, st_sev = st_sev st, st_state = st_state st\<rparr>,
            s \<mapsto> \<lparr>st_code = kOk, st_subcode = kNone, st_sev = kNoError, st_state = None\<rparr>)\<rparr>)))
      else Inr w)"

definition Status_move_ctor :: "StatusWorld \<Rightarrow> nat \<Rightarrow> nat \<Rightarrow> StatusWorld res" where
  "Status_move_ctor w this s = Status_move_assign (w\<lparr>sw_objs := (sw_objs w)(this \<mapsto> Status_default)\<rparr>) this s"

definition Status_dtor :: "StatusWorld \<Rightarrow> nat \<Rightarrow> StatusWorld res" where
  "Status_dtor w this =
     with_status w this (\<lambda>th.
     res_bind (delete_state (sw_heap w) (st_state th)) (\<lambda>h.
       Inr \<lparr>sw_heap = h, sw_objs = (sw_objs w)(this := None)\<rparr>))"

text \<open>A program over statuses: the operations on the objects, one after the other.\<close>

datatype StatusOp = NewStatus nat | NewCode nat Code SubCode | NewMsg nat Code SubCode "byte list" "byte list"
  | CopyNew nat nat | CopySev nat nat Severity | CopyAssign nat nat | MoveNew nat nat | MoveAssign nat nat | Destroy nat

fun status_op :: "CopyState \<Rightarrow> MakeState \<Rightarrow> StatusOp \<Rightarrow> StatusWorld \<Rightarrow> StatusWorld res" where
  "status_op cp mk (NewStatus x) w = Inr (w\<lparr>sw_objs := (sw_objs w)(x \<mapsto> Status_default)\<rparr>)"
| "status_op cp mk (NewCode x c sub) w = Inr (w\<lparr>sw_objs := (sw_objs w)(x \<mapsto> Status_code c sub)\<rparr>)"
| "status_op cp mk (NewMsg x c sub m1 m2) w =
     (let (s, h) = mk (sw_heap w) c sub m1 m2 in Inr \<lparr>sw_heap = h, sw_objs = (sw_objs w)(x \<mapsto> s)\<rparr>)"
| "status_op cp mk (CopyNew x y) w = Status_copy_ctor cp w x y"
| "status_op cp mk (CopySev x y sev) w = Status_copy_sev_ctor cp w x y sev"
| "status_op cp mk (CopyAssign x y) w = Status_copy_assign cp w x y"
| "status_op cp mk (MoveNew x y) w = Status_move_ctor w x y"
| "status_op cp mk (MoveAssign x y) w = Status_move_assign w x y"
| "status_op cp mk (Destroy x) w = Status_dtor w x"

fun status_run :: "CopyState \<Rightarrow> MakeState \<Rightarrow> StatusOp list \<Rightarrow> StatusWorld \<Rightarrow> StatusWorld res" where
  "status_run cp mk [] w = Inr w"
| "status_run cp mk (p # ps) w = res_bind (status_op cp mk p w) (status_run cp mk ps)"

section \<open>The abstract specification: statuses are values\<close>

text \<open>\<open>fmt\<close> is what the array built from two messages holds.\<close>

definition CopyState_ok :: "CopyState \<Rightarrow> bool" where
  "CopyState_ok cp \<longleftrightarrow> (\<forall>h p b. array_at h p = Some b \<longrightarrow>
     array_at h (fst (cp h p)) = None \<and> array_at (snd (cp h p)) = (array_at h)(fst (cp h p) \<mapsto> b))"

definition MakeState_ok :: "(byte list \<Rightarrow> byte list \<Rightarrow> byte list) \<Rightarrow> MakeState \<Rightarrow> bool" where
  "MakeState_ok fmt mk \<longleftrightarrow> (\<forall>h c sub m1 m2. \<exists>p.
     fst (mk h c sub m1 m2) = \<lparr>st_code = c, st_subcode = sub, st_sev = kNoError, st_state = Some p\<rparr> \<and>
     array_at h p = None \<and> array_at (snd (mk h c sub m1 m2)) = (array_at h)(p \<mapsto> fmt m1 m2))"

type_synonym StatusValue = "Code \<times> SubCode \<times> Severity \<times> byte list option"

definition ok_value :: StatusValue where
  "ok_value = (kOk, kNone, kNoError, None)"

fun value_op :: "(byte list \<Rightarrow> byte list \<Rightarrow> byte list) \<Rightarrow> StatusOp \<Rightarrow> (nat \<Rightarrow> StatusValue option) \<Rightarrow> (nat \<Rightarrow> StatusValue option)" where
  "value_op fmt (NewStatus x) m = m(x \<mapsto> ok_value)"
| "value_op fmt (NewCode x c sub) m = m(x \<mapsto> (c, sub, kNoError, None))"
| "value_op fmt (NewMsg x c sub m1 m2) m = m(x \<mapsto> (c, sub, kNoError, Some (fmt m1 m2)))"
| "value_op fmt (CopyNew x y) m = m(x := m y)"
| "value_op fmt (CopySev x y sev) m = m(x := map_option (\<lambda>(c, sub, _, b). (c, sub, sev, b)) (m y))"
| "value_op fmt (CopyAssign x y) m = m(x := m y)"
| "value_op fmt (MoveNew x y) m = m(x := m y, y \<mapsto> ok_value)"
| "value_op fmt (MoveAssign x y) m = (if x = y then m else m(x := m y, y \<mapsto> ok_value))"
| "value_op fmt (Destroy x) m = m(x := None)"

text \<open>The rules of the language: a constructor makes a new object, the other operands exist.\<close>

fun allowed :: "StatusOp \<Rightarrow> (nat \<Rightarrow> StatusValue option) \<Rightarrow> bool" where
  "allowed (NewStatus x) m \<longleftrightarrow> m x = None"
| "allowed (NewCode x c sub) m \<longleftrightarrow> m x = None"
| "allowed (NewMsg x c sub m1 m2) m \<longleftrightarrow> m x = None"
| "allowed (CopyNew x y) m \<longleftrightarrow> m x = None \<and> m y \<noteq> None"
| "allowed (CopySev x y sev) m \<longleftrightarrow> m x = None \<and> m y \<noteq> None"
| "allowed (CopyAssign x y) m \<longleftrightarrow> m x \<noteq> None \<and> m y \<noteq> None"
| "allowed (MoveNew x y) m \<longleftrightarrow> m x = None \<and> m y \<noteq> None"
| "allowed (MoveAssign x y) m \<longleftrightarrow> m x \<noteq> None \<and> m y \<noteq> None"
| "allowed (Destroy x) m \<longleftrightarrow> m x \<noteq> None"

fun value_run :: "(byte list \<Rightarrow> byte list \<Rightarrow> byte list) \<Rightarrow> StatusOp list \<Rightarrow> (nat \<Rightarrow> StatusValue option) \<Rightarrow> (nat \<Rightarrow> StatusValue option)" where
  "value_run fmt [] m = m"
| "value_run fmt (p # ps) m = value_run fmt ps (value_op fmt p m)"

fun allowed_run :: "(byte list \<Rightarrow> byte list \<Rightarrow> byte list) \<Rightarrow> StatusOp list \<Rightarrow> (nat \<Rightarrow> StatusValue option) \<Rightarrow> bool" where
  "allowed_run fmt [] m = True"
| "allowed_run fmt (p # ps) m = (allowed p m \<and> allowed_run fmt ps (value_op fmt p m))"

section \<open>Ownership\<close>

text \<open>
  The value of an object, and the invariant: an array is allocated iff an object owns it, and no two
  objects own the same array.
\<close>

definition value_of :: "arrays \<Rightarrow> Status \<Rightarrow> StatusValue" where
  "value_of h s = (st_code s, st_subcode s, st_sev s, Option.bind (st_state s) (array_at h))"

definition values_of :: "StatusWorld \<Rightarrow> nat \<Rightarrow> StatusValue option" where
  "values_of w x = map_option (value_of (sw_heap w)) (sw_objs w x)"

definition owns :: "StatusWorld \<Rightarrow> nat \<Rightarrow> nat \<Rightarrow> bool" where
  "owns w x p \<longleftrightarrow> (\<exists>s. sw_objs w x = Some s \<and> st_state s = Some p)"

definition sw_inv :: "StatusWorld \<Rightarrow> bool" where
  "sw_inv w \<longleftrightarrow> (\<forall>p. array_at (sw_heap w) p \<noteq> None \<longleftrightarrow> (\<exists>x. owns w x p)) \<and>
     (\<forall>x y p. owns w x p \<longrightarrow> owns w y p \<longrightarrow> x = y)"

definition unowned :: "StatusWorld \<Rightarrow> nat \<Rightarrow> bool" where
  "unowned w x \<longleftrightarrow> (\<forall>p. \<not> owns w x p)"

lemma array_at_delete: "array_at (h[p := None]) = (array_at h)(p := None)"
  by (auto simp: array_at_def fun_eq_iff nth_list_update)

lemma owns_update [simp]:
  "owns \<lparr>sw_heap = h, sw_objs = m(x \<mapsto> s)\<rparr> y p \<longleftrightarrow>
     (if y = x then st_state s = Some p else owns \<lparr>sw_heap = h, sw_objs = m\<rparr> y p)"
  "owns \<lparr>sw_heap = h, sw_objs = m(x := None)\<rparr> y p \<longleftrightarrow> y \<noteq> x \<and> owns \<lparr>sw_heap = h, sw_objs = m\<rparr> y p"
  by (auto simp: owns_def)

lemma owns_heap: "owns \<lparr>sw_heap = h, sw_objs = sw_objs w\<rparr> y p \<longleftrightarrow> owns w y p"
  by (simp add: owns_def)

lemma status_eta [simp]:
  "\<lparr>st_code = st_code s, st_subcode = st_subcode s, st_sev = st_sev s, st_state = st_state s\<rparr> = s"
  by simp

lemma sw_objs_update: "w\<lparr>sw_objs := m\<rparr> = \<lparr>sw_heap = sw_heap w, sw_objs = m\<rparr>"
  by simp

text \<open>The three changes of ownership: an array is allocated, released, or handed over.\<close>

lemma sw_inv_alloc:
  assumes "sw_inv w" "unowned w x" "st_state s = Some q" "array_at (sw_heap w) q = None"
    "array_at h = (array_at (sw_heap w))(q \<mapsto> b)"
  shows "sw_inv \<lparr>sw_heap = h, sw_objs = (sw_objs w)(x \<mapsto> s)\<rparr>"
    "values_of \<lparr>sw_heap = h, sw_objs = (sw_objs w)(x \<mapsto> s)\<rparr> =
       (values_of w)(x \<mapsto> (st_code s, st_subcode s, st_sev s, Some b))"
proof -
  have nq: "\<not> owns w y q" for y using assms(1,4) unfolding sw_inv_def by blast
  let ?w = "\<lparr>sw_heap = h, sw_objs = (sw_objs w)(x \<mapsto> s)\<rparr>"
  have o: "owns ?w z p \<longleftrightarrow> z = x \<and> p = q \<or> owns w z p" for z p
    using assms(2,3) by (auto simp: owns_heap unowned_def)
  show "sw_inv ?w"
    using assms(1,5) nq unfolding sw_inv_def o by auto
  show "values_of \<lparr>sw_heap = h, sw_objs = (sw_objs w)(x \<mapsto> s)\<rparr> =
       (values_of w)(x \<mapsto> (st_code s, st_subcode s, st_sev s, Some b))"
  proof
    fix y
    show "values_of \<lparr>sw_heap = h, sw_objs = (sw_objs w)(x \<mapsto> s)\<rparr> y =
       ((values_of w)(x \<mapsto> (st_code s, st_subcode s, st_sev s, Some b))) y"
      using nq [of y] assms(3,5)
      by (cases "sw_objs w y"; cases "st_state (the (sw_objs w y))") (auto simp: values_of_def value_of_def owns_def)
  qed
qed

lemma sw_inv_null:
  assumes "sw_inv w" "unowned w x" "st_state s = None"
  shows "sw_inv \<lparr>sw_heap = sw_heap w, sw_objs = (sw_objs w)(x \<mapsto> s)\<rparr>"
    "values_of \<lparr>sw_heap = sw_heap w, sw_objs = (sw_objs w)(x \<mapsto> s)\<rparr> =
       (values_of w)(x \<mapsto> (st_code s, st_subcode s, st_sev s, None))"
proof -
  let ?w = "\<lparr>sw_heap = sw_heap w, sw_objs = (sw_objs w)(x \<mapsto> s)\<rparr>"
  have "owns ?w z p \<longleftrightarrow> owns w z p" for z p
    using assms(2,3) by (auto simp: owns_heap unowned_def)
  then show "sw_inv ?w" using assms(1) unfolding sw_inv_def by simp
  show "values_of ?w = (values_of w)(x \<mapsto> (st_code s, st_subcode s, st_sev s, None))"
    using assms(3) by (auto simp: values_of_def value_of_def fun_eq_iff)
qed

lemma sw_inv_release:
  assumes "sw_inv w" "sw_objs w x = Some th"
  obtains h where "delete_state (sw_heap w) (st_state th) = Inr h"
    "sw_inv \<lparr>sw_heap = h, sw_objs = (sw_objs w)(x := None)\<rparr>"
    "values_of \<lparr>sw_heap = h, sw_objs = (sw_objs w)(x := None)\<rparr> = (values_of w)(x := None)"
proof (cases "st_state th")
  case None
  then have "delete_state (sw_heap w) (st_state th) = Inr (sw_heap w)" by (simp add: delete_state_def)
  moreover have "owns \<lparr>sw_heap = sw_heap w, sw_objs = (sw_objs w)(x := None)\<rparr> z p \<longleftrightarrow> owns w z p" for z p
    using assms(2) None by (auto simp: owns_def)
  then have "sw_inv \<lparr>sw_heap = sw_heap w, sw_objs = (sw_objs w)(x := None)\<rparr>" using assms(1) unfolding sw_inv_def by simp
  ultimately show thesis
    by (intro that [of "sw_heap w"]) (auto simp: values_of_def fun_eq_iff)
next
  case (Some p)
  have o: "owns w x p" using assms(2) Some by (simp add: owns_def)
  let ?w = "\<lparr>sw_heap = (sw_heap w)[p := None], sw_objs = (sw_objs w)(x := None)\<rparr>"
  have a: "array_at (sw_heap w) p \<noteq> None" and only: "owns w y p \<Longrightarrow> y = x" for y
    using assms(1) o unfolding sw_inv_def by blast+
  have "delete_state (sw_heap w) (st_state th) = Inr ((sw_heap w)[p := None])"
    using a Some by (simp add: delete_state_def)
  moreover have "sw_inv ?w"
  proof -
    have "array_at (sw_heap ?w) q \<noteq> None \<longleftrightarrow> (\<exists>y. owns ?w y q)" for q
    proof (cases "q = p")
      case True
      then show ?thesis using only by (auto simp: array_at_delete owns_heap)
    next
      case False
      then have "\<not> owns w x q" using o by (auto simp: owns_def)
      then have "(\<exists>y. owns ?w y q) \<longleftrightarrow> (\<exists>y. owns w y q)" by (auto simp: owns_heap)
      then show ?thesis using assms(1) False unfolding sw_inv_def by (simp add: array_at_delete)
    qed
    moreover have "owns ?w y q \<Longrightarrow> owns ?w z q \<Longrightarrow> y = z" for y z q
      using assms(1) unfolding sw_inv_def by (simp add: owns_heap) blast
    ultimately show ?thesis unfolding sw_inv_def by blast
  qed
  moreover have "values_of ?w y = ((values_of w)(x := None)) y" for y
    using only [of y]
    by (cases "sw_objs w y"; cases "st_state (the (sw_objs w y))")
      (auto simp: values_of_def value_of_def owns_def array_at_delete)
  ultimately show thesis by (intro that) auto
qed

lemma sw_inv_copy:
  assumes "CopyState_ok cp" "sw_inv w" "unowned w x" "sw_objs w y = Some st"
  obtains p h where "copy_state cp (sw_heap w) (st_state st) = Inr (p, h)"
    "sw_inv \<lparr>sw_heap = h, sw_objs = (sw_objs w)(x \<mapsto> \<lparr>st_code = c, st_subcode = sub, st_sev = sev, st_state = p\<rparr>)\<rparr>"
    "values_of \<lparr>sw_heap = h, sw_objs = (sw_objs w)(x \<mapsto> \<lparr>st_code = c, st_subcode = sub, st_sev = sev, st_state = p\<rparr>)\<rparr> =
       (values_of w)(x \<mapsto> (c, sub, sev, Option.bind (st_state st) (array_at (sw_heap w))))"
proof (cases "st_state st")
  case None
  let ?s = "\<lparr>st_code = c, st_subcode = sub, st_sev = sev, st_state = None\<rparr>"
  show thesis
    by (rule that [of None "sw_heap w"]) (use None sw_inv_null [OF assms(2,3), of ?s] in \<open>simp_all add: copy_state_def\<close>)
next
  case (Some p)
  then have "owns w y p" using assms(4) by (simp add: owns_def)
  then obtain b where b: "array_at (sw_heap w) p = Some b" using assms(2) unfolding sw_inv_def by blast
  let ?q = "fst (cp (sw_heap w) p)" and ?h = "snd (cp (sw_heap w) p)"
  let ?s = "\<lparr>st_code = c, st_subcode = sub, st_sev = sev, st_state = Some ?q\<rparr>"
  have q: "array_at (sw_heap w) ?q = None" "array_at ?h = (array_at (sw_heap w))(?q \<mapsto> b)"
    using assms(1) b by (auto simp: CopyState_ok_def)
  show thesis
    by (rule that [of "Some ?q" ?h])
      (use Some b sw_inv_alloc [OF assms(2,3) _ q, of ?s] in \<open>simp_all add: copy_state_def case_prod_beta\<close>)
qed

lemma sw_inv_hand_over:
  assumes "sw_inv w" "unowned w x" "x \<noteq> y" "sw_objs w y = Some st"
  shows "sw_inv \<lparr>sw_heap = sw_heap w, sw_objs = (sw_objs w)(x \<mapsto> st, y \<mapsto> Status_default)\<rparr>"
    "values_of \<lparr>sw_heap = sw_heap w, sw_objs = (sw_objs w)(x \<mapsto> st, y \<mapsto> Status_default)\<rparr> =
       (values_of w)(x := values_of w y, y \<mapsto> ok_value)"
proof -
  let ?w = "\<lparr>sw_heap = sw_heap w, sw_objs = (sw_objs w)(x \<mapsto> st, y \<mapsto> Status_default)\<rparr>"
  have o: "owns ?w z p \<longleftrightarrow> z = x \<and> owns w y p \<or> z \<noteq> y \<and> owns w z p" for z p
    using assms(2-4) by (auto simp: owns_def unowned_def Status_default_def)
  have ex: "(\<exists>z. owns ?w z p) \<longleftrightarrow> (\<exists>z. owns w z p)" for p
  proof
    assume "\<exists>z. owns ?w z p"
    then show "\<exists>z. owns w z p" using o by metis
  next
    assume "\<exists>z. owns w z p"
    then obtain z where "owns w z p" ..
    then have "owns ?w (if z = y then x else z) p" unfolding o by auto
    then show "\<exists>z. owns ?w z p" ..
  qed
  have uniq: "z = z'" if "owns ?w z p" "owns ?w z' p" for z z' p
  proof -
    have u: "i = j" if "owns w i p" "owns w j p" for i j using assms(1) that unfolding sw_inv_def by blast
    show ?thesis
    proof (cases "owns w y p")
      case True
      then have "owns w i p \<longleftrightarrow> i = y" for i using u by blast
      then show ?thesis using that unfolding o by auto
    next
      case False
      then have "owns w z p" "owns w z' p" using that unfolding o by simp_all
      then show ?thesis by (rule u)
    qed
  qed
  have "array_at (sw_heap ?w) p \<noteq> None \<longleftrightarrow> (\<exists>z. owns ?w z p)" for p
    unfolding ex using assms(1) unfolding sw_inv_def by simp
  then show "sw_inv ?w" unfolding sw_inv_def using uniq by blast
  show "values_of ?w = (values_of w)(x := values_of w y, y \<mapsto> ok_value)"
    using assms(3,4) by (auto simp: values_of_def value_of_def ok_value_def Status_default_def fun_eq_iff)
qed

text \<open>The simulation: every allowed operation returns, keeps the invariant, and acts on the values as specified.\<close>

definition simulates :: "StatusWorld res \<Rightarrow> (nat \<Rightarrow> StatusValue option) \<Rightarrow> bool" where
  "simulates r m \<longleftrightarrow> (\<exists>w. r = Inr w \<and> sw_inv w \<and> values_of w = m)"

lemma simulatesI: "sw_inv w \<Longrightarrow> values_of w = m \<Longrightarrow> simulates (Inr w) m"
  by (simp add: simulates_def)

lemma values_of_None [simp]: "values_of w x = None \<longleftrightarrow> sw_objs w x = None"
  by (simp add: values_of_def)

lemma no_object_unowned: "sw_objs w x = None \<Longrightarrow> unowned w x"
  by (simp add: unowned_def owns_def)

lemma copy_ctors_simulate:
  assumes "CopyState_ok cp" "sw_inv w" "sw_objs w x = None" "sw_objs w y = Some st"
  shows "simulates (Status_copy_ctor cp w x y) ((values_of w)(x := values_of w y))"
    and "simulates (Status_copy_sev_ctor cp w x y sev)
      ((values_of w)(x := map_option (\<lambda>(c, sub, _, b). (c, sub, sev, b)) (values_of w y)))"
proof -
  note u = no_object_unowned [OF assms(3)]
  show "simulates (Status_copy_ctor cp w x y) ((values_of w)(x := values_of w y))"
    by (rule sw_inv_copy [OF assms(1,2) u assms(4), of "st_code st" "st_subcode st" "st_sev st"])
      (simp add: Status_copy_ctor_def with_status_def assms(4) simulates_def values_of_def value_of_def)
  show "simulates (Status_copy_sev_ctor cp w x y sev)
      ((values_of w)(x := map_option (\<lambda>(c, sub, _, b). (c, sub, sev, b)) (values_of w y)))"
    by (rule sw_inv_copy [OF assms(1,2) u assms(4), of "st_code st" "st_subcode st" sev])
      (simp add: Status_copy_sev_ctor_def with_status_def assms(4) simulates_def values_of_def value_of_def)
qed

lemma assigns_simulate:
  assumes "CopyState_ok cp" "sw_inv w" "sw_objs w x = Some th" "sw_objs w y = Some st" "x \<noteq> y"
  shows "simulates (Status_copy_assign cp w x y) ((values_of w)(x := values_of w y))"
    and "simulates (Status_move_assign w x y) ((values_of w)(x := values_of w y, y \<mapsto> ok_value))"
proof -
  obtain h where h: "delete_state (sw_heap w) (st_state th) = Inr h"
    "sw_inv \<lparr>sw_heap = h, sw_objs = (sw_objs w)(x := None)\<rparr>"
    "values_of \<lparr>sw_heap = h, sw_objs = (sw_objs w)(x := None)\<rparr> = (values_of w)(x := None)"
    by (rule sw_inv_release [OF assms(2,3)])
  let ?w = "\<lparr>sw_heap = h, sw_objs = (sw_objs w)(x := None)\<rparr>"
  have y: "sw_objs ?w y = Some st" using assms(4,5) by simp
  have u: "unowned ?w x" by (simp add: no_object_unowned)
  have vy: "values_of w y = Some (value_of h st)"
    using fun_cong [OF h(3), of y] assms(4,5) by (simp add: values_of_def)
  show "simulates (Status_copy_assign cp w x y) ((values_of w)(x := values_of w y))"
    by (rule sw_inv_copy [OF assms(1) h(2) u y, of "st_code st" "st_subcode st" "st_sev st"])
      (simp add: Status_copy_assign_def with_status_def assms(3-5) h(1,3) simulates_def vy value_of_def)
  show "simulates (Status_move_assign w x y) ((values_of w)(x := values_of w y, y \<mapsto> ok_value))"
    using sw_inv_hand_over [OF h(2) u assms(5) y] assms(5)
    by (simp add: Status_move_assign_def with_status_def assms(3-5) h(1,3) simulates_def Status_default_def)
qed

lemma status_op_simulates:
  assumes "CopyState_ok cp" "MakeState_ok fmt mk" "sw_inv w" "allowed p (values_of w)"
  shows "simulates (status_op cp mk p w) (value_op fmt p (values_of w))"
proof (cases p)
  case (NewStatus x)
  then show ?thesis
    using assms(4) sw_inv_null [OF assms(3) no_object_unowned, of x Status_default]
    by (simp add: simulates_def Status_default_def ok_value_def sw_objs_update)
next
  case (NewCode x c sub)
  then show ?thesis
    using assms(4) sw_inv_null [OF assms(3) no_object_unowned, of x "Status_code c sub"]
    by (simp add: simulates_def Status_code_def sw_objs_update)
next
  case (NewMsg x c sub m1 m2)
  obtain q where "fst (mk (sw_heap w) c sub m1 m2) = \<lparr>st_code = c, st_subcode = sub, st_sev = kNoError, st_state = Some q\<rparr>"
    "array_at (sw_heap w) q = None" "array_at (snd (mk (sw_heap w) c sub m1 m2)) = (array_at (sw_heap w))(q \<mapsto> fmt m1 m2)"
    using assms(2) unfolding MakeState_ok_def by blast
  then show ?thesis
    using NewMsg assms(4) sw_inv_alloc [OF assms(3) no_object_unowned, of x "fst (mk (sw_heap w) c sub m1 m2)" q]
    by (simp add: simulates_def case_prod_beta)
next
  case (MoveNew x y)
  let ?w = "\<lparr>sw_heap = sw_heap w, sw_objs = (sw_objs w)(x \<mapsto> Status_default)\<rparr>"
  obtain st where st: "sw_objs w x = None" "sw_objs w y = Some st" "x \<noteq> y" using assms(4) MoveNew by fastforce
  have w: "sw_inv ?w" "values_of ?w = (values_of w)(x \<mapsto> ok_value)"
    using sw_inv_null [OF assms(3) no_object_unowned [OF st(1)], of Status_default]
    by (simp_all add: Status_default_def ok_value_def)
  show ?thesis
    using assigns_simulate(2) [OF assms(1) w(1), of x Status_default y st] st w(2) MoveNew
    by (simp add: Status_move_ctor_def sw_objs_update)
next
  case (Destroy x)
  then obtain th where th: "sw_objs w x = Some th" using assms(4) by auto
  show ?thesis
    by (rule sw_inv_release [OF assms(3) th]) (simp add: Destroy th Status_dtor_def with_status_def simulates_def)
qed (use assms copy_ctors_simulate [OF assms(1,3)] assigns_simulate [OF assms(1,3)] in
   \<open>auto simp: Status_copy_assign_def Status_move_assign_def simulatesI\<close>)

lemma status_run_simulates:
  assumes "CopyState_ok cp" "MakeState_ok fmt mk" "sw_inv w" "allowed_run fmt ps (values_of w)"
  shows "simulates (status_run cp mk ps w) (value_run fmt ps (values_of w))"
  using assms(3,4)
proof (induction ps arbitrary: w)
  case (Cons p ps)
  then obtain w' where "status_op cp mk p w = Inr w'" "sw_inv w'" "values_of w' = value_op fmt p (values_of w)"
    using status_op_simulates [OF assms(1,2), of w p] by (auto simp: simulates_def)
  with Cons.IH [of w'] Cons.prems show ?case by simp
qed (simp add: simulatesI)

definition no_statuses :: StatusWorld where
  "no_statuses = \<lparr>sw_heap = [], sw_objs = (\<lambda>x. None)\<rparr>"

lemma no_statuses_inv: "sw_inv no_statuses" "values_of no_statuses = Map.empty"
  by (auto simp: no_statuses_def sw_inv_def owns_def array_at_def values_of_def)

text \<open>An allocator that never uses an address again, and an array that joins the messages.\<close>

definition sample_CopyState :: CopyState where
  "sample_CopyState h p = (length h, h @ [array_at h p])"

definition sample_MakeState :: MakeState where
  "sample_MakeState h c sub m1 m2 =
     (\<lparr>st_code = c, st_subcode = sub, st_sev = kNoError, st_state = Some (length h)\<rparr>, h @ [Some (m1 @ m2)])"

lemma sample_states_ok: "CopyState_ok sample_CopyState" "MakeState_ok (@) sample_MakeState"
  by (auto simp: CopyState_ok_def MakeState_ok_def sample_CopyState_def sample_MakeState_def array_at_def nth_append fun_eq_iff)

text \<open>The queries that look at the code alone, and each factory with the query that is meant for it.\<close>

definition code_queries :: "(Status \<Rightarrow> bool) list" where
  "code_queries = [status_ok, IsNotFound, IsCorruption, IsNotSupported, IsInvalidArgument, IsIOError, IsMergeInProgress,
     IsIncomplete, IsShutdownInProgress, IsTimedOut, IsAborted, IsBusy, IsExpired, IsTryAgain, IsCompactionTooLarge,
     IsColumnFamilyDropped]"

definition code_factories ::
  "((MakeState \<Rightarrow> arrays \<Rightarrow> SubCode + (byte list \<times> byte list) \<Rightarrow> Status \<times> arrays) \<times> (Status \<Rightarrow> bool)) list" where
  "code_factories = [(NotFound, IsNotFound), (Corruption, IsCorruption), (NotSupported, IsNotSupported),
     (InvalidArgument, IsInvalidArgument), (IOError, IsIOError), (MergeInProgress, IsMergeInProgress),
     (Incomplete, IsIncomplete), (ShutdownInProgress, IsShutdownInProgress), (TimedOut, IsTimedOut), (Aborted, IsAborted),
     (Busy, IsBusy), (Expired, IsExpired), (TryAgain, IsTryAgain), (CompactionTooLarge, IsCompactionTooLarge),
     (ColumnFamilyDropped, IsColumnFamilyDropped)]"

definition sub_factories ::
  "((MakeState \<Rightarrow> arrays \<Rightarrow> (byte list \<times> byte list) option \<Rightarrow> Status \<times> arrays) \<times> (Status \<Rightarrow> bool) \<times> (Status \<Rightarrow> bool)) list" where
  "sub_factories = [(NoSpace, IsNoSpace, IsIOError), (MemoryLimit, IsMemoryLimit, IsAborted), (SpaceLimit, IsIOError, IsIOError),
     (PathNotFound, IsPathNotFound, IsIOError), (TxnNotPrepared, IsTxnNotPrepared, IsInvalidArgument)]"

lemmas factory_defs = make_status_def make_sub_status_def Status_msg_def Status_code_def
  NotFound_def Corruption_def NotSupported_def InvalidArgument_def IOError_def MergeInProgress_def Incomplete_def
  ShutdownInProgress_def TimedOut_def Aborted_def Busy_def Expired_def TryAgain_def CompactionTooLarge_def
  ColumnFamilyDropped_def NoSpace_def MemoryLimit_def SpaceLimit_def PathNotFound_def TxnNotPrepared_def

lemmas query_defs = status_ok_def IsNotFound_def IsCorruption_def IsNotSupported_def IsInvalidArgument_def IsIOError_def
  IsMergeInProgress_def IsIncomplete_def IsShutdownInProgress_def IsTimedOut_def IsAborted_def IsBusy_def IsExpired_def
  IsTryAgain_def IsCompactionTooLarge_def IsColumnFamilyDropped_def IsNoSpace_def IsMemoryLimit_def IsPathNotFound_def
  IsTxnNotPrepared_def

section \<open>Properties\<close>

text \<open>
  C16: statuses behave as values. Any sequence of constructions, copies, moves, assignments (self-assignment
  included) and destructions that the language allows runs without a double release or a use after
  release; the objects then have the values the abstract specification gives (a copy has the value of its source and is independent
  of it, the source of a move is OK without a message), every array is owned by exactly one object, and
  when no object is left no array is left.
\<close>

theorem statuses_are_values:
  assumes "CopyState_ok cp" "MakeState_ok fmt mk" "allowed_run fmt ps Map.empty"
  shows "\<exists>w. status_run cp mk ps no_statuses = Inr w \<and> values_of w = value_run fmt ps Map.empty \<and>
    (\<forall>p. array_at (sw_heap w) p \<noteq> None \<longleftrightarrow> (\<exists>!x. owns w x p)) \<and>
    (value_run fmt ps Map.empty = Map.empty \<longrightarrow> (\<forall>p. array_at (sw_heap w) p = None))"
proof -
  obtain w where w: "status_run cp mk ps no_statuses = Inr w" "sw_inv w" "values_of w = value_run fmt ps Map.empty"
    using status_run_simulates [OF assms(1,2) no_statuses_inv(1), of ps] assms(3)
    by (auto simp: simulates_def no_statuses_inv(2))
  have own: "array_at (sw_heap w) p \<noteq> None \<longleftrightarrow> (\<exists>!x. owns w x p)" for p
    using w(2) unfolding sw_inv_def by blast
  have "array_at (sw_heap w) p = None" if "value_run fmt ps Map.empty = Map.empty" for p
  proof -
    have "sw_objs w x = None" for x using fun_cong [OF w(3), of x] that values_of_None [of w x] by simp
    then have "\<not> owns w x p" for x by (simp add: owns_def)
    then show ?thesis using own [of p] by blast
  qed
  with w own show ?thesis by blast
qed

theorem statuses_are_values_witness:
  "\<exists>w. status_run sample_CopyState sample_MakeState
     [NewMsg 0 kIOError kNone [1] [2], CopyNew 1 0, NewStatus 2, MoveAssign 2 0, CopyAssign 0 1, CopyAssign 1 1, Destroy 0] no_statuses = Inr w \<and>
     values_of w 0 = None \<and> values_of w 1 = Some (kIOError, kNone, kNoError, Some [1, 2]) \<and> values_of w 2 = values_of w 1"
proof -
  let ?ps = "[NewMsg 0 kIOError kNone [1] [2], CopyNew 1 0, NewStatus 2, MoveAssign 2 0, CopyAssign 0 1, CopyAssign 1 1, Destroy 0]"
  have "allowed_run (@) ?ps Map.empty" by simp
  from statuses_are_values [OF sample_states_ok this] show ?thesis by (auto simp del: values_of_None status_run.simps)
qed

text \<open>
  the queries classify the statuses. Exactly one of the sixteen queries on the code holds of a status
  whose code is in range; every factory makes a status of its own class (and, with a fixed subcode,
  that of its subcode too) without a severity, and no array unless it was given a message; and
  \<open>==\<close> says whether the same queries on the code hold, whatever the subcodes, severities and messages.
\<close>

theorem status_classification:
  assumes "MakeState_ok fmt mk"
  shows "(st_code s \<noteq> kMaxCode \<longleftrightarrow> length (filter (\<lambda>q. q s) code_queries) = 1) \<and>
   (Status_eq s r \<longleftrightarrow> map (\<lambda>q. q s) code_queries = map (\<lambda>q. q r) code_queries) \<and>
   list_all (\<lambda>(f, q). q (fst (f mk h arg)) \<and> st_sev (fst (f mk h arg)) = kNoError \<and>
     (isl arg \<longleftrightarrow> st_state (fst (f mk h arg)) = None)) code_factories \<and>
   list_all (\<lambda>(f, q, q'). q (fst (f mk h arg')) \<and> q' (fst (f mk h arg')) \<and> st_sev (fst (f mk h arg')) = kNoError \<and>
     (arg' = None \<longleftrightarrow> st_state (fst (f mk h arg')) = None)) sub_factories"
proof (intro conjI)
  have mk: "st_code (fst (mk h c sub m1 m2)) = c \<and> st_subcode (fst (mk h c sub m1 m2)) = sub \<and>
      st_sev (fst (mk h c sub m1 m2)) = kNoError \<and> st_state (fst (mk h c sub m1 m2)) \<noteq> None" for c sub m1 m2
    using assms unfolding MakeState_ok_def by (metis Status.select_convs option.simps(3))
  show "st_code s \<noteq> kMaxCode \<longleftrightarrow> length (filter (\<lambda>q. q s) code_queries) = 1"
    by (cases "st_code s") (simp_all add: code_queries_def query_defs)
  show "Status_eq s r \<longleftrightarrow> map (\<lambda>q. q s) code_queries = map (\<lambda>q. q r) code_queries"
    by (cases "st_code s"; cases "st_code r") (simp_all add: code_queries_def query_defs Status_eq_def)
  show "list_all (\<lambda>(f, q). q (fst (f mk h arg)) \<and> st_sev (fst (f mk h arg)) = kNoError \<and>
     (isl arg \<longleftrightarrow> st_state (fst (f mk h arg)) = None)) code_factories"
    using mk by (cases arg) (auto simp: code_factories_def factory_defs query_defs)
  show "list_all (\<lambda>(f, q, q'). q (fst (f mk h arg')) \<and> q' (fst (f mk h arg')) \<and> st_sev (fst (f mk h arg')) = kNoError \<and>
     (arg' = None \<longleftrightarrow> st_state (fst (f mk h arg')) = None)) sub_factories"
    using mk by (cases arg') (auto simp: sub_factories_def factory_defs query_defs)
qed

end
