(* ===== verification/SliceParsers.thy ===== *)
theory SliceParsers
  imports Coding
begin

text \<open>
  The parsing protocol of \<open>utils/coding.h\<close>: a client holds one \<open>Slice\<close> and calls a sequence of \<open>Get\<close> routines on
  it, each of which reads at the front of the slice, advances it, and may hand out slices of what it read.

  The locale \<open>slice_parsers\<close> is the contract of one such routine: it returns, the slices it hands out and the
  slice it leaves follow each other inside the slice it got. What this gives for a whole sequence of calls
  is proved from the contract, which the routines of the code satisfy.
\<close>

section \<open>The calls of a client\<close>

text \<open>The routines, with the byte order of the machine or the delimiter where they depend on it.\<close>

datatype get_op = Get_Fixed16 bool | Get_Fixed32 bool | Get_Fixed64 bool | Get_Varint32 | Get_Varint64 | Get_Varsigned64
  | Get_LengthPrefixed | Get_Until byte

text \<open>The value returned, the slice after the call and the slices handed out; a failed \<open>Get\<close> leaves the slice where the code leaves it.\<close>

definition advanced :: "Slice \<Rightarrow> (Slice \<times> 'a) option \<Rightarrow> bool \<times> Slice \<times> Slice list" where
  "advanced input r = (case r of None \<Rightarrow> (False, input, []) | Some (input', v) \<Rightarrow> (True, input', []))"

fun call_get :: "get_op \<Rightarrow> Slice \<Rightarrow> (bool \<times> Slice \<times> Slice list) res option" where
  "call_get (Get_Fixed16 le) s = Some (res_bind (GetFixed16 le s) (\<lambda>r. Inr (advanced s r)))"
| "call_get (Get_Fixed32 le) s = Some (res_bind (GetFixed32 le s) (\<lambda>r. Inr (advanced s r)))"
| "call_get (Get_Fixed64 le) s = Some (res_bind (GetFixed64 le s) (\<lambda>r. Inr (advanced s r)))"
| "call_get Get_Varint32 s = Some (res_bind (GetVarint32 s) (\<lambda>r. Inr (advanced s r)))"
| "call_get Get_Varint64 s = Some (res_bind (GetVarint64 s) (\<lambda>r. Inr (advanced s r)))"
| "call_get Get_Varsigned64 s = Some (res_bind (GetVarsignedint64 s) (\<lambda>(ok, s', v). Inr (ok, s', [])))"
| "call_get Get_LengthPrefixed s =
     Some (res_bind (GetLengthPrefixedSlice s) (\<lambda>(ok, s', r). Inr (ok, s', case r of None \<Rightarrow> [] | Some r \<Rightarrow> [r])))"
| "call_get (Get_Until d) s = map_option (\<lambda>x. res_bind x (\<lambda>(r, s'). Inr (True, s', [r]))) (GetSliceUntil s d)"

fun run_gets :: "('op \<Rightarrow> Slice \<Rightarrow> (bool \<times> Slice \<times> Slice list) res option) \<Rightarrow> 'op list \<Rightarrow> Slice \<Rightarrow>
    (bool list \<times> Slice \<times> Slice list) res option" where
  "run_gets get [] s = Some (Inr ([], s, []))"
| "run_gets get (op # ops) s =
     (case get op s of
        None \<Rightarrow> None
      | Some (Inl e) \<Rightarrow> Some (Inl e)
      | Some (Inr (ok, s', rs)) \<Rightarrow>
          map_option (\<lambda>x. res_bind x (\<lambda>(oks, s'', rs'). Inr (ok # oks, s'', rs @ rs'))) (run_gets get ops s'))"

section \<open>Windows\<close>

text \<open>The slices \<open>rs\<close> lie one after the other between two positions.\<close>

fun ordered :: "nat \<Rightarrow> Slice list \<Rightarrow> nat \<Rightarrow> bool" where
  "ordered lo [] hi \<longleftrightarrow> lo \<le> hi"
| "ordered lo (r # rs) hi \<longleftrightarrow> lo \<le> sl_data r \<and> ordered (sl_data r + sl_size r) rs hi"

text \<open>
  From \<open>s\<close>, a parser handed out \<open>rs\<close> and left \<open>s'\<close>: all in the object of \<open>s\<close>, alive when it is, \<open>s'\<close> a suffix of \<open>s\<close>,
  and \<open>rs\<close>, in order and disjoint, in what was consumed.
\<close>

definition windows :: "Slice \<Rightarrow> Slice list \<Rightarrow> Slice \<Rightarrow> bool" where
  "windows s rs s' \<longleftrightarrow> sl_base s' = sl_base s \<and> sl_data s' + sl_size s' = sl_data s + sl_size s \<and>
     list_all (\<lambda>r. sl_base r = sl_base s) rs \<and> (sl_kind s = Live \<longrightarrow> list_all (\<lambda>r. sl_kind r = Live) (s' # rs)) \<and> ordered (sl_data s) rs (sl_data s')"

lemma ordered_append: "ordered lo rs mid \<Longrightarrow> ordered mid rs' hi \<Longrightarrow> ordered lo (rs @ rs') hi"
proof (induction rs arbitrary: lo)
  case Nil
  then show ?case by (cases rs') auto
qed simp

lemma ordered_le: "ordered lo rs hi \<Longrightarrow> lo \<le> hi"
proof (induction rs arbitrary: lo)
  case (Cons r rs)
  from Cons.IH [of "sl_data r + sl_size r"] Cons.prems show ?case by simp
qed simp

lemma ordered_mem: "ordered lo rs hi \<Longrightarrow> r \<in> set rs \<Longrightarrow> lo \<le> sl_data r \<and> sl_data r + sl_size r \<le> hi"
proof (induction rs arbitrary: lo)
  case (Cons x rs)
  then show ?case using ordered_le [of "sl_data x + sl_size x" rs hi] by fastforce
qed simp

lemma windows_refl: "windows s [] s"
  by (simp add: windows_def)

lemma windows_trans: "windows s rs s' \<Longrightarrow> windows s' rs' s'' \<Longrightarrow> windows s (rs @ rs') s''"
  by (auto simp: windows_def intro: ordered_append)

lemma windows_wf:
  assumes "windows s rs s'" "slice_wf s"
  shows "slice_wf s'" "list_all slice_wf rs"
proof -
  have s': "sl_base s' = sl_base s" "sl_data s' + sl_size s' = sl_data s + sl_size s" "\<forall>r \<in> set rs. sl_base r = sl_base s"
      "sl_kind s' = Live" "\<forall>r \<in> set rs. sl_kind r = Live"
    and o: "ordered (sl_data s) rs (sl_data s')"
    using assms by (simp_all add: windows_def list_all_iff slice_wf_def)
  then show "slice_wf s'" using assms(2) by (simp add: slice_wf_def)
  show "list_all slice_wf rs" unfolding list_all_iff
  proof
    fix r assume "r \<in> set rs"
    with ordered_mem [OF o] s' assms(2) show "slice_wf r" unfolding slice_wf_def by fastforce
  qed
qed

lemma ordered_sorted: "ordered lo rs hi \<Longrightarrow> sorted_wrt (\<lambda>a b. sl_data a + sl_size a \<le> sl_data b) rs"
proof (induction rs arbitrary: lo)
  case (Cons r rs)
  then have "ordered (sl_data r + sl_size r) rs hi" by simp
  with Cons.IH ordered_mem [OF this] show ?case by simp
qed simp

lemma windows_suffix:
  assumes "windows s rs s'"
  shows "suffix (slice_bytes s') (slice_bytes s)"
proof -
  have "sl_data s \<le> sl_data s'" using assms ordered_le by (auto simp: windows_def)
  moreover from this have "sl_size s' = sl_size s - (sl_data s' - sl_data s)"
    using assms unfolding windows_def by linarith
  ultimately have "slice_bytes s' = drop (sl_data s' - sl_data s) (slice_bytes s)"
    using assms by (simp add: windows_def slice_bytes_def drop_take add.commute)
  then show ?thesis by (simp add: suffix_drop)
qed

lemma windows_advance:
  "n \<le> sl_size s \<Longrightarrow> windows s [] (s\<lparr>sl_data := sl_data s + n, sl_size := sl_size s - n\<rparr>)"
  "2 \<le> sl_size s \<Longrightarrow> windows s [] (s\<lparr>sl_data := Suc (Suc (sl_data s)), sl_size := sl_size s - 2\<rparr>)"
  by (simp_all add: windows_def)

lemma windows_ptr:
  "sl_data s \<le> q \<Longrightarrow> q \<le> sl_data s + sl_size s \<Longrightarrow> windows s [] (Slice_ptr (sl_base s) q (sl_data s + sl_size s - q))"
  by (simp add: windows_def Slice_ptr_def)

section \<open>The contract\<close>

locale slice_parsers =
  fixes get :: "'op \<Rightarrow> Slice \<Rightarrow> (bool \<times> Slice \<times> Slice list) res option" and allowed :: "Slice \<Rightarrow> bool"
  assumes allowed_suffix: "allowed s \<Longrightarrow> windows s rs s' \<Longrightarrow> allowed s'"
    and get_windows: "slice_wf s \<Longrightarrow> allowed s \<Longrightarrow> \<exists>ok s' rs. get op s = Some (Inr (ok, s', rs)) \<and> windows s rs s'"
begin

lemma run_windows:
  assumes "slice_wf s" "allowed s"
  shows "\<exists>oks s' rs. run_gets get ops s = Some (Inr (oks, s', rs)) \<and> length oks = length ops \<and> windows s rs s'"
  using assms
proof (induction ops arbitrary: s)
  case Nil
  then show ?case by (simp add: windows_refl)
next
  case (Cons op ops)
  obtain ok s1 rs1 where 1: "get op s = Some (Inr (ok, s1, rs1))" "windows s rs1 s1"
    using get_windows Cons.prems by blast
  then obtain oks s2 rs2 where 2: "run_gets get ops s1 = Some (Inr (oks, s2, rs2))" "length oks = length ops" "windows s1 rs2 s2"
    using Cons.IH [of s1] Cons.prems windows_wf(1) allowed_suffix by metis
  then show ?case using 1 windows_trans [OF 1(2) 2(3)] by simp
qed

end

section \<open>The routines satisfy it\<close>

lemma varint_ptrs_in_bounds:
  assumes "slice_wf s"
  shows "\<exists>r. GetVarint32Ptr (sl_base s) (sl_data s) (sl_data s + sl_size s) = Inr r \<and>
      (\<forall>q v. r = Some (q, v) \<longrightarrow> sl_data s < q \<and> q \<le> sl_data s + sl_size s)"
    and "\<exists>r. GetVarint64Ptr (sl_base s) (sl_data s) (sl_data s + sl_size s) = Inr r \<and>
      (\<forall>q v. r = Some (q, v) \<longrightarrow> sl_data s < q \<and> q \<le> sl_data s + sl_size s)"
proof -
  let ?l = "sl_data s + sl_size s"
  have l: "?l \<le> length (sl_base s)" using assms by (simp add: slice_wf_def)
  show "\<exists>r. GetVarint32Ptr (sl_base s) (sl_data s) ?l = Inr r \<and> (\<forall>q v. r = Some (q, v) \<longrightarrow> sl_data s < q \<and> q \<le> ?l)"
    using varint_loop_in_bounds [OF l, of 28 "sl_data s" 0 "0 :: u32"] l
    by (auto simp: GetVarint32Ptr_fast GetVarint32PtrFallback_def)
  show "\<exists>r. GetVarint64Ptr (sl_base s) (sl_data s) ?l = Inr r \<and> (\<forall>q v. r = Some (q, v) \<longrightarrow> sl_data s < q \<and> q \<le> ?l)"
    using varint_loop_in_bounds [OF l, of 63 "sl_data s" 0 "0 :: u64"] by (auto simp: GetVarint64Ptr_def)
qed

lemma GetVarint32_windows:
  assumes "slice_wf s"
  shows "\<exists>r. GetVarint32 s = Inr r \<and> (\<forall>s' v. r = Some (s', v) \<longrightarrow> windows s [] s')"
  using varint_ptrs_in_bounds(1) [OF assms] by (auto simp: GetVarint32_def Let_def windows_ptr)

lemma GetVarint64_windows:
  assumes "slice_wf s"
  shows "\<exists>r. GetVarint64 s = Inr r \<and> (\<forall>s' v. r = Some (s', v) \<longrightarrow> windows s [] s')"
  using varint_ptrs_in_bounds(2) [OF assms] by (auto simp: GetVarint64_def Let_def windows_ptr)

lemma GetVarsignedint64_windows:
  assumes "slice_wf s"
  shows "\<exists>ok s' v. GetVarsignedint64 s = Inr (ok, s', v) \<and> windows s [] s'"
proof -
  obtain r where r: "GetVarint64Ptr (sl_base s) (sl_data s) (sl_data s + sl_size s) = Inr r"
    "\<forall>q v. r = Some (q, v) \<longrightarrow> sl_data s < q \<and> q \<le> sl_data s + sl_size s"
    using varint_ptrs_in_bounds(2) [OF assms] by blast
  then show ?thesis
    by (cases r) (auto simp: GetVarsignedint64_def GetVarsignedint64Ptr_def Let_def windows_refl windows_ptr ex_bool_eq)
qed

lemma GetLengthPrefixedSlice_windows:
  assumes "slice_wf s"
  shows "\<exists>ok s' r. GetLengthPrefixedSlice s = Inr (ok, s', r) \<and> windows s (case r of None \<Rightarrow> [] | Some r \<Rightarrow> [r]) s'"
proof -
  obtain r where r: "GetVarint32 s = Inr r" "\<forall>s' v. r = Some (s', v) \<longrightarrow> windows s [] s'"
    using GetVarint32_windows [OF assms] by blast
  show ?thesis
  proof (cases r)
    case None
    then show ?thesis using r(1) by (simp add: GetLengthPrefixedSlice_def windows_refl ex_bool_eq)
  next
    case (Some p)
    obtain s1 len where p: "p = (s1, len)" by (cases p)
    then have s1: "windows s [] s1" using r(2) Some by blast
    have "windows s1 [Slice_ptr (sl_base s1) (sl_data s1) (unat len)]
        (s1\<lparr>sl_data := sl_data s1 + unat len, sl_size := sl_size s1 - unat len\<rparr>)" if "unat len \<le> sl_size s1"
      using that by (simp add: windows_def Slice_ptr_def)
    then show ?thesis using r(1) s1 windows_trans [OF s1] by (simp add: GetLengthPrefixedSlice_def Some p remove_prefix_ok ex_bool_eq)
  qed
qed

lemma GetSliceUntil_windows:
  assumes "slice_wf s" "sl_size s < 2 ^ 32"
  shows "\<exists>r s'. GetSliceUntil s d = Some (Inr (r, s')) \<and> windows s [r] s'"
proof -
  let ?n = "length (takeWhile (\<lambda>c. c \<noteq> d) (slice_bytes s))"
  have n: "?n \<le> sl_size s" using length_takeWhile_le [of "\<lambda>c. c \<noteq> d" "slice_bytes s"] assms(1) by simp
  then have u: "until_loop s d 0 = Some (Inr (of_nat ?n))" using until_loop_ok [OF assms(1) refl, of d 0] assms(2) by simp
  have un: "unat (of_nat ?n :: u32) = ?n" using n assms(2) by (simp add: unat_of_nat take_bit_nat_eq_self_iff)
  moreover have "unat (of_nat ?n + 1 :: u32) = ?n + 1" if "?n < sl_size s"
    using unat_u32_Suc [of ?n "of_nat ?n"] that assms(2) un by simp
  ultimately show ?thesis using n u by (auto simp: GetSliceUntil_def remove_prefix_ok windows_def Slice_ptr_def)
qed

interpretation coding_gets: slice_parsers call_get "\<lambda>s. sl_size s < 2 ^ 32"
proof unfold_locales
  fix s s' :: Slice and rs
  assume "sl_size s < 2 ^ 32" "windows s rs s'"
  then show "sl_size s' < 2 ^ 32" using ordered_le [of "sl_data s" rs "sl_data s'"] by (simp add: windows_def)
next
  fix s :: Slice and op
  assume s: "slice_wf s" "sl_size s < 2 ^ 32"
  show "\<exists>ok s' rs. call_get op s = Some (Inr (ok, s', rs)) \<and> windows s rs s'"
  proof (cases op)
    case (Get_Until d)
    then show ?thesis using GetSliceUntil_windows [OF s, of d] by auto
  qed (use s GetVarint32_windows [OF s(1)] GetVarint64_windows [OF s(1)] GetVarsignedint64_windows [OF s(1)]
      GetLengthPrefixedSlice_windows [OF s(1)] in
      \<open>auto simp: GetFixed16_bytes GetFixed32_bytes GetFixed64_bytes advanced_def windows_advance windows_refl split: option.split\<close>)
qed


section \<open>Properties\<close>

text \<open>
  C36: parsing stays in its window. On a valid slice of less than 4 GiB every sequence of \<open>Get\<close> calls,
  successful or not, returns without a fault, whatever the bytes; the slice it leaves is a suffix of the one it got;
  every slice handed out is valid and lies in the same object, in the part consumed before the slice that is left; and
  they follow each other in order, so no byte is handed out twice.
\<close>

theorem parsed_slices_valid:
  assumes "slice_wf s" "sl_size s < 2 ^ 32"
  shows "\<exists>oks s' rs. run_gets call_get ops s = Some (Inr (oks, s', rs)) \<and> length oks = length ops \<and>
    slice_wf s' \<and> sl_base s' = sl_base s \<and> suffix (slice_bytes s') (slice_bytes s) \<and>
    (\<forall>r \<in> set rs. slice_wf r \<and> sl_base r = sl_base s \<and> sl_data s \<le> sl_data r \<and> sl_data r + sl_size r \<le> sl_data s') \<and>
    sorted_wrt (\<lambda>a b. sl_data a + sl_size a \<le> sl_data b) rs"
proof -
  obtain oks s' rs where run: "run_gets call_get ops s = Some (Inr (oks, s', rs))" "length oks = length ops" "windows s rs s'"
    using coding_gets.run_windows [OF assms] by blast
  have o: "ordered (sl_data s) rs (sl_data s')" using run(3) by (simp add: windows_def)
  have "\<forall>r \<in> set rs. slice_wf r \<and> sl_base r = sl_base s \<and> sl_data s \<le> sl_data r \<and> sl_data r + sl_size r \<le> sl_data s'"
    using windows_wf(2) [OF run(3) assms(1)] run(3) ordered_mem [OF o] by (simp add: list_all_iff windows_def)
  moreover have "suffix (slice_bytes s') (slice_bytes s)" using windows_suffix [OF run(3)] .
  ultimately show ?thesis
    using run ordered_sorted [OF o] windows_wf(1) [OF run(3) assms(1)] by (auto simp: windows_def)
qed

theorem parsed_slices_valid_witness:
  "slice_wf (Slice_string [2, 7, 7, 200, 1, 5, 58, 9]) \<and> sl_size (Slice_string [2, 7, 7, 200, 1, 5, 58, 9]) < 2 ^ 32 \<and>
   (\<exists>oks s' rs. run_gets call_get [Get_LengthPrefixed, Get_Varint64, Get_Until 58, Get_Fixed32 True]
       (Slice_string [2, 7, 7, 200, 1, 5, 58, 9]) = Some (Inr (oks, s', rs)) \<and> length oks = 4 \<and> slice_wf s')"
  using parsed_slices_valid [of "Slice_string [2, 7, 7, 200, 1, 5, 58, 9]"
      "[Get_LengthPrefixed, Get_Varint64, Get_Until 58, Get_Fixed32 True]"]
  by (auto simp: Slice_string_def slice_wf_def)

end
