(* ===== verification/HumanStrings.thy ===== *)
theory HumanStrings
  imports StringUtil Complex_Main
begin

text \<open>
  The routines of \<open>utils/string_util.cc\<close> that print through \<open>double\<close>, \<open>AppendHumanMicros\<close> and
  \<open>BytesToHumanString\<close>, and \<open>TimeToHumanString\<close>, whose locale and time zone are arguments.

  A finite \<open>double\<close> is a real number. \<open>printf\<close> rounds its exact value to the digits it prints, ties to even. What
  the hardware rounds is an argument: \<open>fdiv\<close> is the division, \<open>dcast\<close> the conversion from \<open>uint64_t\<close>. The
  named hypotheses \<open>fdiv_ok\<close> and \<open>dcast_ok\<close> are what IEEE 754 promises of them: a relative error of at most
  \<open>2 ^ -53\<close>, and none for integers of at most 53 bits. Dividing by 1024 only changes the exponent and is exact.
\<close>

section \<open>Printing\<close>

definition pad0 :: "nat \<Rightarrow> byte list \<Rightarrow> byte list" where
  "pad0 width s = replicate (width - length s) 48 @ s"

text \<open>The number \<open>n / 10 ^ k\<close> with \<open>k\<close> decimals.\<close>

definition decimals :: "nat \<Rightarrow> nat \<Rightarrow> byte list" where
  "decimals k n = show_nat (n div 10 ^ k) @ [46] @ pad0 k (show_nat (n mod 10 ^ k))"

definition round_even :: "real \<Rightarrow> nat" where
  "round_even x =
     (let f = \<lfloor>x\<rfloor>; d = x - of_int f in
      nat (if d < 1 / 2 \<or> (d = 1 / 2 \<and> even f) then f else f + 1))"

definition fixed_point :: "nat \<Rightarrow> real \<Rightarrow> byte list" where
  "fixed_point k x = decimals k (round_even (x * 10 ^ k))"

section \<open>The routines\<close>

text \<open>The text in \<open>output\<close> and the value returned, the length of the untruncated text.\<close>

definition AppendHumanMicros :: "(real \<Rightarrow> real \<Rightarrow> real) \<Rightarrow> u64 \<Rightarrow> nat \<Rightarrow> bool \<Rightarrow> byte list \<times> nat" where
  "AppendHumanMicros fdiv micros len fixed_format =
     (let text =
        (if micros < 10000 \<and> \<not> fixed_format then show_nat (unat micros) @ bytes_of_string '' us''
         else if micros < 10000000 \<and> \<not> fixed_format then
           fixed_point 3 (fdiv (real (unat micros)) 1000) @ bytes_of_string '' ms''
         else if micros < 1000000 * 60 \<and> \<not> fixed_format then
           fixed_point 3 (fdiv (real (unat micros)) 1000000) @ bytes_of_string '' sec''
         else if micros < 1000000 * 60 * 60 \<and> \<not> fixed_format then
           pad0 2 (show_nat (unat (micros div 1000000 div 60))) @ bytes_of_string '':'' @
           pad0 5 (fixed_point 3 (fdiv (real (unat (micros mod 60000000))) 1000000)) @ bytes_of_string '' M:S''
         else
           pad0 2 (show_nat (unat (micros div 1000000 div 3600))) @ bytes_of_string '':'' @
           pad0 2 (show_nat (unat ((micros div 1000000 div 60) mod 60))) @ bytes_of_string '':'' @
           pad0 5 (fixed_point 3 (fdiv (real (unat (micros mod 60000000))) 1000000)) @ bytes_of_string '' H:M:S'') in
      (snprintf len text, length text))"

definition size_name :: "byte list list" where
  "size_name = map bytes_of_string [''KB'', ''MB'', ''GB'', ''TB'']"

text \<open>The loop over the units.\<close>

function human_unit :: "real \<Rightarrow> nat \<Rightarrow> real \<times> nat" where
  "human_unit final_size size_idx =
     (if size_idx < 3 \<and> final_size \<ge> 1024 then human_unit (final_size / 1024) (size_idx + 1)
      else (final_size, size_idx))"
  by pat_completeness auto
termination
  by (relation "measure (\<lambda>(final_size, size_idx). 3 - size_idx)") auto

declare human_unit.simps [simp del]

definition BytesToHumanString :: "(nat \<Rightarrow> real) \<Rightarrow> u64 \<Rightarrow> byte list" where
  "BytesToHumanString dcast bytes =
     (let (final_size, size_idx) = human_unit (dcast (unat bytes) / 1024) 0 in
      snprintf 20 (fixed_point 2 final_size @ bytes_of_string '' '' @ size_name ! size_idx))"

text \<open>
  \<open>tm\<close> is what \<open>localtime_r\<close> has filled in (\<open>None\<close> when it returns a null pointer), \<open>strftime_c\<close> the text that \<open>strftime\<close> makes
  of it for the format \<open>%c\<close> in the current locale. When the text and its end do not fit, the buffer holds nothing.
\<close>

record tm =
  tm_sec :: nat
  tm_min :: nat
  tm_hour :: nat
  tm_mday :: nat
  tm_mon :: nat
  tm_year :: nat \<comment> \<open>since 1900\<close>
  tm_wday :: nat

definition TimeToHumanString :: "(int \<Rightarrow> tm option) \<Rightarrow> (tm \<Rightarrow> byte list) \<Rightarrow> u32 \<Rightarrow> byte list res" where
  "TimeToHumanString localtime_r strftime_c unixtime =
     (case localtime_r (sint unixtime) of
        None \<Rightarrow> Inl AssertFailed
      | Some timeinfo \<Rightarrow>
          let text = strftime_c timeinfo in if length text < 80 then Inr (c_str text) else Inl Uninitialised)"

text \<open>The format in the locale every program starts with: \<open>%a %b %e %H:%M:%S %Y\<close>.\<close>

definition day_names :: "string list" where
  "day_names = [''Sun'', ''Mon'', ''Tue'', ''Wed'', ''Thu'', ''Fri'', ''Sat'']"

definition month_names :: "string list" where
  "month_names = [''Jan'', ''Feb'', ''Mar'', ''Apr'', ''May'', ''Jun'', ''Jul'', ''Aug'', ''Sep'', ''Oct'', ''Nov'', ''Dec'']"

definition C_locale :: "tm \<Rightarrow> byte list" where
  "C_locale t =
     bytes_of_string (day_names ! tm_wday t) @ [32] @ bytes_of_string (month_names ! tm_mon t) @ [32] @
     (if tm_mday t < 10 then [32] else []) @ show_nat (tm_mday t) @ [32] @
     pad0 2 (show_nat (tm_hour t)) @ [58] @ pad0 2 (show_nat (tm_min t)) @ [58] @ pad0 2 (show_nat (tm_sec t)) @ [32] @
     show_nat (tm_year t + 1900)"

section \<open>Lemmas\<close>

definition tm_ok :: "tm \<Rightarrow> bool" where
  "tm_ok t \<longleftrightarrow> tm_sec t \<le> 60 \<and> tm_min t < 60 \<and> tm_hour t < 24 \<and> tm_mday t \<in> {1..31} \<and> tm_mon t < 12 \<and> tm_wday t < 7 \<and> tm_year t + 1900 < 10000"

definition fdiv_ok :: "(real \<Rightarrow> real \<Rightarrow> real) \<Rightarrow> bool" where
  "fdiv_ok fdiv \<longleftrightarrow> (\<forall>a b :: nat. a < 2 ^ 53 \<and> 0 < b \<and> b < 2 ^ 53 \<longrightarrow>
     \<bar>fdiv (real a) (real b) - real a / real b\<bar> \<le> real a / real b / 2 ^ 53)"

definition dcast_ok :: "(nat \<Rightarrow> real) \<Rightarrow> bool" where
  "dcast_ok dcast \<longleftrightarrow> (\<forall>n < 2 ^ 64. \<bar>dcast n - real n\<bar> \<le> real n / 2 ^ 53 \<and> (n < 2 ^ 53 \<longrightarrow> dcast n = real n))"

lemma round_even_close:
  assumes "0 \<le> x"
  shows "\<bar>real (round_even x) - x\<bar> \<le> 1 / 2"
proof -
  have "0 \<le> \<lfloor>x\<rfloor>" using assms by simp
  moreover have "of_int \<lfloor>x\<rfloor> \<le> x" "x < of_int \<lfloor>x\<rfloor> + 1" by linarith+
  ultimately show ?thesis by (auto simp: round_even_def Let_def)
qed

lemma round_even_near:
  assumes "\<bar>x - real n\<bar> < 1 / 2"
  shows "round_even x = n"
proof (cases "n = 0 \<and> x < 0")
  case True
  then have "\<lfloor>x\<rfloor> = -1" using assms by linarith
  then show ?thesis using True assms by (simp add: round_even_def)
next
  case False
  have "0 \<le> x"
  proof (rule ccontr)
    assume "\<not> 0 \<le> x"
    with False have "1 \<le> real n" by (cases n) simp_all
    with \<open>\<not> 0 \<le> x\<close> assms show False by linarith
  qed
  from round_even_close [OF this] assms have "\<bar>real (round_even x) - real n\<bar> < 1" by linarith
  then show ?thesis by linarith
qed

text \<open>Quotients printed with three decimals.\<close>

lemma fdiv_error:
  assumes "fdiv_ok fdiv" "a < 2 ^ 53" "0 < b" "b < 2 ^ 53"
  shows "\<bar>fdiv (real a) (real b) * 1000 - real a * 1000 / real b\<bar> \<le> real a * 1000 / real b / 2 ^ 53"
proof -
  have "\<bar>fdiv (real a) (real b) - real a / real b\<bar> \<le> real a / real b / 2 ^ 53"
    using assms by (simp add: fdiv_ok_def)
  then have "\<bar>(fdiv (real a) (real b) - real a / real b) * 1000\<bar> \<le> real a / real b / 2 ^ 53 * 1000"
    unfolding abs_mult by simp
  then show ?thesis by (simp add: algebra_simps)
qed

lemma fixed_point_ms:
  assumes "fdiv_ok fdiv" "a < 10000000"
  shows "fixed_point 3 (fdiv (real a) 1000) = decimals 3 a"
proof -
  have "\<bar>fdiv (real a) 1000 * 1000 - real a\<bar> \<le> real a / 2 ^ 53"
    using fdiv_error [OF assms(1), of a 1000] assms(2) by simp
  also have "\<dots> < 1 / 2" using assms(2) by simp
  finally show ?thesis using round_even_near [of "fdiv (real a) 1000 * 1000" a] by (simp add: fixed_point_def)
qed

lemma fixed_point_sec:
  assumes "fdiv_ok fdiv" "a < 60000000"
  shows "\<exists>n. fixed_point 3 (fdiv (real a) 1000000) = decimals 3 n \<and> \<bar>int (1000 * n) - int a\<bar> \<le> 500"
proof -
  let ?x = "fdiv (real a) 1000000 * 1000"
  have e: "\<bar>?x - real a / 1000\<bar> \<le> real a / 1000 / 2 ^ 53"
    using fdiv_error [OF assms(1), of a 1000000] assms(2) by simp
  have small: "real a / 1000 / 2 ^ 53 \<le> 1 / 1000000" "real a / 1000 / 2 ^ 53 \<le> real a / 1000" using assms(2) by simp_all
  from e small(2) have "0 \<le> ?x" by linarith
  from round_even_close [OF this] e small(1) have "\<bar>real (round_even ?x) - real a / 1000\<bar> \<le> 1 / 2 + 1 / 1000000"
    by linarith
  then have "\<bar>1000 * real (round_even ?x) - real a\<bar> < 501" by linarith
  then have "\<bar>int (1000 * round_even ?x) - int a\<bar> < 501" by linarith
  then show ?thesis by (intro exI [of _ "round_even ?x"]) (simp add: fixed_point_def)
qed

lemma length_pad0: "length (pad0 w xs) = max w (length xs)"
  by (simp add: pad0_def)

lemma length_decimals: "length (decimals k n) = length (show_nat (n div 10 ^ k)) + 1 + max k (length (show_nat (n mod 10 ^ k)))"
  by (simp add: decimals_def length_pad0)

lemma length_show_nat_pos: "1 \<le> length (show_nat n)"
  by (cases "show_nat n") (use show_nat_nonempty in auto)

lemma pad0_decimals: "pad0 5 (decimals 3 n) = decimals 3 n"
  using length_show_nat_pos [of "n div 10 ^ 3"] by (simp add: pad0_def length_decimals)

text \<open>The unit is the first in which the size is below 1024, or the last.\<close>

lemma human_unit_eq:
  "human_unit x 0 = (if x < 1024 then (x, 0) else if x < 1024 ^ 2 then (x / 1024, 1)
     else if x < 1024 ^ 3 then (x / 1024 ^ 2, 2) else (x / 1024 ^ 3, 3))"
  by (simp add: human_unit.simps [of x] human_unit.simps [of "x / 1024"] human_unit.simps [of "x / 1024 / 1024"]
      human_unit.simps [of "x / 1024 / 1024 / 1024"] human_unit.simps [of "x / 1048576"] human_unit.simps [of "x / 1073741824"])

lemma size_name_length: "i < 4 \<Longrightarrow> length (size_name ! i) = 2"
  by (auto simp: size_name_def less_Suc_eq numeral_eq_Suc bytes_of_string_def)

lemma human_unit_cases:
  obtains i where "i < 4" "human_unit (d / 1024) 0 = (d / 1024 ^ (i + 1), i)" "i < 3 \<Longrightarrow> d < 1024 ^ (i + 2)"
    "0 < i \<Longrightarrow> 1024 ^ (i + 1) \<le> d"
proof -
  consider "d < 1024 ^ 2" | "1024 ^ 2 \<le> d" "d < 1024 ^ 3" | "1024 ^ 3 \<le> d" "d < 1024 ^ 4" | "1024 ^ 4 \<le> d" by linarith
  then show thesis
  proof cases
    case 1
    then show ?thesis by (intro that [of 0]) (simp_all add: human_unit_eq)
  next
    case 2
    then show ?thesis by (intro that [of 1]) (simp_all add: human_unit_eq)
  next
    case 3
    then show ?thesis by (intro that [of 2]) (simp_all add: human_unit_eq)
  next
    case 4
    then show ?thesis by (intro that [of 3]) (simp_all add: human_unit_eq)
  qed
qed

lemma fixed_point_2:
  assumes "0 \<le> y" "y < 2 ^ 25"
  obtains n where "fixed_point 2 y = decimals 2 n" "\<bar>real n / 100 - y\<bar> \<le> 1 / 200" "length (decimals 2 n) \<le> 11"
proof -
  let ?n = "round_even (y * 100)"
  have c: "\<bar>real ?n - y * 100\<bar> \<le> 1 / 2" using round_even_close [of "y * 100"] assms(1) by simp
  have "y < 33554432" using assms(2) by simp
  with c have "real ?n < 3355443201" by linarith
  then have "?n < 3355443201" by linarith
  then have "?n div 100 < 10 ^ 8" by simp
  then have "length (show_nat (?n div 100)) \<le> 8" by (intro length_show_nat_le) simp_all
  moreover have "length (show_nat (?n mod 100)) \<le> 2" by (rule length_show_nat_le) simp_all
  moreover have "\<bar>real ?n / 100 - y\<bar> \<le> 1 / 200" using c by linarith
  ultimately show thesis by (intro that [of ?n]) (simp_all add: fixed_point_def length_decimals)
qed

text \<open>The conversion to \<open>double\<close> moves no size over the border of a unit.\<close>

lemma human_unit_dcast:
  assumes dcast: "dcast_ok dcast" and u: "u < 2 ^ 64"
  obtains i where "i < 4" "human_unit (dcast u / 1024) 0 = (dcast u / 1024 ^ (i + 1), i)"
    "i < 3 \<Longrightarrow> u < 1024 ^ (i + 2)" "0 < i \<Longrightarrow> 1024 ^ (i + 1) \<le> u" "\<not> u < 2 ^ 53 \<Longrightarrow> i = 3"
proof -
  define d where "d = dcast u"
  have d: "\<bar>d - real u\<bar> \<le> real u / 9007199254740992" and exact: "u < 2 ^ 53 \<Longrightarrow> d = real u"
    using dcast u by (auto simp: dcast_ok_def d_def)
  have ru: "real u < 18446744073709551616" using u by simp
  obtain i where i: "i < 4" "human_unit (d / 1024) 0 = (d / 1024 ^ (i + 1), i)" "i < 3 \<Longrightarrow> d < 1024 ^ (i + 2)"
    "0 < i \<Longrightarrow> 1024 ^ (i + 1) \<le> d"
    using human_unit_cases by blast
  have big: "i = 3 \<and> 1024 ^ 4 \<le> u" if "\<not> u < 2 ^ 53"
  proof -
    have "9007199254740992 \<le> real u" using that by simp
    with d ru have "1099511627776 \<le> d" by linarith
    moreover have "d < 1099511627776" if "i < 3"
    proof -
      have "(1024 :: real) ^ (i + 2) \<le> 1024 ^ 4" using that by (intro power_increasing) simp_all
      with i(3) that show ?thesis by simp
    qed
    ultimately have "i = 3" using i(1) by fastforce
    then show ?thesis using that by simp
  qed
  have "u < 1024 ^ (i + 2)" if "i < 3"
    using that big exact i(3) of_nat_less_iff [of u "1024 ^ (i + 2)", where ?'a = real] by auto
  moreover have "1024 ^ (i + 1) \<le> u" if "0 < i"
    using that big exact i(4) of_nat_le_iff [of "1024 ^ (i + 1)" u, where ?'a = real] by (cases "u < 2 ^ 53") auto
  ultimately show thesis using i(1,2) big by (intro that [of i]) (auto simp: d_def)
qed

lemma human_unit_range:
  assumes dcast: "dcast_ok dcast" and u: "u < 2 ^ 64" and i: "i < 4" "i < 3 \<Longrightarrow> u < 1024 ^ (i + 2)" "\<not> u < 2 ^ 53 \<Longrightarrow> i = 3"
  shows "0 \<le> dcast u / 1024 ^ (i + 1)" "dcast u / 1024 ^ (i + 1) < 2 ^ 25"
    "\<bar>dcast u / 1024 ^ (i + 1) - real u / 1024 ^ (i + 1)\<bar> \<le> (if u < 2 ^ 53 then 0 else 1 / 2 ^ 29)"
proof -
  define d where "d = dcast u"
  have d: "\<bar>d - real u\<bar> \<le> real u / 9007199254740992" and exact: "u < 2 ^ 53 \<Longrightarrow> d = real u"
    using dcast u by (auto simp: dcast_ok_def d_def)
  have ru: "real u < 18446744073709551616" using u by simp
  have p4: "1024 ^ (3 + 1) = (1099511627776 :: real)" by simp
  have "0 \<le> d" using d by linarith
  then show "0 \<le> dcast u / 1024 ^ (i + 1)" by (simp add: d_def)
  show "dcast u / 1024 ^ (i + 1) < 2 ^ 25"
  proof (cases "i = 3")
    case True
    have "d < 1099511627776 * 33554432" using d ru by linarith
    then show ?thesis unfolding True p4 by (simp add: d_def field_simps)
  next
    case False
    then have "u < 1024 ^ (i + 2)" using i(1,2) by simp
    moreover have "d = real u" using False i exact by blast
    ultimately have "d < 1024 ^ (i + 2)" using of_nat_less_iff [of u "1024 ^ (i + 2)", where ?'a = real] by simp
    then have "d / 1024 ^ (i + 1) < 1024" by (simp add: field_simps)
    then show ?thesis by (simp add: d_def)
  qed
  show "\<bar>dcast u / 1024 ^ (i + 1) - real u / 1024 ^ (i + 1)\<bar> \<le> (if u < 2 ^ 53 then 0 else 1 / 2 ^ 29)"
  proof (cases "u < 2 ^ 53")
    case True
    then show ?thesis using exact by (simp add: d_def)
  next
    case False
    then have i3: "i = 3" using i(3) by simp
    have "\<bar>d - real u\<bar> \<le> 2048" using d ru by linarith
    then show ?thesis using False unfolding i3 p4 by (simp add: d_def field_simps)
  qed
qed

text \<open>The times of \<open>AppendHumanMicros\<close> as numbers.\<close>

lemma micros_nat:
  fixes micros :: u64
  shows "micros < 10000 \<longleftrightarrow> unat micros < 10000" "micros < 10000000 \<longleftrightarrow> unat micros < 10000000"
    "micros < 60000000 \<longleftrightarrow> unat micros < 60000000" "micros < 3600000000 \<longleftrightarrow> unat micros < 3600000000"
    "unat (micros mod 60000000) = unat micros mod 60000000" "unat (micros div 1000000 div 60) = unat micros div 60000000"
    "unat (micros div 1000000 div 3600) = unat micros div 3600000000"
    "unat (micros div 1000000 div 60 mod 60) = unat micros div 60000000 mod 60"
  using div_mult2_eq [of "unat micros" 1000000 60] div_mult2_eq [of "unat micros" 1000000 3600]
  by (simp_all add: word_less_nat_alt unat_mod unat_div)

lemma name_lengths:
  "i < 7 \<Longrightarrow> length (bytes_of_string (day_names ! i)) = 3 \<and> 0 \<notin> set (bytes_of_string (day_names ! i))"
  "i < 12 \<Longrightarrow> length (bytes_of_string (month_names ! i)) = 3 \<and> 0 \<notin> set (bytes_of_string (month_names ! i))"
proof -
  have "\<forall>i \<in> set [0..<7]. length (bytes_of_string (day_names ! i)) = 3 \<and> 0 \<notin> set (bytes_of_string (day_names ! i))" by code_simp
  then show "i < 7 \<Longrightarrow> length (bytes_of_string (day_names ! i)) = 3 \<and> 0 \<notin> set (bytes_of_string (day_names ! i))" by simp
  have "\<forall>i \<in> set [0..<12]. length (bytes_of_string (month_names ! i)) = 3 \<and> 0 \<notin> set (bytes_of_string (month_names ! i))" by code_simp
  then show "i < 12 \<Longrightarrow> length (bytes_of_string (month_names ! i)) = 3 \<and> 0 \<notin> set (bytes_of_string (month_names ! i))" by simp
qed

lemma no_nul: "0 \<notin> set (show_nat n)" "0 \<notin> set (pad0 k (show_nat n))"
  using show_nat_digits by (fastforce simp: pad0_def is_dec_digit_def)+

text \<open>In the locale of a program that does not choose another the text of any calendar time with a year below 10000 fits and is returned whole.\<close>

lemma time_human:
  assumes "localtime_r (sint unixtime) = Some t" "tm_ok t"
  shows "TimeToHumanString localtime_r C_locale unixtime = Inr (C_locale t) \<and> length (C_locale t) \<le> 24"
proof -
  have two: "length (pad0 2 (show_nat n)) = 2" if "n < 100" for n
    using length_show_nat_le [of n 2] that by (simp add: pad0_def)
  have "length (show_nat (tm_mday t)) \<le> (if tm_mday t < 10 then 1 else 2)"
    using assms(2) length_show_nat_le [of "tm_mday t" 1] length_show_nat_le [of "tm_mday t" 2] by (auto simp: tm_ok_def)
  moreover have "length (show_nat (tm_year t + 1900)) \<le> 4" using assms(2) by (intro length_show_nat_le) (simp_all add: tm_ok_def)
  ultimately have len: "length (C_locale t) \<le> 24"
    using assms(2) name_lengths(1) [of "tm_wday t"] name_lengths(2) [of "tm_mon t"] two by (simp add: C_locale_def tm_ok_def split: if_splits)
  have "0 \<notin> set (C_locale t)"
    using assms(2) name_lengths(1) [of "tm_wday t"] name_lengths(2) [of "tm_mon t"] no_nul by (simp add: C_locale_def tm_ok_def)
  then have "c_str (C_locale t) = C_locale t" by (auto simp: c_str_def takeWhile_eq_all_conv)
  with len assms(1) show ?thesis by (simp add: TimeToHumanString_def)
qed

lemma time_human_example:
  "C_locale \<lparr>tm_sec = 55, tm_min = 6, tm_hour = 18, tm_mday = 2, tm_mon = 6, tm_year = 119, tm_wday = 2\<rparr> =
     bytes_of_string ''Tue Jul  2 18:06:55 2019''"
  by code_simp

section \<open>Properties\<close>

text \<open>
  times are printed to the thousandth. For every number of microseconds and any division within the error
  of IEEE 754, \<open>AppendHumanMicros\<close> chooses the documented unit and prints: milliseconds exactly; seconds within half
  a millisecond; minutes, and hours and minutes, exactly, with the seconds of the last minute within half a
  millisecond. It returns the length of the text, of which the buffer holds what fits.
\<close>

theorem human_micros:
  assumes "fdiv_ok fdiv"
  shows "\<exists>text. AppendHumanMicros fdiv micros len fixed_format = (snprintf len text, length text) \<and>
    (let u = unat micros; close = (\<lambda>n a. \<bar>int (1000 * n) - int a\<bar> \<le> 500) in
     if u < 10000 \<and> \<not> fixed_format then text = show_nat u @ bytes_of_string '' us''
     else if u < 10000000 \<and> \<not> fixed_format then text = decimals 3 u @ bytes_of_string '' ms''
     else if u < 60000000 \<and> \<not> fixed_format then (\<exists>n. close n u \<and> text = decimals 3 n @ bytes_of_string '' sec'')
     else if u < 3600000000 \<and> \<not> fixed_format then
       (\<exists>n. close n (u mod 60000000) \<and>
          text = pad0 2 (show_nat (u div 60000000)) @ bytes_of_string '':'' @ decimals 3 n @ bytes_of_string '' M:S'')
     else
       (\<exists>n. close n (u mod 60000000) \<and>
          text = pad0 2 (show_nat (u div 3600000000)) @ bytes_of_string '':'' @
            pad0 2 (show_nat (u div 60000000 mod 60)) @ bytes_of_string '':'' @ decimals 3 n @ bytes_of_string '' H:M:S''))"
proof -
  define u where "u = unat micros"
  obtain n where n: "fixed_point 3 (fdiv (real (u mod 60000000)) 1000000) = decimals 3 n" "\<bar>int (1000 * n) - int (u mod 60000000)\<bar> \<le> 500"
    using fixed_point_sec [OF assms, of "u mod 60000000"] by auto
  note simps = AppendHumanMicros_def Let_def micros_nat pad0_decimals u_def [symmetric] n(1)
  consider "u < 10000 \<and> \<not> fixed_format" | "\<not> u < 10000" "u < 10000000 \<and> \<not> fixed_format"
    | "\<not> u < 10000000" "u < 60000000 \<and> \<not> fixed_format" | "\<not> u < 60000000" "u < 3600000000 \<and> \<not> fixed_format"
    | "\<not> u < 3600000000 \<or> fixed_format" by linarith
  then show ?thesis
  proof cases
    case 1
    then show ?thesis by (simp add: simps)
  next
    case 2
    then show ?thesis by (simp add: simps fixed_point_ms [OF assms])
  next
    case 3
    then obtain k where k: "fixed_point 3 (fdiv (real u) 1000000) = decimals 3 k" "\<bar>int (1000 * k) - int u\<bar> \<le> 500"
      using fixed_point_sec [OF assms, of u] by auto
    let ?t = "decimals 3 k @ bytes_of_string '' sec''"
    have "AppendHumanMicros fdiv micros len fixed_format = (snprintf len ?t, length ?t)" using 3 k(1) by (simp add: simps)
    moreover have "\<exists>n. \<bar>int (1000 * n) - int u\<bar> \<le> 500 \<and> ?t = decimals 3 n @ bytes_of_string '' sec''"
      using k(2) by (intro exI [of _ k]) simp
    ultimately show ?thesis using 3 by (intro exI [of _ ?t]) (simp only: Let_def u_def [symmetric], simp)
  next
    case 4
    let ?t = "pad0 2 (show_nat (u div 60000000)) @ bytes_of_string '':'' @ decimals 3 n @ bytes_of_string '' M:S''"
    have "AppendHumanMicros fdiv micros len fixed_format = (snprintf len ?t, length ?t)" using 4 by (simp add: simps)
    moreover have "\<exists>k. \<bar>int (1000 * k) - int (u mod 60000000)\<bar> \<le> 500 \<and> ?t = pad0 2 (show_nat (u div 60000000)) @
        bytes_of_string '':'' @ decimals 3 k @ bytes_of_string '' M:S''"
      using n(2) by (intro exI [of _ n]) simp
    ultimately show ?thesis using 4 by (intro exI [of _ ?t]) (simp only: Let_def u_def [symmetric], simp)
  next
    case 5
    let ?h = "pad0 2 (show_nat (u div 3600000000)) @ bytes_of_string '':'' @ pad0 2 (show_nat (u div 60000000 mod 60)) @ bytes_of_string '':''"
    let ?t = "?h @ decimals 3 n @ bytes_of_string '' H:M:S''"
    have "AppendHumanMicros fdiv micros len fixed_format = (snprintf len ?t, length ?t)"
      using 5 by (cases fixed_format) (simp_all add: simps)
    moreover have "\<exists>k. \<bar>int (1000 * k) - int (u mod 60000000)\<bar> \<le> 500 \<and> ?t = pad0 2 (show_nat (u div 3600000000)) @
        bytes_of_string '':'' @ pad0 2 (show_nat (u div 60000000 mod 60)) @ bytes_of_string '':'' @ decimals 3 k @
        bytes_of_string '' H:M:S''"
      using n(2) by (intro exI [of _ n]) simp
    ultimately show ?thesis
      using 5 by (intro exI [of _ ?t], cases fixed_format) (simp only: Let_def u_def [symmetric], simp)+
  qed
qed

text \<open>
  C40: sizes are printed to the hundredth. Given that the conversion to \<open>double\<close> is exact below \<open>2 ^ 53\<close> and right to one part in \<open>2 ^ 53\<close> above,
  \<open>BytesToHumanString\<close> chooses the first of the units KB, MB, GB and TB, that is 1024 bytes and the next powers of 1024, in which the size is below
  1024, or TB when there is none. It prints the number, with two digits after the point, within half a hundredth of the size for sizes below \<open>2 ^ 53\<close> bytes, and within half a
  hundredth and \<open>2 ^ -29\<close> from there on, where the conversion rounds. The text has at most 14 characters and fits its buffer of 20. In particular 1048576 bytes are a
  number of MB; the comment in the header says GB.
\<close>

theorem human_bytes:
  assumes "dcast_ok dcast"
  shows "\<exists>n i. BytesToHumanString dcast bytes =
      decimals 2 n @ bytes_of_string '' '' @ map bytes_of_string [''KB'', ''MB'', ''GB'', ''TB''] ! i \<and> i < 4 \<and>
    (i < 3 \<longrightarrow> unat bytes < 1024 ^ (i + 2)) \<and> (0 < i \<longrightarrow> 1024 ^ (i + 1) \<le> unat bytes) \<and>
    \<bar>real n / 100 - real (unat bytes) / 1024 ^ (i + 1)\<bar> \<le> 1 / 200 + (if unat bytes < 2 ^ 53 then 0 else 1 / 2 ^ 29) \<and>
    length (BytesToHumanString dcast bytes) \<le> 14"
proof -
  define u where "u = unat bytes"
  have u: "u < 2 ^ 64" using unsigned_less [of bytes, where ?'a = nat] by (simp add: u_def)
  obtain i where i: "i < 4" "human_unit (dcast u / 1024) 0 = (dcast u / 1024 ^ (i + 1), i)"
    "i < 3 \<Longrightarrow> u < 1024 ^ (i + 2)" "0 < i \<Longrightarrow> 1024 ^ (i + 1) \<le> u" "\<not> u < 2 ^ 53 \<Longrightarrow> i = 3"
    using human_unit_dcast [OF assms u] by blast
  let ?y = "dcast u / 1024 ^ (i + 1)"
  note y = human_unit_range [OF assms u i(1,3,5)]
  obtain n where n: "fixed_point 2 ?y = decimals 2 n" "\<bar>real n / 100 - ?y\<bar> \<le> 1 / 200" "length (decimals 2 n) \<le> 11"
    using fixed_point_2 [OF y(1,2)] by blast
  have printed: "BytesToHumanString dcast bytes = decimals 2 n @ bytes_of_string '' '' @ size_name ! i"
    using n(1,3) i(1,2) size_name_length [OF i(1)]
    by (simp add: BytesToHumanString_def u_def [symmetric] snprintf_def bytes_of_string_def)
  have "\<bar>real n / 100 - real u / 1024 ^ (i + 1)\<bar> \<le> 1 / 200 + (if u < 2 ^ 53 then 0 else 1 / 2 ^ 29)"
    using n(2) y(3) by linarith
  moreover have "length (BytesToHumanString dcast bytes) \<le> 14"
    unfolding printed using n(3) size_name_length [OF i(1)] by (simp add: bytes_of_string_def)
  ultimately show ?thesis
    using i(1,3,4) printed unfolding u_def [symmetric] size_name_def by (intro exI [of _ n] exI [of _ i] conjI impI)
qed

lemma real_dcast_ok: "dcast_ok real"
  by (simp add: dcast_ok_def)

lemma real_fdiv_ok: "fdiv_ok (/)"
  by (simp add: fdiv_ok_def)

theorem human_micros_witness:
  "fdiv_ok (/) \<and> (\<exists>text. AppendHumanMicros (/) 8000500 8 False = (snprintf 8 text, length text) \<and>
     text = decimals 3 8000500 @ bytes_of_string '' ms'')"
  using human_micros [OF real_fdiv_ok, of 8000500 8 False] real_fdiv_ok by simp

theorem human_bytes_witness:
  "dcast_ok real \<and> (\<exists>n. BytesToHumanString real 1048576 = decimals 2 n @ bytes_of_string '' '' @ bytes_of_string ''MB'' \<and>
     \<bar>real n / 100 - 1\<bar> \<le> 1 / 200)"
proof -
  obtain n i where n: "BytesToHumanString real 1048576 =
      decimals 2 n @ bytes_of_string '' '' @ map bytes_of_string [''KB'', ''MB'', ''GB'', ''TB''] ! i"
    "i < 4" "i < 3 \<longrightarrow> unat (1048576 :: u64) < 1024 ^ (i + 2)" "0 < i \<longrightarrow> 1024 ^ (i + 1) \<le> unat (1048576 :: u64)"
    "\<bar>real n / 100 - real (unat (1048576 :: u64)) / 1024 ^ (i + 1)\<bar> \<le> 1 / 200 + (if unat (1048576 :: u64) < 2 ^ 53 then 0 else 1 / 2 ^ 29)"
    using human_bytes [OF real_dcast_ok, of 1048576] by (elim exE conjE) (rule that)
  have "i = 0 \<or> i = 1 \<or> i = 2 \<or> i = 3" using n(2) by linarith
  then have "i = 1" using n(3,4) by (elim disjE) simp_all
  with n(1,5) real_dcast_ok show ?thesis by auto
qed

lemma show_nat_digits_example: "show_nat 60 = [54, 48]" "show_nat 0 = [48]" "show_nat (Suc 0) = [49]"
  by (simp_all add: show_nat.simps [of 60] show_nat.simps [of 6] show_nat.simps [of 0] show_nat.simps [of "Suc 0"])

lemma replicate_2: "replicate 2 x = [x, x]"
  by (simp add: numeral_2_eq_2)

text \<open>A mebibyte prints as a megabyte.\<close>

lemma human_bytes_example: "BytesToHumanString real 1048576 = bytes_of_string ''1.00 MB''"
proof -
  have "fixed_point 2 1 = decimals 2 100" using round_even_near [of 100 100] by (simp add: fixed_point_def)
  moreover have "human_unit 1024 0 = (1, 1)" by (simp add: human_unit_eq)
  ultimately show ?thesis
    by (simp add: BytesToHumanString_def decimals_def pad0_def show_nat_digits_example snprintf_def bytes_of_string_def
        size_name_def replicate_2)
qed

text \<open>The seconds are rounded after the minutes were split off, so they can print as 60.\<close>

lemma human_micros_example:
  "AppendHumanMicros (/) 119999999 32 False = (bytes_of_string ''01:60.000 M:S'', 13)"
proof -
  have "fixed_point 3 (59999999 / 1000000) = decimals 3 60000"
    using round_even_near [of "59999999 / 1000" 60000] by (simp add: fixed_point_def)
  then show ?thesis
    by (simp add: AppendHumanMicros_def decimals_def pad0_def show_nat_digits_example snprintf_def bytes_of_string_def
        replicate_2)
qed

end
