(* ===== verification/Ports.thy ===== *)
theory Ports
  imports Prelude
begin

text \<open>
  \<open>port/port_posix.h\<close> and \<open>port/port_posix.cc\<close>: the classes \<open>Mutex\<close> and \<open>CondVar\<close> with the debugging flag
  \<open>locked_\<close>, and the small routines around system calls.

  A method is the list of its atomic actions: each call of a pthread function and each access to
  \<open>locked_\<close> is one action, and the actions of different threads interleave. What the pthread functions do is
  taken from POSIX: a mutex has at most one owner, \<open>pthread_cond_wait\<close> gives it up and blocks in one action
  and takes it again before it returns, also when it returns \<open>ETIMEDOUT\<close>, spurious wake-ups are possible,
  and a call that fails has no effect; only \<open>pthread_cond_timedwait\<close> returns \<open>ETIMEDOUT\<close>. The results of the other
  system calls are arguments.
\<close>

section \<open>Result codes\<close>

definition ETIMEDOUT :: int where "ETIMEDOUT = 110"

text \<open>\<open>None\<close>: the process is aborted.\<close>

definition PthreadCall :: "int \<Rightarrow> int option" where
  "PthreadCall result = (if result \<noteq> 0 \<and> result \<noteq> ETIMEDOUT then None else Some result)"

section \<open>Constants\<close>

text \<open>The constants of the namespace, as the bits of the types they have.\<close>

definition kMaxUint32 :: u32 where "kMaxUint32 = -1"
definition kMaxInt32 :: u32 where "kMaxInt32 = 2147483647"
definition kMinInt32 :: u32 where "kMinInt32 = 2147483648"
definition kMaxUint64 :: u64 where "kMaxUint64 = -1"
definition kMaxInt64 :: u64 where "kMaxInt64 = 9223372036854775807"
definition kMinInt64 :: u64 where "kMinInt64 = 9223372036854775808"
definition kMaxSizet :: u64 where "kMaxSizet = -1"

section \<open>Mutex and CondVar\<close>

datatype label = LLock | LUnlock | LWait | LSignal | LBroadcast

datatype action =
    PthreadMutexLock
  | PthreadMutexUnlock
  | PthreadCondWait bool      \<comment> \<open>\<open>pthread_cond_wait\<close>, or with a deadline \<open>pthread_cond_timedwait\<close>\<close>
  | Reacquire int             \<comment> \<open>blocked in one of them; the code it will return\<close>
  | PthreadCondSignal
  | PthreadCondBroadcast
  | SetLocked bool            \<comment> \<open>\<open>locked_ = b\<close>\<close>
  | AssertLocked              \<comment> \<open>\<open>assert(locked_)\<close>\<close>
  | Check label               \<comment> \<open>\<open>PthreadCall(label, result)\<close>\<close>
  | CheckTimedOut             \<comment> \<open>the tests of \<open>err\<close> in \<open>TimedWait\<close>\<close>

definition Mutex_Lock :: "action list" where
  "Mutex_Lock = [PthreadMutexLock, Check LLock, SetLocked True]"

definition Mutex_Unlock :: "action list" where
  "Mutex_Unlock = [SetLocked False, PthreadMutexUnlock, Check LUnlock]"

definition Mutex_AssertHeld :: "action list" where
  "Mutex_AssertHeld = [AssertLocked]"

definition CondVar_Wait :: "action list" where
  "CondVar_Wait = [SetLocked False, PthreadCondWait False, Check LWait, SetLocked True]"

definition CondVar_TimedWait :: "action list" where
  "CondVar_TimedWait = [SetLocked False, PthreadCondWait True, SetLocked True, CheckTimedOut]"

definition CondVar_Signal :: "action list" where
  "CondVar_Signal = [PthreadCondSignal, Check LSignal]"

definition CondVar_SignalAll :: "action list" where
  "CondVar_SignalAll = [PthreadCondBroadcast, Check LBroadcast]"

text \<open>
  One mutex, one condition variable on it, and any number of threads. \<open>sy_todo\<close> is what is left of the method a
  thread is in (empty outside of the methods) and \<open>sy_err\<close> the code the last pthread function returned to
  it; \<open>sy_waiting\<close> are the threads blocked on the condition variable.
\<close>

record Sync =
  sy_owner :: "nat option"
  sy_locked :: bool
  sy_waiting :: "nat set"
  sy_todo :: "nat \<Rightarrow> action list"
  sy_err :: "nat \<Rightarrow> int"
  sy_timed_out :: "nat \<Rightarrow> bool"   \<comment> \<open>what \<open>TimedWait\<close> returned last\<close>
  sy_aborted :: bool
  sy_assert_failed :: bool

definition Sync_ctor :: Sync where
  "Sync_ctor = \<lparr>sy_owner = None, sy_locked = False, sy_waiting = {}, sy_todo = (\<lambda>t. []), sy_err = (\<lambda>t. 0),
     sy_timed_out = (\<lambda>t. False), sy_aborted = False, sy_assert_failed = False\<rparr>"

text \<open>The clients keep the documented rules: a thread locks a mutex it does not hold, and calls the methods that need it only when it holds it.\<close>

inductive enters :: "Sync \<Rightarrow> nat \<Rightarrow> action list \<Rightarrow> bool" where
  Lock: "sy_owner s \<noteq> Some t \<Longrightarrow> enters s t Mutex_Lock"
| Unlock: "sy_owner s = Some t \<Longrightarrow> enters s t Mutex_Unlock"
| AssertHeld: "sy_owner s = Some t \<Longrightarrow> enters s t Mutex_AssertHeld"
| Wait: "sy_owner s = Some t \<Longrightarrow> enters s t CondVar_Wait"
| TimedWait: "sy_owner s = Some t \<Longrightarrow> enters s t CondVar_TimedWait"
| Signal: "enters s t CondVar_Signal"
| SignalAll: "enters s t CondVar_SignalAll"

text \<open>The thread \<open>t\<close> goes on to \<open>as\<close>.\<close>

abbreviation goto :: "nat \<Rightarrow> action list \<Rightarrow> Sync \<Rightarrow> Sync" where
  "goto t as s \<equiv> s\<lparr>sy_todo := (sy_todo s)(t := as)\<rparr>"

abbreviation returns :: "nat \<Rightarrow> int \<Rightarrow> Sync \<Rightarrow> Sync" where
  "returns t r s \<equiv> s\<lparr>sy_err := (sy_err s)(t := r)\<rparr>"

definition failure :: "int \<Rightarrow> bool" where
  "failure r \<longleftrightarrow> r \<noteq> 0 \<and> r \<noteq> ETIMEDOUT"

inductive step :: "nat \<Rightarrow> Sync \<Rightarrow> Sync \<Rightarrow> bool" for t where
  call: "sy_todo s t = [] \<Longrightarrow> enters s t as \<Longrightarrow> step t s (goto t as s)"
| lock: "sy_todo s t = PthreadMutexLock # as \<Longrightarrow> sy_owner s = None \<Longrightarrow>
    step t s (goto t as (returns t 0 (s\<lparr>sy_owner := Some t\<rparr>)))"
| unlock: "sy_todo s t = PthreadMutexUnlock # as \<Longrightarrow> sy_owner s = Some t \<Longrightarrow>
    step t s (goto t as (returns t 0 (s\<lparr>sy_owner := None\<rparr>)))"
| wait: "sy_todo s t = PthreadCondWait timed # as \<Longrightarrow> sy_owner s = Some t \<Longrightarrow>
    step t s (goto t (Reacquire 0 # as) (s\<lparr>sy_owner := None, sy_waiting := insert t (sy_waiting s)\<rparr>))"
| spurious: "t \<in> sy_waiting s \<Longrightarrow> step t s (s\<lparr>sy_waiting := sy_waiting s - {t}\<rparr>)"
| timeout: "t \<in> sy_waiting s \<Longrightarrow> sy_todo s t = Reacquire 0 # SetLocked True # CheckTimedOut # as \<Longrightarrow>
    step t s (goto t (Reacquire ETIMEDOUT # SetLocked True # CheckTimedOut # as) (s\<lparr>sy_waiting := sy_waiting s - {t}\<rparr>))"
| reacquire: "sy_todo s t = Reacquire r # as \<Longrightarrow> t \<notin> sy_waiting s \<Longrightarrow> sy_owner s = None \<Longrightarrow>
    step t s (goto t as (returns t r (s\<lparr>sy_owner := Some t\<rparr>)))"
| signal: "sy_todo s t = PthreadCondSignal # as \<Longrightarrow> w \<in> sy_waiting s \<Longrightarrow>
    step t s (goto t as (returns t 0 (s\<lparr>sy_waiting := sy_waiting s - {w}\<rparr>)))"
| signal_nobody: "sy_todo s t = PthreadCondSignal # as \<Longrightarrow> sy_waiting s = {} \<Longrightarrow>
    step t s (goto t as (returns t 0 s))"
| broadcast: "sy_todo s t = PthreadCondBroadcast # as \<Longrightarrow>
    step t s (goto t as (returns t 0 (s\<lparr>sy_waiting := {}\<rparr>)))"
| set_locked: "sy_todo s t = SetLocked b # as \<Longrightarrow> step t s (goto t as (s\<lparr>sy_locked := b\<rparr>))"
| assert_locked: "sy_todo s t = AssertLocked # as \<Longrightarrow>
    step t s (goto t as (s\<lparr>sy_assert_failed := (sy_assert_failed s \<or> \<not> sy_locked s)\<rparr>))"
| check: "sy_todo s t = Check l # as \<Longrightarrow>
    step t s (if PthreadCall (sy_err s t) = None then s\<lparr>sy_aborted := True\<rparr> else goto t as s)"
| check_timed_out: "sy_todo s t = CheckTimedOut # as \<Longrightarrow>
    step t s (if sy_err s t = ETIMEDOUT then goto t as (s\<lparr>sy_timed_out := (sy_timed_out s)(t := True)\<rparr>)
              else if sy_err s t \<noteq> 0 \<and> PthreadCall (sy_err s t) = None then s\<lparr>sy_aborted := True\<rparr>
              else goto t as (s\<lparr>sy_timed_out := (sy_timed_out s)(t := False)\<rparr>))"

text \<open>A pthread function may fail instead, with another code than \<open>ETIMEDOUT\<close>.\<close>

inductive fail_step :: "nat \<Rightarrow> Sync \<Rightarrow> Sync \<Rightarrow> bool" for t where
  "sy_todo s t = a # as \<Longrightarrow>
    a \<in> {PthreadMutexLock, PthreadMutexUnlock, PthreadCondWait timed, PthreadCondSignal, PthreadCondBroadcast} \<Longrightarrow>
    failure r \<Longrightarrow> fail_step t s (goto t as (returns t r s))"

text \<open>The states of a process whose threads follow the rules; an aborted process takes no step.\<close>

inductive reachable :: "Sync \<Rightarrow> bool" where
  start: "reachable Sync_ctor"
| step: "reachable s \<Longrightarrow> \<not> sy_aborted s \<Longrightarrow> step t s s' \<or> fail_step t s s' \<Longrightarrow> reachable s'"

section \<open>The routines around single system calls\<close>

text \<open>Constructors, destructors, \<open>RWMutex\<close> and \<open>InitOnce\<close> pass the code of one pthread function on.\<close>

definition Mutex_ctor :: "int \<Rightarrow> int option" where "Mutex_ctor r = PthreadCall r"
definition Mutex_dtor :: "int \<Rightarrow> int option" where "Mutex_dtor r = PthreadCall r"
definition CondVar_ctor :: "int \<Rightarrow> int option" where "CondVar_ctor r = PthreadCall r"
definition CondVar_dtor :: "int \<Rightarrow> int option" where "CondVar_dtor r = PthreadCall r"
definition RWMutex_ctor :: "int \<Rightarrow> int option" where "RWMutex_ctor r = PthreadCall r"
definition RWMutex_dtor :: "int \<Rightarrow> int option" where "RWMutex_dtor r = PthreadCall r"
definition ReadLock :: "int \<Rightarrow> int option" where "ReadLock r = PthreadCall r"
definition WriteLock :: "int \<Rightarrow> int option" where "WriteLock r = PthreadCall r"
definition ReadUnlock :: "int \<Rightarrow> int option" where "ReadUnlock r = PthreadCall r"
definition WriteUnlock :: "int \<Rightarrow> int option" where "WriteUnlock r = PthreadCall r"
definition InitOnce :: "int \<Rightarrow> int option" where "InitOnce r = PthreadCall r"

text \<open>The deadline of \<open>TimedWait\<close>: seconds and nanoseconds.\<close>

definition timespec_of :: "u64 \<Rightarrow> u64 \<times> u64" where
  "timespec_of abs_time_us = (abs_time_us div 1000000, (abs_time_us mod 1000000) * 1000)"

text \<open>With \<open>sched_getcpu\<close> and with \<open>__get_cpuid\<close> (\<open>None\<close> when it fails).\<close>

definition PhysicalCoreID_getcpu :: "int \<Rightarrow> int" where
  "PhysicalCoreID_getcpu cpuno = (if cpuno < 0 then -1 else cpuno)"

definition PhysicalCoreID_cpuid :: "u32 option \<Rightarrow> int" where
  "PhysicalCoreID_cpuid ebx = (case ebx of None \<Rightarrow> -1 | Some b \<Rightarrow> uint (drop_bit 24 b))"

text \<open>The calls that \<open>Crash\<close> makes; \<open>pid\<close> is what \<open>getpid\<close> returns.\<close>

datatype CrashCall = FprintfStdout "byte list" | FflushStdout | Kill int int

definition SIGTERM :: int where "SIGTERM = 15"

definition Crash :: "int \<Rightarrow> byte list \<Rightarrow> u32 \<Rightarrow> CrashCall list" where
  "Crash pid srcfile srcline =
     [FprintfStdout (bytes_of_string ''Crashing at '' @ takeWhile (\<lambda>c. c \<noteq> 0) srcfile @ [58] @ show_int (sint srcline) @ [10]),
      FflushStdout, Kill pid SIGTERM]"

text \<open>\<open>None\<close> when \<open>getrlimit\<close> fails.\<close>

definition GetMaxOpenFiles :: "u64 option \<Rightarrow> int" where
  "GetMaxOpenFiles rlim_cur =
     (case rlim_cur of
        None \<Rightarrow> -1
      | Some n \<Rightarrow> if n \<ge> 2147483647 then 2147483647 else sint (ucast n :: u32))"

text \<open>The value and the pointer \<open>posix_memalign\<close> gives; \<open>None\<close> is null.\<close>

definition cacheline_aligned_alloc :: "int \<Rightarrow> nat \<Rightarrow> nat option" where
  "cacheline_aligned_alloc r m = (if r \<noteq> 0 then None else Some m)"

text \<open>\<open>live\<close> are the blocks that are allocated.\<close>

definition cacheline_aligned_free :: "nat set \<Rightarrow> nat option \<Rightarrow> nat set res" where
  "cacheline_aligned_free live memblock =
     (case memblock of None \<Rightarrow> Inr live | Some p \<Rightarrow> if p \<in> live then Inr (live - {p}) else Inl UseAfterFree)"

text \<open>\<open>v\<close> is what \<open>sysconf\<close> returns.\<close>

definition GetPageSize :: "int \<Rightarrow> nat" where
  "GetPageSize v = (if v \<ge> 1024 then nat v else 4 * 1024)"

datatype CpuPriority = kIdle | kLow | kNormal | kHigh

datatype SchedPolicy = SCHED_OTHER | SCHED_IDLE

datatype SchedCall = SchedSetscheduler SchedPolicy | Setpriority int

definition SetCpuPriority :: "CpuPriority \<Rightarrow> SchedCall list" where
  "SetCpuPriority priority =
     (case priority of
        kHigh \<Rightarrow> [SchedSetscheduler SCHED_OTHER, Setpriority (-20)]
      | kNormal \<Rightarrow> [SchedSetscheduler SCHED_OTHER, Setpriority 0]
      | kLow \<Rightarrow> [SchedSetscheduler SCHED_OTHER, Setpriority 19]
      | kIdle \<Rightarrow> [SchedSetscheduler SCHED_IDLE])"

section \<open>The invariant\<close>

text \<open>
  Where a thread is, and what that says: whether it must own the mutex (\<open>Some\<close>) or may (\<open>None\<close>), and the value
  of \<open>locked_\<close> while it owns it.
\<close>

fun owning :: "action list \<Rightarrow> int \<Rightarrow> bool option" where
  "owning (PthreadMutexLock # _) e = Some False"
| "owning (Check LLock # _) e = Some (e = 0)"
| "owning (Check LUnlock # _) e = Some (e \<noteq> 0)"
| "owning (Check LWait # _) e = Some True"
| "owning (Reacquire r # _) e = Some False"
| "owning (PthreadMutexUnlock # _) e = Some True"
| "owning (PthreadCondWait timed # _) e = Some True"
| "owning (SetLocked b # _) e = Some True"
| "owning (AssertLocked # _) e = Some True"
| "owning (CheckTimedOut # _) e = Some True"
| "owning _ e = None"

fun flag :: "action list \<Rightarrow> bool" where
  "flag (SetLocked b # _) = (\<not> b)"
| "flag (PthreadMutexUnlock # _) = False"
| "flag (PthreadCondWait timed # _) = False"
| "flag (Check l # _) = (l = LSignal \<or> l = LBroadcast)"
| "flag _ = True"

text \<open>The rest of a method a thread can be in, with the codes it can have.\<close>

definition methods :: "action list list" where
  "methods = [Mutex_Lock, Mutex_Unlock, Mutex_AssertHeld, CondVar_Wait, CondVar_TimedWait, CondVar_Signal, CondVar_SignalAll]"

definition todos :: "action list list" where
  "todos = [] # concat (map (\<lambda>m. map (\<lambda>n. drop n m) [0..<length m]) methods) @
     [[Reacquire 0, Check LWait, SetLocked True], [Reacquire 0, SetLocked True, CheckTimedOut],
      [Reacquire ETIMEDOUT, SetLocked True, CheckTimedOut]]"

definition thread_ok :: "Sync \<Rightarrow> nat \<Rightarrow> bool" where
  "thread_ok s t \<longleftrightarrow> sy_todo s t \<in> set todos \<and>
     (\<forall>b. owning (sy_todo s t) (sy_err s t) = Some b \<longrightarrow> (sy_owner s = Some t) = b) \<and>
     (\<forall>l as. sy_todo s t = Check l # as \<longrightarrow> sy_err s t \<noteq> ETIMEDOUT) \<and>
     (t \<in> sy_waiting s \<longrightarrow> (\<exists>r as. sy_todo s t = Reacquire r # as))"

definition sync_inv :: "Sync \<Rightarrow> bool" where
  "sync_inv s \<longleftrightarrow> (\<forall>t. thread_ok s t) \<and>
     sy_locked s = (case sy_owner s of None \<Rightarrow> False | Some t \<Rightarrow> flag (sy_todo s t)) \<and> \<not> sy_assert_failed s"

lemmas method_defs = Mutex_Lock_def Mutex_Unlock_def Mutex_AssertHeld_def CondVar_Wait_def CondVar_TimedWait_def
  CondVar_Signal_def CondVar_SignalAll_def

text \<open>What can follow the first action of a thread.\<close>

lemma todos_cases:
  "set todos = {[], Mutex_Lock, [Check LLock, SetLocked True], [SetLocked True], Mutex_Unlock, [PthreadMutexUnlock, Check LUnlock],
     [Check LUnlock], [AssertLocked], CondVar_Wait, [PthreadCondWait False, Check LWait, SetLocked True], [Check LWait, SetLocked True],
     CondVar_TimedWait, [PthreadCondWait True, SetLocked True, CheckTimedOut], [SetLocked True, CheckTimedOut], [CheckTimedOut],
     CondVar_Signal, [Check LSignal], CondVar_SignalAll, [Check LBroadcast],
     [Reacquire 0, Check LWait, SetLocked True], [Reacquire 0, SetLocked True, CheckTimedOut],
     [Reacquire ETIMEDOUT, SetLocked True, CheckTimedOut]}"
  by (auto simp: todos_def methods_def method_defs numeral_eq_Suc upt_rec)

fun follows :: "action \<Rightarrow> action list \<Rightarrow> bool" where
  "follows PthreadMutexLock as \<longleftrightarrow> as = [Check LLock, SetLocked True]"
| "follows PthreadMutexUnlock as \<longleftrightarrow> as = [Check LUnlock]"
| "follows (PthreadCondWait timed) as \<longleftrightarrow> as = (if timed then [SetLocked True, CheckTimedOut] else [Check LWait, SetLocked True])"
| "follows (Reacquire r) as \<longleftrightarrow> as = [Check LWait, SetLocked True] \<and> r = 0 \<or>
     as = [SetLocked True, CheckTimedOut] \<and> (r = 0 \<or> r = ETIMEDOUT)"
| "follows PthreadCondSignal as \<longleftrightarrow> as = [Check LSignal]"
| "follows PthreadCondBroadcast as \<longleftrightarrow> as = [Check LBroadcast]"
| "follows (SetLocked b) as \<longleftrightarrow> as \<in> (if b then {[], [CheckTimedOut]} else {[PthreadMutexUnlock, Check LUnlock],
     [PthreadCondWait False, Check LWait, SetLocked True], [PthreadCondWait True, SetLocked True, CheckTimedOut]})"
| "follows AssertLocked as \<longleftrightarrow> as = []"
| "follows (Check l) as \<longleftrightarrow> as = (if l = LLock \<or> l = LWait then [SetLocked True] else [])"
| "follows CheckTimedOut as \<longleftrightarrow> as = []"

lemma todos_follows: "xs \<in> set todos \<Longrightarrow> case xs of [] \<Rightarrow> True | a # as \<Rightarrow> follows a as"
  by (auto simp: todos_cases method_defs)

lemma todos_members:
  "[] \<in> set todos" "[Check LLock, SetLocked True] \<in> set todos" "[SetLocked True] \<in> set todos" "[Check LUnlock] \<in> set todos"
  "[Check LWait, SetLocked True] \<in> set todos" "[SetLocked True, CheckTimedOut] \<in> set todos" "[CheckTimedOut] \<in> set todos"
  "[Check LSignal] \<in> set todos" "[Check LBroadcast] \<in> set todos" "[PthreadMutexUnlock, Check LUnlock] \<in> set todos"
  "[PthreadCondWait False, Check LWait, SetLocked True] \<in> set todos"
  "[PthreadCondWait True, SetLocked True, CheckTimedOut] \<in> set todos"
  "[Reacquire 0, Check LWait, SetLocked True] \<in> set todos" "[Reacquire 0, SetLocked True, CheckTimedOut] \<in> set todos"
  "[Reacquire ETIMEDOUT, SetLocked True, CheckTimedOut] \<in> set todos"
  "m \<in> set methods \<Longrightarrow> m \<in> set todos"
  by (auto simp: todos_cases methods_def method_defs)

text \<open>A step of \<open>t\<close> leaves the other threads as they are.\<close>

lemma thread_ok_other:
  assumes "thread_ok s u" "sy_todo s' u = sy_todo s u" "sy_err s' u = sy_err s u"
    "sy_owner s' = Some u \<longleftrightarrow> sy_owner s = Some u" "u \<in> sy_waiting s' \<Longrightarrow> u \<in> sy_waiting s"
  shows "thread_ok s' u"
  using assms by (simp add: thread_ok_def)

lemma sync_invI:
  assumes "sync_inv s" "thread_ok s' t" "\<not> sy_assert_failed s'"
    "\<And>u. u \<noteq> t \<Longrightarrow> sy_todo s' u = sy_todo s u \<and> sy_err s' u = sy_err s u \<and> (sy_owner s' = Some u \<longleftrightarrow> sy_owner s = Some u) \<and>
      (u \<in> sy_waiting s' \<longrightarrow> u \<in> sy_waiting s)"
    "sy_locked s' = (case sy_owner s' of None \<Rightarrow> False | Some u \<Rightarrow> flag (sy_todo s' u))"
  shows "sync_inv s'"
proof -
  have "thread_ok s' u" for u
  proof (cases "u = t")
    case False
    then show ?thesis using thread_ok_other [of s u s'] assms(1,4) by (auto simp: sync_inv_def)
  qed (simp add: assms(2))
  then show ?thesis using assms(3,5) by (simp add: sync_inv_def)
qed

lemma enters_ok:
  assumes "enters s t as" "sync_inv s" "sy_todo s t = []"
  shows "thread_ok (goto t as s) t" "sy_owner s = Some t \<Longrightarrow> flag as"
proof -
  have w: "t \<notin> sy_waiting s" using assms(2,3) by (auto simp: sync_inv_def thread_ok_def dest: spec [of _ t])
  show "thread_ok (goto t as s) t"
    using assms(1) by cases (use w in \<open>simp_all add: thread_ok_def todos_members methods_def, simp_all add: method_defs\<close>)
  show "flag as" if "sy_owner s = Some t"
    using assms(1) by cases (use that in \<open>simp_all add: method_defs\<close>)
qed

lemma ETIMEDOUT_neq [simp]: "ETIMEDOUT \<noteq> 0" "0 \<noteq> ETIMEDOUT"
  by (simp_all add: ETIMEDOUT_def)

lemmas sync_simps = thread_ok_def todos_members failure_def PthreadCall_def

lemma step_inv:
  assumes "step t s s' \<or> fail_step t s s'" "sync_inv s"
  shows "sync_inv s'"
proof -
  have ok: "thread_ok s t" and rest: "\<not> sy_assert_failed s"
    "sy_locked s = (case sy_owner s of None \<Rightarrow> False | Some t \<Rightarrow> flag (sy_todo s t))"
    using assms(2) by (auto simp: sync_inv_def)
  have tail: "case sy_todo s t of [] \<Rightarrow> True | a # as \<Rightarrow> follows a as"
    using ok todos_follows by (auto simp: thread_ok_def)
  note inv = sync_invI [OF assms(2), of s' t]
  consider "step t s s'" | "fail_step t s s'" using assms(1) by blast
  then show ?thesis
  proof cases
    case 2
    then show ?thesis
      by cases (use tail ok rest in \<open>intro inv; auto simp: sync_simps split: option.splits if_splits\<close>)
  next
    case 1
    then show ?thesis
  proof cases
    case (call as)
    then show ?thesis using enters_ok [OF call(3) assms(2) call(2)] rest by (intro inv) (auto split: option.splits)
  next
    case (check l as)
    then show ?thesis using tail ok rest
      by (cases l; intro inv) (auto simp: sync_simps split: option.splits if_splits)
    qed (use tail ok rest in \<open>intro inv; auto simp: sync_simps split: option.splits if_splits\<close>)+
  qed
qed

lemma reachable_inv: "reachable s \<Longrightarrow> sync_inv s"
proof (induction rule: reachable.induct)
  case start
  then show ?case by (simp add: sync_inv_def Sync_ctor_def thread_ok_def todos_members)
next
  case (step s t s')
  then show ?case using step_inv by blast
qed

text \<open>A thread can go on unless it wants the mutex and another has it, or is blocked on the condition variable.\<close>

lemma thread_enabled:
  assumes "thread_ok s t" "sy_todo s t = a # as" "t \<notin> sy_waiting s" "sy_owner s = Some t \<or> sy_owner s = None \<or>
    a \<noteq> PthreadMutexLock \<and> (\<forall>r. a \<noteq> Reacquire r)"
  shows "\<exists>s'. step t s s'"
proof (cases a)
  case PthreadCondSignal
  then show ?thesis using assms(2) step.signal [of s t as] step.signal_nobody [of s t as] by blast
qed (use assms in \<open>auto simp: thread_ok_def intro: step.intros exI\<close>)

lemma timespec_unat:
  "unat (fst (timespec_of us)) = unat us div 1000000" "unat (snd (timespec_of us)) = unat us mod 1000000 * 1000"
proof -
  have "unat us mod 1000000 * 1000 < 2 ^ 64" using mod_less_divisor [of 1000000 "unat us"] by simp
  then show "unat (fst (timespec_of us)) = unat us div 1000000" "unat (snd (timespec_of us)) = unat us mod 1000000 * 1000"
    by (simp_all add: timespec_of_def unat_div unat_mod unat_word_ariths)
qed

lemma max_open_files_small:
  assumes "n < (2147483647 :: u64)"
  shows "sint (ucast n :: u32) = uint n"
proof -
  have "uint n < 2147483647" using assms by (simp add: word_less_def)
  then have "uint (ucast n :: u32) = uint n" by (simp add: unsigned_ucast_eq take_bit_int_eq_self)
  with \<open>uint n < 2147483647\<close> show ?thesis
    using signed_take_bit_int_eq_self [of 31 "uint n"] uint_ge_0 [of n] by (simp add: sint_uint)
qed

text \<open>A thread that finds the mutex free gets through \<open>Lock\<close>.\<close>

lemma Lock_runs:
  assumes "reachable s" "\<not> sy_aborted s" "sy_todo s t = []" "sy_owner s = None"
  obtains s' where "reachable s'" "\<not> sy_aborted s'" "sy_owner s' = Some t" "sy_todo s' = (sy_todo s)(t := [])"
    "sy_err s' = (sy_err s)(t := 0)"
proof -
  let ?s1 = "goto t Mutex_Lock s" and ?as = "[Check LLock, SetLocked True]"
  let ?s2 = "goto t ?as (returns t 0 (?s1\<lparr>sy_owner := Some t\<rparr>))"
  let ?s3 = "goto t [SetLocked True] ?s2"
  let ?s4 = "goto t [] (?s3\<lparr>sy_locked := True\<rparr>)"
  have "step t s ?s1" using step.call [OF assms(3) enters.Lock] assms(4) by simp
  then have "reachable ?s1" using reachable.step [OF assms(1,2)] by blast
  moreover have "step t ?s1 ?s2" using step.lock [of ?s1 t ?as] assms(4) by (simp add: Mutex_Lock_def)
  ultimately have "reachable ?s2" using assms(2) reachable.step [of ?s1 t ?s2] by simp
  moreover have "step t ?s2 ?s3" using step.check [of ?s2 t LLock "[SetLocked True]"] by (simp add: PthreadCall_def)
  ultimately have "reachable ?s3" using assms(2) reachable.step [of ?s2 t ?s3] by simp
  moreover have "step t ?s3 ?s4" using step.set_locked [of ?s3 t True "[]"] by simp
  ultimately have "reachable ?s4" using assms(2) reachable.step [of ?s3 t ?s4] by simp
  then show thesis using assms(2) by (intro that [of ?s4]) simp_all
qed

lemma sint_extremes:
  fixes w :: u32 and d :: u64
  shows "kMinInt32 \<le>s w \<and> w \<le>s kMaxInt32" "w \<le> kMaxUint32" "kMinInt64 \<le>s d \<and> d \<le>s kMaxInt64" "d \<le> kMaxUint64" "d \<le> kMaxSizet"
proof -
  have "sint kMinInt32 = - (2 ^ 31)" "sint kMaxInt32 = 2 ^ 31 - 1" "sint kMinInt64 = - (2 ^ 63)" "sint kMaxInt64 = 2 ^ 63 - 1"
    by code_simp+
  then show "kMinInt32 \<le>s w \<and> w \<le>s kMaxInt32" "kMinInt64 \<le>s d \<and> d \<le>s kMaxInt64"
    using sint_ge [of w] sint_lt [of w] sint_ge [of d] sint_lt [of d] by (simp_all add: word_sle_eq)
  show "w \<le> kMaxUint32" "d \<le> kMaxUint64" "d \<le> kMaxSizet" by (simp_all add: kMaxUint32_def kMaxUint64_def kMaxSizet_def)
qed

text \<open>A block that was allocated, or the null pointer of an allocation that failed, is freed once.\<close>

lemma aligned_alloc_free:
  fixes r m
  assumes "m \<notin> live"
  defines "p \<equiv> cacheline_aligned_alloc r m"
  shows "cacheline_aligned_free (live \<union> set_option p) p = Inr live" "r = 0 \<Longrightarrow> cacheline_aligned_free live p = Inl UseAfterFree"
  using assms by (auto simp: cacheline_aligned_free_def cacheline_aligned_alloc_def split: option.splits)

section \<open>Runs inside of methods\<close>

text \<open>A step of a thread inside a method; a step of an owner that wants to release the mutex, which goes on in its method or, outside of the methods, calls \<open>Unlock\<close>.\<close>

definition inner :: "nat \<Rightarrow> Sync \<Rightarrow> Sync \<Rightarrow> bool" where
  "inner t s s' \<longleftrightarrow> sy_todo s t \<noteq> [] \<and> step t s s'"

definition releasing :: "nat \<Rightarrow> Sync \<Rightarrow> Sync \<Rightarrow> bool" where
  "releasing t s s' \<longleftrightarrow> inner t s s' \<or> sy_todo s t = [] \<and> sy_owner s = Some t \<and> s' = goto t Mutex_Unlock s"

text \<open>A running process in which no pthread function has failed without being checked.\<close>

definition healthy :: "Sync \<Rightarrow> bool" where
  "healthy s \<longleftrightarrow> reachable s \<and> \<not> sy_aborted s \<and> (\<forall>t. \<not> failure (sy_err s t))"

lemma healthy_thread_ok: "healthy s \<Longrightarrow> thread_ok s t"
  using reachable_inv by (simp add: healthy_def sync_inv_def)

lemma not_failure [simp]: "\<not> failure 0" "\<not> failure ETIMEDOUT"
  by (simp_all add: failure_def)

lemma PthreadCall_healthy: "healthy s \<Longrightarrow> PthreadCall (sy_err s t) \<noteq> None"
  by (auto simp: healthy_def failure_def PthreadCall_def)

lemma step_healthy:
  assumes "step t s s'" "healthy s"
  shows "healthy s'"
proof -
  have tail: "case sy_todo s t of [] \<Rightarrow> True | a # as \<Rightarrow> follows a as"
    using healthy_thread_ok [OF assms(2)] todos_follows by (auto simp: thread_ok_def)
  have r: "reachable s'" using assms reachable.step [of s t s'] by (auto simp: healthy_def)
  have "\<not> sy_aborted s' \<and> (\<forall>u. \<not> failure (sy_err s' u))"
    using assms(1) by cases (use assms(2) PthreadCall_healthy [OF assms(2), of t] tail in \<open>auto simp: healthy_def\<close>)
  with r show ?thesis by (simp add: healthy_def)
qed

text \<open>One step of a thread that is not blocked brings it forward, or blocks it on the condition variable and frees the mutex.\<close>

lemma inner_forward:
  assumes "healthy s" "sy_todo s t = a # as" "t \<notin> sy_waiting s" "sy_owner s = None \<or> sy_owner s = Some t"
  shows "\<exists>s'. inner t s s' \<and> healthy s' \<and> (t \<in> sy_waiting s' \<and> sy_owner s' = None \<or>
    t \<notin> sy_waiting s' \<and> sy_todo s' t = as \<and> (sy_owner s' = None \<or> sy_owner s' = Some t))"
proof -
  have "\<exists>s'. step t s s'" using thread_enabled [OF healthy_thread_ok [OF assms(1)] assms(2,3)] assms(4) by blast
  then obtain s' where s': "step t s s'" ..
  moreover from s' have "t \<in> sy_waiting s' \<and> sy_owner s' = None \<or>
      t \<notin> sy_waiting s' \<and> sy_todo s' t = as \<and> (sy_owner s' = None \<or> sy_owner s' = Some t)"
    by cases (use assms(2-4) PthreadCall_healthy [OF assms(1), of t] in auto)
  ultimately show ?thesis using step_healthy [OF s' assms(1)] assms(2) by (auto simp: inner_def)
qed

lemma inner_finishes:
  assumes "healthy s" "sy_owner s = None \<or> sy_owner s = Some t"
  shows "\<exists>s'. (inner t)\<^sup>*\<^sup>* s s' \<and> healthy s' \<and> (sy_todo s' t = [] \<or> t \<in> sy_waiting s')"
  using assms
proof (induction "length (sy_todo s t)" arbitrary: s rule: less_induct)
  case less
  show ?case
  proof (cases "sy_todo s t = [] \<or> t \<in> sy_waiting s")
    case True
    then show ?thesis using less.prems(1) by blast
  next
    case False
    then obtain a as where a: "sy_todo s t = a # as" by (cases "sy_todo s t") auto
    from inner_forward [OF less.prems(1) a _ less.prems(2)] False obtain s' where s': "inner t s s'" "healthy s'"
      "t \<in> sy_waiting s' \<or> sy_todo s' t = as \<and> (sy_owner s' = None \<or> sy_owner s' = Some t)" by blast
    show ?thesis
    proof (cases "t \<in> sy_waiting s'")
      case True
      then show ?thesis using s' by blast
    next
      case False
      with s'(3) less.hyps [of s'] s'(2) a obtain s'' where "(inner t)\<^sup>*\<^sup>* s' s''" "healthy s''" "sy_todo s'' t = [] \<or> t \<in> sy_waiting s''" by auto
      then show ?thesis using converse_rtranclp_into_rtranclp [of "inner t", OF s'(1)] by blast
    qed
  qed
qed

text \<open>The owner gets out of its method, or gives up the mutex in it.\<close>

lemma owner_returns:
  assumes "healthy s" "sy_owner s = Some t"
  shows "\<exists>s'. (inner t)\<^sup>*\<^sup>* s s' \<and> healthy s' \<and> (sy_owner s' = None \<or> sy_owner s' = Some t \<and> sy_todo s' t = [])"
  using assms
proof (induction "length (sy_todo s t)" arbitrary: s rule: less_induct)
  case less
  show ?case
  proof (cases "sy_todo s t")
    case Nil
    then show ?thesis using less.prems by blast
  next
    case (Cons a as)
    have "t \<notin> sy_waiting s" using healthy_thread_ok [OF less.prems(1), of t] less.prems(2) by (auto simp: thread_ok_def)
    with inner_forward [OF less.prems(1) Cons] less.prems(2) obtain s' where s': "inner t s s'" "healthy s'"
      "sy_owner s' = None \<or> sy_todo s' t = as \<and> sy_owner s' = Some t" by blast
    show ?thesis
    proof (cases "sy_owner s' = None")
      case True
      then show ?thesis using s' by blast
    next
      case False
      with s'(3) less.hyps [of s'] s'(2) Cons obtain s'' where
        "(inner t)\<^sup>*\<^sup>* s' s''" "healthy s''" "sy_owner s'' = None \<or> sy_owner s'' = Some t \<and> sy_todo s'' t = []" by auto
      then show ?thesis using converse_rtranclp_into_rtranclp [of "inner t", OF s'(1)] by blast
    qed
  qed
qed

text \<open>\<open>Unlock\<close> frees the mutex.\<close>

lemma Unlock_frees:
  assumes "healthy s" "sy_owner s = Some t" "sy_todo s t = []"
  shows "\<exists>s'. (releasing t)\<^sup>*\<^sup>* s s' \<and> healthy s' \<and> sy_owner s' = None"
proof -
  let ?s1 = "goto t Mutex_Unlock s"
  let ?s2 = "goto t [PthreadMutexUnlock, Check LUnlock] (?s1\<lparr>sy_locked := False\<rparr>)"
  let ?s3 = "goto t [Check LUnlock] (returns t 0 (?s2\<lparr>sy_owner := None\<rparr>))"
  have 1: "step t s ?s1" using step.call [OF assms(3) enters.Unlock [OF assms(2)]] .
  have 2: "step t ?s1 ?s2" using step.set_locked [of ?s1 t False] by (simp add: Mutex_Unlock_def)
  have 3: "step t ?s2 ?s3" using step.unlock [of ?s2 t] assms(2) by simp
  have "releasing t s ?s1" using assms(2,3) by (simp add: releasing_def)
  moreover have "releasing t ?s1 ?s2" "releasing t ?s2 ?s3" using 2 3 by (simp_all add: releasing_def inner_def Mutex_Unlock_def)
  ultimately have "(releasing t)\<^sup>*\<^sup>* s ?s3" by (meson converse_rtranclp_into_rtranclp rtranclp.rtrancl_refl)
  moreover have "healthy ?s3" using step_healthy [OF 3] step_healthy [OF 2] step_healthy [OF 1] assms(1) by blast
  moreover have "sy_owner ?s3 = None" by simp
  ultimately show ?thesis by blast
qed

lemma owner_releases:
  assumes "healthy s" "sy_owner s = Some t"
  shows "\<exists>s'. (releasing t)\<^sup>*\<^sup>* s s' \<and> healthy s' \<and> sy_owner s' = None"
proof -
  obtain s' where s': "(inner t)\<^sup>*\<^sup>* s s'" "healthy s'" "sy_owner s' = None \<or> sy_owner s' = Some t \<and> sy_todo s' t = []"
    using owner_returns [OF assms] by blast
  have "(releasing t)\<^sup>*\<^sup>* s s'"
    using s'(1) by (rule rtranclp_mono [THEN predicate2D, rotated]) (auto simp: releasing_def)
  with s'(2,3) Unlock_frees [OF s'(2), of t] show ?thesis by (meson rtranclp_trans)
qed

section \<open>Properties\<close>

text \<open>
  C17: the debugging flag of \<open>Mutex\<close> agrees with the mutex. In every state that threads which keep the rules of
  use can reach, with any interleaving, spurious wake-ups, time-outs and failing pthread calls: no
  \<open>AssertHeld\<close> has failed; the thread that holds the mutex outside of the methods finds \<open>locked_\<close> true;
  when no thread owns the mutex it is false; and only the owner is about to read or write it, so that there is no race on
  the unprotected flag, also in \<open>Wait\<close> and \<open>TimedWait\<close>.
\<close>

theorem mutex_flag_agrees:
  assumes "reachable s"
  shows "\<not> sy_assert_failed s \<and>
    (\<forall>t. sy_owner s = Some t \<and> sy_todo s t = [] \<longrightarrow> sy_locked s) \<and>
    (sy_owner s = None \<longrightarrow> \<not> sy_locked s) \<and>
    (\<forall>t a as. sy_todo s t = a # as \<and> (a = AssertLocked \<or> (\<exists>b. a = SetLocked b)) \<longrightarrow> sy_owner s = Some t)"
proof -
  have inv: "sync_inv s" by (rule reachable_inv [OF assms])
  have own: "sy_owner s = Some t" if "sy_todo s t = a # as" "a = AssertLocked \<or> (\<exists>b. a = SetLocked b)" for t a as
  proof -
    have "thread_ok s t" using inv by (simp add: sync_inv_def)
    with that show ?thesis by (auto simp: thread_ok_def)
  qed
  show ?thesis using inv own unfolding sync_inv_def by (auto split: option.splits)
qed

theorem mutex_flag_agrees_witness:
  "\<exists>s. reachable s \<and> sy_owner s = Some 1 \<and> sy_locked s"
proof -
  obtain s where s: "reachable s" "sy_owner s = Some 1" "sy_todo s = (sy_todo Sync_ctor)(1 := [])"
    by (rule Lock_runs [OF reachable.start, of 1]) (auto simp: Sync_ctor_def)
  have "sy_locked s" using mutex_flag_agrees [OF s(1)] s(2,3) by simp
  with s show ?thesis by blast
qed

text \<open>
  C39: the methods of \<open>Mutex\<close> and \<open>CondVar\<close> do not get stuck. Take a reachable state of a process that has not been aborted and in which no pthread function
  has failed without its check having been made, and a thread inside a method. The thread is blocked on the condition variable, or can take its next action, or its next action is to take
  the mutex and another thread owns that and can act. A thread that owns the mutex frees it by its own steps: it goes on in the method it is in and calls
  \<open>Unlock\<close> when it is outside of the methods. Once the mutex is free, or when the thread has it itself, the thread reaches the end of its method, or blocks on
  the condition variable, by its own steps inside the method. No step of these aborts the process.
\<close>

theorem mutex_progress:
  assumes "reachable s" "\<not> sy_aborted s" "\<forall>u. \<not> failure (sy_err s u)" "sy_todo s t \<noteq> []"
  shows "(t \<in> sy_waiting s \<or> (\<exists>s'. step t s s') \<or>
      (\<exists>u a as. sy_todo s t = a # as \<and> (a = PthreadMutexLock \<or> (\<exists>r. a = Reacquire r)) \<and> sy_owner s = Some u \<and> u \<noteq> t \<and> (\<exists>s'. step u s s'))) \<and>
    (\<forall>u. sy_owner s = Some u \<longrightarrow> (\<exists>s'. (releasing u)\<^sup>*\<^sup>* s s' \<and> \<not> sy_aborted s' \<and> sy_owner s' = None)) \<and>
    (\<exists>s1 s2. (sy_owner s = None \<or> sy_owner s = Some t \<longrightarrow> s1 = s) \<and>
      (\<forall>u. sy_owner s = Some u \<and> u \<noteq> t \<longrightarrow> (releasing u)\<^sup>*\<^sup>* s s1 \<and> sy_owner s1 = None) \<and>
      (inner t)\<^sup>*\<^sup>* s1 s2 \<and> \<not> sy_aborted s2 \<and> (sy_todo s2 t = [] \<or> t \<in> sy_waiting s2))"
proof -
  have h: "healthy s" using assms by (simp add: healthy_def)
  obtain a as where a: "sy_todo s t = a # as" using assms(4) by (cases "sy_todo s t") auto
  have act: "\<exists>s'. step u s s'" if "sy_owner s = Some u" for u
  proof (cases "sy_todo s u")
    case Nil
    then show ?thesis using that enters.Unlock [of s u] step.call by blast
  next
    case (Cons b bs)
    moreover have "u \<notin> sy_waiting s" using healthy_thread_ok [OF h, of u] that by (auto simp: thread_ok_def)
    ultimately show ?thesis using thread_enabled [OF healthy_thread_ok [OF h]] that by blast
  qed
  have blocked: "t \<in> sy_waiting s \<or> (\<exists>s'. step t s s') \<or>
      (\<exists>u a as. sy_todo s t = a # as \<and> (a = PthreadMutexLock \<or> (\<exists>r. a = Reacquire r)) \<and> sy_owner s = Some u \<and> u \<noteq> t \<and> (\<exists>s'. step u s s'))"
  proof (cases "t \<in> sy_waiting s \<or> (\<exists>s'. step t s s')")
    case False
    then have "\<not> (sy_owner s = Some t \<or> sy_owner s = None \<or> a \<noteq> PthreadMutexLock \<and> (\<forall>r. a \<noteq> Reacquire r))"
      using thread_enabled [OF healthy_thread_ok [OF h] a] by metis
    then have b: "sy_owner s \<noteq> None" "sy_owner s \<noteq> Some t" "a = PthreadMutexLock \<or> (\<exists>r. a = Reacquire r)" by simp_all
    then obtain u where u: "sy_owner s = Some u" "u \<noteq> t" by auto
    from act [OF u(1)] u b(3) a show ?thesis by blast
  qed blast
  have frees: "\<exists>s'. (releasing u)\<^sup>*\<^sup>* s s' \<and> healthy s' \<and> sy_owner s' = None" if "sy_owner s = Some u" for u
    by (rule owner_releases [OF h that])
  obtain s1 where s1: "healthy s1" "sy_owner s1 = None \<or> sy_owner s1 = Some t" "sy_owner s = None \<or> sy_owner s = Some t \<longrightarrow> s1 = s"
    "\<forall>u. sy_owner s = Some u \<and> u \<noteq> t \<longrightarrow> (releasing u)\<^sup>*\<^sup>* s s1 \<and> sy_owner s1 = None"
  proof (cases "sy_owner s = None \<or> sy_owner s = Some t")
    case True
    then show ?thesis using h by (intro that [of s]) auto
  next
    case False
    then obtain u where u: "sy_owner s = Some u" "u \<noteq> t" by auto
    then show ?thesis using frees [OF u(1)] that by auto
  qed
  obtain s2 where "(inner t)\<^sup>*\<^sup>* s1 s2" "healthy s2" "sy_todo s2 t = [] \<or> t \<in> sy_waiting s2"
    using inner_finishes [OF s1(1,2)] by blast
  with blocked frees s1(3,4) show ?thesis unfolding healthy_def by blast
qed

text \<open>Thread 2 calls \<open>Lock\<close> while thread 1 has the mutex.\<close>

theorem mutex_progress_witness:
  "\<exists>s s1 s2. reachable s \<and> sy_todo s 2 = Mutex_Lock \<and> sy_owner s = Some 1 \<and> (releasing 1)\<^sup>*\<^sup>* s s1 \<and> sy_owner s1 = None \<and>
     (inner 2)\<^sup>*\<^sup>* s1 s2 \<and> (sy_todo s2 2 = [] \<or> 2 \<in> sy_waiting s2)"
proof -
  obtain s where s: "reachable s" "\<not> sy_aborted s" "sy_owner s = Some 1" "sy_todo s = (sy_todo Sync_ctor)(1 := [])" "sy_err s = (sy_err Sync_ctor)(1 := 0)"
    by (rule Lock_runs [OF reachable.start, of 1]) (auto simp: Sync_ctor_def)
  let ?s = "goto 2 Mutex_Lock s"
  have "step 2 s ?s" using s(3,4) by (intro step.call enters.Lock) (simp_all add: Sync_ctor_def)
  then have r: "reachable ?s" using reachable.step [OF s(1,2)] by blast
  have p: "\<not> sy_aborted ?s" "\<forall>u. \<not> failure (sy_err ?s u)" "sy_todo ?s 2 \<noteq> []" using s(2,5) by (simp_all add: Mutex_Lock_def Sync_ctor_def)
  have o: "sy_owner ?s = Some 1" using s(3) by simp
  obtain s1 s2 where "\<forall>u. sy_owner ?s = Some u \<and> u \<noteq> 2 \<longrightarrow> (releasing u)\<^sup>*\<^sup>* ?s s1 \<and> sy_owner s1 = None"
    "(inner 2)\<^sup>*\<^sup>* s1 s2" "sy_todo s2 2 = [] \<or> 2 \<in> sy_waiting s2"
    using mutex_progress [OF r p] by blast
  moreover have "sy_todo ?s 2 = Mutex_Lock" by simp
  ultimately show ?thesis using r o by (intro exI [of _ ?s] exI [of _ s1] exI [of _ s2]) auto
qed

text \<open>
  the conversions at the system boundary do not overflow. The deadline of \<open>TimedWait\<close> is exactly the given
  number of microseconds, with fewer than \<open>10 ^ 9\<close> nanoseconds; \<open>GetMaxOpenFiles\<close> is the limit cut off at
  the largest \<open>int\<close>, never a negative number by truncation; the core id of \<open>cpuid\<close> is below 256; the page
  size is at least 1024.
\<close>

theorem port_conversions:
  "(let (sec, nsec) = timespec_of us in unat sec * 10 ^ 9 + unat nsec = unat us * 1000 \<and> unat nsec < 10 ^ 9) \<and>
   GetMaxOpenFiles (Some n) = min (uint n) 2147483647 \<and> GetMaxOpenFiles None = -1 \<and>
   PhysicalCoreID_cpuid (Some b) \<in> {0..<256} \<and> PhysicalCoreID_getcpu c \<ge> -1 \<and> 1024 \<le> GetPageSize v"
proof (intro conjI)
  define q r where "q = unat us div 1000000" and "r = unat us mod 1000000"
  have "q * 1000000 + r = unat us" "r < 1000000" by (simp_all add: q_def r_def)
  then have "q * 1000000000 + r * 1000 = unat us * 1000" "r * 1000 < 1000000000" by linarith+
  then show "let (sec, nsec) = timespec_of us in unat sec * 10 ^ 9 + unat nsec = unat us * 1000 \<and> unat nsec < 10 ^ 9"
    using timespec_unat [of us] by (simp add: case_prod_beta q_def r_def)
  show "GetMaxOpenFiles (Some n) = min (uint n) 2147483647"
  proof (cases "n < 2147483647")
    case True
    moreover from this have "uint n < 2147483647" by (simp add: word_less_def)
    ultimately show ?thesis using max_open_files_small [of n] by (simp add: GetMaxOpenFiles_def not_le [symmetric])
  next
    case False
    then have "2147483647 \<le> uint n" by (simp add: word_less_def)
    with False show ?thesis by (simp add: GetMaxOpenFiles_def not_less)
  qed
  show "GetMaxOpenFiles None = -1" by (simp add: GetMaxOpenFiles_def)
  have "unat (drop_bit 24 b) < 256" using unsigned_less [of b, where ?'a = nat] by (simp add: unat_drop_bit_div less_mult_imp_div_less)
  then have "int (unat (drop_bit 24 b)) < 256" by linarith
  then have "uint (drop_bit 24 b) < 256" by (simp only: uint_nat)
  then show "PhysicalCoreID_cpuid (Some b) \<in> {0..<256}" by (simp add: PhysicalCoreID_cpuid_def)
  show "PhysicalCoreID_getcpu c \<ge> -1" by (simp add: PhysicalCoreID_getcpu_def)
  show "1024 \<le> GetPageSize v" by (auto simp: GetPageSize_def le_nat_iff)
qed

end
