(* ===== verification/Spec2Isabelle.thy ===== *)
theory Spec2Isabelle
  imports BenchMain IterKeys PinnableSlices Statuses SliceParsers HumanStrings Ports
begin

text \<open>
  Verification of a compaction test program: a C++ program, cut out of a key-value store, that
  generates table files and merges them, as a baseline for a merger on an FPGA.

  \<^bold>\<open>The program.\<close> The keys are \<^emph>\<open>internal keys\<close>: a user key and eight bytes that pack a sequence number and a type
  (\<open>db_format/dbformat.h\<close>, \<open>dbformat.cc\<close>). They are encoded with the routines of \<open>utils/coding.h\<close> and viewed
  through \<open>Slice\<close> (\<open>include/slice.h\<close>), a pointer and a length without ownership. Tables
  (\<open>include/tables/*.h\<close>, \<open>tables/*\<close>) hold two vectors of slices and convert them to a disk format; the
  gear table cuts them into blocks of 8192 bytes (\<open>db_format/on_board_format.h\<close>, \<open>tables/gear_table\<close>). A merger
  (\<open>include/merger.h\<close>, \<open>merger.cc\<close>, \<open>stream_merger.cc\<close>) opens tables, pushes their entries into a priority
  queue and filters them. The benchmark tool (\<open>tools/gear_bench_tool.cc\<close>) draws keys from a generator
  (\<open>gear_bench_classes\<close>), which uses \<open>include/random.h\<close>, writes tables and runs a merger on them.

  \<^bold>\<open>The theories\<close>, each importing the ones it calls:
  \<^item> \<open>Prelude\<close>: the result type \<open>'a res\<close> with the faults of C++ (failed assertions, accesses out of bounds, use after
    release, division by zero, ...), bytes and words, reads and writes in an object.
  \<^item> \<open>Slices\<close> (\<open>slice.h\<close>, \<open>slice.cc\<close>): slices as an object, an offset and a size, with a pointer that is alive, null or dangling; the operations agree with byte strings; hexadecimal.
  \<^item> \<open>Transforms\<close> (\<open>slice_transform.h\<close>): the interface as a record of methods, the contract as locales, the three prefix extractors.
  \<^item> \<open>Coding\<close> (\<open>coding.h\<close>, \<open>coding.cc\<close>): fixed-width, varint, zigzag and length-prefixed codes on either byte order; round trips and bounds.
  \<^item> \<open>SliceParsers\<close> (\<open>coding.h\<close>): sequences of \<open>Get\<close> calls on one slice; the contract of a parser as a locale, which the routines satisfy.
  \<^item> \<open>Comparators\<close> (\<open>comparator.h\<close>, \<open>user_comparator_wrapper.h\<close>, \<open>kv_map.h\<close>): the interface with its defaults and its laws as a locale.
  \<^item> \<open>StringUtil\<close> (\<open>string_util.h\<close>, \<open>string_util.cc\<close>): splitting, escaping, numbers and their parsers.
  \<^item> \<open>HumanStrings\<close> (\<open>string_util.cc\<close>): times and sizes printed through \<open>double\<close>, with the rounding of the hardware as an argument, and calendar
    times, with the locale and the time zone as arguments.
  \<^item> \<open>DBFormat\<close> (\<open>dbformat.h\<close>, \<open>dbformat.cc\<close>, \<open>types.h\<close>): packing, encoding, parsing and comparing internal keys, the classes \<open>InternalKey\<close> and
    \<open>RangeTombstone\<close>; round trips, the order of keys, the contract of separators and successors.
  \<^item> \<open>IterKeys\<close> (\<open>dbformat.h\<close>): the class \<open>IterKey\<close>, whose key is in an inline buffer, a heap array or the client's memory. The
    store has the three kinds of pointers; the operations refine a byte string with two flags and a capacity.
  \<^item> \<open>Cleanables\<close> (\<open>cleanable.h\<close>, \<open>cleanable.cc\<close>): linked lists of cleanup functions in a store with a log of the calls; every registered call
    is made once, except those that a move onto their object or a delegation to itself drops, and the loops over the pointers end.
  \<^item> \<open>PinnableSlices\<close> (\<open>slice.h\<close>, \<open>slice.cc\<close>): slices that own a buffer or pin foreign memory until their cleanups run.
  \<^item> \<open>Statuses\<close> (\<open>status.h\<close>): status objects by name and message arrays in a heap; objects behave as values, arrays are released once.
  \<^item> \<open>Blocks\<close> (\<open>on_board_format.h\<close>, \<open>on_board_fomat.cc\<close>, \<open>gear_table.cc\<close>): the block layouts, with a reference decoder.
  \<^item> \<open>Tables\<close> (\<open>table_builder.cc\<close> and the four table classes): files, the disk formats, the reader of blocks.
  \<^item> \<open>StdHeap\<close>: the heap algorithms of the standard library, for an arbitrary comparison.
  \<^item> \<open>Mergers\<close> (\<open>merger.h\<close>, \<open>merger.cc\<close>): the base merger, its heap and its filters; the contract of a filter logic is a locale, from which the loop over the queue is verified for all three.
  \<^item> \<open>StreamMerger\<close> (\<open>stream_merger.cc\<close>): the baseline merger and the stream merger.
  \<^item> \<open>Pipelines\<close>: what happens to the entries of plain tables between the table, the disk and the queue of the baseline merger, and how its compaction ends
    whatever the reads return.
  \<^item> \<open>Randoms\<close> (\<open>random.h\<close>): the linear congruential generator, with its period, and the wrappers of the standard engines.
  \<^item> \<open>KeyGenerators\<close> (\<open>gear_bench_classes.h\<close>, \<open>gear_bench_classes.cc\<close>): the key generators; the bytes of generated keys, and the content of a
    spanning generator from the draws to the parsed keys.
  \<^item> \<open>BenchTool\<close> (\<open>gear_bench_tool.cc\<close>): file generation, the tasks and the dispatch of \<open>main\<close>.
  \<^item> \<open>BenchMain\<close> (\<open>gear_bench_tool.cc\<close>): the flags with their defaults, \<open>main\<close> over the tasks, and how the runs with the default flags end.
  \<^item> \<open>Ports\<close> (\<open>port_posix.h\<close>, \<open>port_posix.cc\<close>): \<open>Mutex\<close> and \<open>CondVar\<close> as interleaved atomic actions of any number of threads, a step relation
    with its reachable states; the flag, and that nobody gets stuck; the routines around single system calls.
  This theory holds the property that spans the tables, the files and the merger.

  \<^bold>\<open>Conventions.\<close> A C++ struct is a record, a method is a function from the record to the record and its
  result. \<open>Inl\<close> of a fault is undefined behaviour or a failed assertion. Machine integers are words of
  their width; sizes (\<open>size_t\<close>) of objects in memory are natural numbers, because no object has
  \<open>2 ^ 64\<close> bytes. The byte order of the machine (\<open>port::kLittleEndian\<close>) is the argument \<open>le\<close>. What the
  operating system or the standard library decides (whether a file opens, how much \<open>read\<close> and \<open>write\<close>
  transfer, what uninitialised memory holds, the random engines and distributions) is an argument, and so are the functions the repository only declares
  (\<open>CopyState\<close>, the message constructor of \<open>Status\<close>, the comparators). A pointer of a slice is alive, null or dangling; a read through a dangling one
  is the fault \<open>UseAfterFree\<close>.

  \<^bold>\<open>Loops.\<close> A loop whose end is clear from its counter is a terminating function. The loops of
  \<open>Cleanables\<close>, \<open>generate_files\<close> and \<open>GetSliceUntil\<close>, which may not end, are partial functions into \<open>option\<close>: \<open>None\<close> means that
  the call does not return, and the properties say when it does. The loop of the stream merger has fuel:
  the property is that no amount of fuel ends it. \<open>LOAD_LENGTH\<close> is the 512 MiB the code reads of a file; what
  becomes of a file that fills them is part of the properties.

  \<^bold>\<open>Not modelled.\<close> Of the port layer the pause instruction and the shims for other operating
  systems, and of \<open>RWMutex\<close> only the checked pthread calls; the version macros; the functions with an empty body (\<open>CallBackOfFPGA\<close>,
  \<open>TransportToFPGA\<close>, \<open>WaitForFPGA\<close>, \<open>InitialArbitrationCondition\<close>); \<open>fsync\<close> and \<open>close\<close>, which do not change the content of a file;
  what the headers declare and nothing defines (\<open>Status::ToString\<close>, \<open>Random::GetTLSInstance\<close>, the readers of write batches); the reading of flags
  from the command line (gflags), clock readings, console
  output and directory creation in the tool. The threads of the tool are joined one by one and run in sequence.
\<close>

section \<open>From tables to the queue of the merger\<close>

text \<open>
  C6: from plain tables to the queue of the merger. The tables are plain ones on new files, with as many keys as values, all of them slices of memory that is
  alive, keys of 16 bytes and values of 10, and at most 512 MiB of entries, which is what the merger loads of a file (a longer file makes it
  read past its buffer). The files under the given names hold what the tables write, when every write is complete, on a machine of either byte order.
  Then every table is written without a fault, and when each file is read completely the baseline merger opens and loads
  all of them, and its queue gets exactly one entry for each entry of each table, the bytes of its key followed by those of its value.
\<close>

theorem plain_tables_reach_queue:
  assumes "list_all plain_table ts"
    and "list_all2 (\<lambda>name t. fs name = (case written le t of Inl e \<Rightarrow> None | Inr c \<Rightarrow> Some c)) names ts"
    and "list_all2 (\<lambda>t jr. length (fst jr) = LOAD_LENGTH \<and> snd jr = int (26 * length (tb_key_list t))) ts io"
  shows "list_all (\<lambda>t. \<exists>c. written le t = Inr c) ts \<and>
    (\<exists>bm files files' queue. BaselineMerger_ctor fs True l a names = Inr bm \<and>
      load_files io (bm_input_plain_files (snd (Baseline_PrepareFiles bm))) = Inr files \<and>
      push_files (entry_less le' u) (map reverse_twice files) 0 [] =
        Some (Inr (files', of_nat (length (concat (map tb_key_list ts))), queue)) \<and>
      mset (map slice_bytes queue) =
        mset (concat (map (\<lambda>t. map2 (\<lambda>k v. slice_bytes k @ slice_bytes v) (tb_key_list t) (tb_value_list t)) ts)))"
proof -
  let ?ess = "map entries_of ts"
  have t: "plain_entries (entries_of t)" "length (entries_of t) = length (tb_key_list t)" "written le t = Inr (plain_content (entries_of t))"
    if "t \<in> set ts" for t using plain_table_entries assms(1) that by (auto simp: list_all_iff)
  have "list_all2 (\<lambda>name c. fs name = Some c) names (map plain_content ?ess)"
    using assms(2) t(3) by (auto simp: list_all2_conv_all_nth)
  then obtain bm files where bm: "BaselineMerger_ctor fs True l a names = Inr bm" "bm_last_entry bm = []" "bm_input_plain_files bm = []"
    "map as_plain (mg_input_files (bm_base bm)) = map Some files" "list_all2 fresh_file (map plain_content ?ess) files"
    by (rule BaselineMerger_on_files)
  have "list_all plain_entries ?ess" "list_all2 full_read ?ess io"
    using t assms(3) by (auto simp: list_all_iff full_read_def list_all2_conv_all_nth)
  note r = full_reads [OF this]
  have "concat (map2 chunks io (map plain_content ?ess)) =
      concat (map (\<lambda>t. map2 (\<lambda>k v. slice_bytes k @ slice_bytes v) (tb_key_list t) (tb_value_list t)) ts)"
    unfolding r(4) by (simp add: comp_def entries_of_def zip_map1 zip_map2 case_prod_unfold)
  moreover from this have "length (concat (map2 chunks io (map plain_content ?ess))) = length (concat (map tb_key_list ts))"
    using assms(1) by (auto simp: length_concat list_all_iff plain_table_def comp_def intro!: arg_cong [of _ _ sum_list] map_cong)
  ultimately show ?thesis
    using Baseline_DoCompaction_on_files [OF bm(2-5) r(1), of le' u] r(2,3) bm(1) t(3) unfolding list_all_iff merges_all_def by auto
qed

theorem plain_tables_reach_queue_witness:
  "\<exists>fs bm files files' queue. BaselineMerger_ctor fs True kRemoveRedundant \<lparr>fa_seq = 0, fa_prefix = []\<rparr> [[97], [98]] = Inr bm \<and>
    load_files [(replicate LOAD_LENGTH 0, 52), (replicate LOAD_LENGTH 0, 26)] (bm_input_plain_files (snd (Baseline_PrepareFiles bm))) = Inr files \<and>
    push_files (entry_less False 0) (map reverse_twice files) 0 [] = Some (Inr (files', 3, queue)) \<and>
    mset (map slice_bytes queue) = {#replicate 16 1 @ replicate 10 2, replicate 16 3 @ replicate 10 4, replicate 16 1 @ replicate 10 5#}"
proof -
  let ?t = "\<lambda>ks vs. \<lparr>tb_kind = PlainTable, tb_key_list = map (\<lambda>b. Slice_string (replicate 16 b)) ks,
    tb_value_list = map (\<lambda>b. Slice_string (replicate 10 b)) vs, tb_file = [], tb_offset = 0, tb_writable = True,
    tb_file_name = [], tb_num_of_blocks = 0\<rparr>"
  let ?ts = "[?t [1, 3] [2, 4], ?t [1] [5]]"
  define fs :: "byte list \<Rightarrow> byte list option" where
    "fs = (\<lambda>name. case written True (if name = [97] then ?t [1, 3] [2, 4] else ?t [1] [5]) of Inl e \<Rightarrow> None | Inr c \<Rightarrow> Some c)"
  have t: "list_all plain_table ?ts"
    by (simp add: plain_table_def Slice_string_def slice_wf_def block_consts LOAD_LENGTH_def)
  have f: "list_all2 (\<lambda>name t. fs name = (case written True t of Inl e \<Rightarrow> None | Inr c \<Rightarrow> Some c)) [[97], [98]] ?ts"
    by (simp add: fs_def)
  have r: "list_all2 (\<lambda>t jr. length (fst jr) = LOAD_LENGTH \<and> snd jr = int (26 * length (tb_key_list t))) ?ts
      [(replicate LOAD_LENGTH 0, 52), (replicate LOAD_LENGTH 0, 26)]" by simp
  have n: "of_nat (length (concat (map tb_key_list ?ts))) = (3 :: u64)" by simp
  have e: "concat (map (\<lambda>t. map2 (\<lambda>k v. slice_bytes k @ slice_bytes v) (tb_key_list t) (tb_value_list t)) ?ts) =
      [replicate 16 1 @ replicate 10 2, replicate 16 3 @ replicate 10 4, replicate 16 1 @ replicate 10 5]" by simp
  have m: "mset [a, b, c] = {#a, b, c#}" for a b c :: "byte list" by simp
  show ?thesis
    by (rule exI [of _ fs])
      (rule conjunct2 [OF plain_tables_reach_queue [OF t f r, of kRemoveRedundant "\<lparr>fa_seq = 0, fa_prefix = []\<rparr>" False 0, unfolded n e m]])
qed

end
